theory Spec2Isabelle
  imports Main "HOL-Library.Extended_Nat"
begin

section \<open>Data model of pathfinder.ts\<close>

text \<open>
  The six strategy identifiers of \<open>SEARCH_METHODS\<close>. The TypeScript union type is closed,
  so the \<open>default\<close> branch of the dispatcher has no counterpart here.
\<close>

datatype SearchMethod = DFS | DFS_EXPLORE | BFS | BFS_EXPLORE | ASTAR | ASTAR_EXPLORE

text \<open>\<open>interface MazeCell\<close>: a flag that is true blocks the move in that direction.\<close>

record MazeCell =
  north :: bool
  east :: bool
  south :: bool
  west :: bool

text \<open>
  The only exception the module can raise: reading a property of \<open>undefined\<close>, which is what
  \<open>maze[y][x]\<close> followed by \<open>wall(...)\<close> does when the cell does not exist.
\<close>

datatype error = TypeError

type_synonym coord = "int \<times> int"

type_synonym maze = "MazeCell list list"

text \<open>
  \<open>interface SearchNode {x, y, path}\<close> is the pair of the coordinate \<open>(x, y)\<close> and the path.
  The string key \<open>`${x},${y}`\<close> of the visited sets and maps is injective on integer
  coordinates, so the coordinate itself is the key.
\<close>

type_synonym SearchNode = "coord \<times> coord list"

text \<open>An entry \<open>{dx, dy, wall}\<close> of the direction tables.\<close>

type_synonym direction = "int \<times> int \<times> (MazeCell \<Rightarrow> bool)"

definition directions :: "direction list" where
  "directions = [(0, -1, north), (1, 0, east), (0, 1, south), (-1, 0, west)]"

text \<open>
  \<open>maze[y][x]\<close>: \<open>None\<close> stands for \<open>undefined\<close> (row or column index outside the arrays);
  every use in the source dereferences the result, which throws.
\<close>

definition cell_at :: "maze \<Rightarrow> int \<Rightarrow> int \<Rightarrow> MazeCell option" where
  "cell_at maze x y =
     (if 0 \<le> y \<and> y < int (length maze)
      then (if 0 \<le> x \<and> x < int (length (maze ! nat y))
            then Some (maze ! nat y ! nat x) else None)
      else None)"

text \<open>
  The test shared by all six loops, in the source's evaluation order:
  \<open>nx >= 0 && nx < W && ny >= 0 && ny < H && !wall(maze[y][x])\<close>. The cell of the node
  being left is read only once the bounds test on the neighbour has passed.
\<close>

definition open_move :: "maze \<Rightarrow> int \<Rightarrow> int \<Rightarrow> int \<Rightarrow> int \<Rightarrow> direction \<Rightarrow> error + bool" where
  "open_move maze W H x y d =
     (case d of (dx, dy, wall) \<Rightarrow>
        if x + dx \<ge> 0 \<and> x + dx < W \<and> y + dy \<ge> 0 \<and> y + dy < H
        then (case cell_at maze x y of
                None \<Rightarrow> Inl TypeError
              | Some cell \<Rightarrow> Inr (\<not> wall cell))
        else Inr False)"

definition target :: "int \<Rightarrow> int \<Rightarrow> direction \<Rightarrow> coord" where
  "target x y d = (x + fst d, y + fst (snd d))"

definition inb :: "int \<Rightarrow> int \<Rightarrow> coord set" where
  "inb W H = {0..<W} \<times> {0..<H}"

section \<open>Depth-first search\<close>

text \<open>
  The inner loop of \<open>dfs\<close>, called with the direction table reversed
  (\<open>for (let i = directions.length - 1; i >= 0; i--)\<close>). The stack's top is the list's head.
\<close>

fun dfs_push :: "maze \<Rightarrow> int \<Rightarrow> int \<Rightarrow> SearchNode \<Rightarrow> coord set \<Rightarrow> direction list
    \<Rightarrow> SearchNode list \<Rightarrow> error + SearchNode list" where
  "dfs_push maze W H node visited [] stack = Inr stack"
| "dfs_push maze W H node visited (d # ds) stack =
     (case open_move maze W H (fst (fst node)) (snd (fst node)) d of
        Inl e \<Rightarrow> Inl e
      | Inr ok \<Rightarrow>
          dfs_push maze W H node visited ds
            (if ok \<and> target (fst (fst node)) (snd (fst node)) d \<notin> visited
             then (target (fst (fst node)) (snd (fst node)) d,
                   snd node @ [target (fst (fst node)) (snd (fst node)) d]) # stack
             else stack))"

lemma dfs_push_coords:
  "dfs_push maze W H node visited ds stack = Inr stack' \<Longrightarrow>
   fst ` set stack' \<subseteq> fst ` set stack \<union> inb W H \<and> length stack' \<le> length stack + length ds"
proof (induction ds arbitrary: stack)
  case Nil
  then show ?case by simp
next
  case (Cons d ds)
  obtain dx dy wall where d: "d = (dx, dy, wall)" by (cases d) auto
  from Cons.prems obtain ok where
    ok: "open_move maze W H (fst (fst node)) (snd (fst node)) d = Inr ok"
    by (auto split: sum.splits)
  define n where "n = target (fst (fst node)) (snd (fst node)) d"
  define st where "st = (if ok \<and> n \<notin> visited then (n, snd node @ [n]) # stack else stack)"
  from Cons.prems ok have run: "dfs_push maze W H node visited ds st = Inr stack'"
    by (auto simp: st_def n_def split: if_splits)
  have "ok \<Longrightarrow> n \<in> inb W H"
    using ok unfolding open_move_def target_def inb_def d n_def
    by (auto split: if_splits option.splits)
  then have s1: "fst ` set st \<subseteq> fst ` set stack \<union> inb W H"
    and s2: "length st \<le> Suc (length stack)"
    by (auto simp: st_def)
  from Cons.IH [OF run] have a: "fst ` set stack' \<subseteq> fst ` set st \<union> inb W H"
    and b: "length stack' \<le> length st + length ds"
    by simp_all
  from a s1 have "fst ` set stack' \<subseteq> fst ` set stack \<union> inb W H" by blast
  moreover from b s2 have "length stack' \<le> length stack + length (d # ds)" by simp
  ultimately show ?case by (rule conjI)
qed

function dfs_loop :: "maze \<Rightarrow> int \<Rightarrow> int \<Rightarrow> coord \<Rightarrow> SearchNode list \<Rightarrow> coord set
    \<Rightarrow> error + coord list" where
  "dfs_loop maze W H goal [] visited = Inr []"
| "dfs_loop maze W H goal (node # stack) visited =
     (if fst node \<in> visited then dfs_loop maze W H goal stack visited
      else if fst node = goal then Inr (tl (snd node))
      else (case dfs_push maze W H node (insert (fst node) visited) (rev directions) stack of
              Inl e \<Rightarrow> Inl e
            | Inr stack' \<Rightarrow> dfs_loop maze W H goal stack' (insert (fst node) visited)))"
  by pat_completeness auto

lemma finite_inb: "finite (inb W H)"
  by (simp add: inb_def)

termination dfs_loop
proof (relation "measure (\<lambda>(maze, W, H, goal, stack, visited).
          5 * card ((inb W H \<union> fst ` set stack) - visited) + length stack)", goal_cases)
  case 1
  show ?case by simp
next
  case (2 maze W H goal node stack visited)
  have "card ((inb W H \<union> fst ` set stack) - visited)
      \<le> card ((inb W H \<union> fst ` set (node # stack)) - visited)"
    by (rule card_mono) (auto simp: finite_inb)
  then have "5 * card ((inb W H \<union> fst ` set stack) - visited) + length stack
      < 5 * card ((inb W H \<union> fst ` set (node # stack)) - visited) + length (node # stack)"
    by simp
  then show ?case unfolding in_measure prod.case .
next
  case (3 maze W H goal node stack visited stack')
  from dfs_push_coords [OF 3(3)]
  have sub: "fst ` set stack' \<subseteq> fst ` set stack \<union> inb W H"
    and len: "length stack' \<le> length stack + 4"
    by (simp_all add: directions_def)
  define A where "A = (inb W H \<union> fst ` set stack') - insert (fst node) visited"
  define B where "B = (inb W H \<union> fst ` set (node # stack)) - visited"
  have "A \<subset> B" using sub 3(1) unfolding A_def B_def by auto
  moreover have "finite B" by (simp add: B_def finite_inb)
  ultimately have "card A < card B"
    by (rule psubset_card_mono [rotated])
  with len have "5 * card A + length stack' < 5 * card B + length (node # stack)"
    by simp
  then show ?case unfolding A_def B_def in_measure prod.case .
qed

text \<open>
  \<open>dfs\<close>. \<open>maze[0].length\<close> throws on a grid without rows; \<open>findPath\<close> never calls it so.
  \<open>path.slice(1)\<close> is \<open>tl\<close>, also on the empty array.
\<close>

definition dfs :: "int \<Rightarrow> int \<Rightarrow> int \<Rightarrow> int \<Rightarrow> maze \<Rightarrow> error + coord list" where
  "dfs startX startY endX endY maze =
     (case maze of
        [] \<Rightarrow> Inl TypeError
      | row0 # _ \<Rightarrow>
          dfs_loop maze (int (length row0)) (int (length maze)) (endX, endY)
            [((startX, startY), [(startX, startY)])] {})"

section \<open>Breadth-first search\<close>

text \<open>
  The inner loop of \<open>bfs\<close> over the direction table, on the pair of the queue and the
  visited set. The queue's front is the list's head; \<open>push\<close> appends.
\<close>

fun bfs_push :: "maze \<Rightarrow> int \<Rightarrow> int \<Rightarrow> SearchNode \<Rightarrow> direction list
    \<Rightarrow> SearchNode list \<times> coord set \<Rightarrow> error + (SearchNode list \<times> coord set)" where
  "bfs_push maze W H node [] st = Inr st"
| "bfs_push maze W H node (d # ds) (queue, visited) =
     (case open_move maze W H (fst (fst node)) (snd (fst node)) d of
        Inl e \<Rightarrow> Inl e
      | Inr ok \<Rightarrow>
          bfs_push maze W H node ds
            (if ok \<and> target (fst (fst node)) (snd (fst node)) d \<notin> visited
             then (queue @ [(target (fst (fst node)) (snd (fst node)) d,
                             snd node @ [target (fst (fst node)) (snd (fst node)) d])],
                   insert (target (fst (fst node)) (snd (fst node)) d) visited)
             else (queue, visited)))"

lemma open_move_inb:
  "open_move maze W H x y d = Inr True \<Longrightarrow> target x y d \<in> inb W H"
  unfolding open_move_def target_def inb_def
  by (cases d) (auto split: if_splits option.splits)

lemma card_inb_insert:
  assumes "n \<in> inb W H" and "n \<notin> visited"
  shows "Suc (card (inb W H - insert n visited)) = card (inb W H - visited)"
proof -
  have mem: "n \<in> inb W H - visited" using assms by simp
  have fin: "finite (inb W H - visited)" by (simp add: finite_inb)
  have eq: "inb W H - insert n visited = (inb W H - visited) - {n}" by auto
  show ?thesis unfolding eq by (rule card_Suc_Diff1 [OF fin mem])
qed

lemma bfs_push_measure:
  "bfs_push maze W H node ds (queue, visited) = Inr (queue', visited') \<Longrightarrow>
   length queue' + card (inb W H - visited') = length queue + card (inb W H - visited)"
proof (induction ds arbitrary: queue visited)
  case Nil
  then show ?case by simp
next
  case (Cons d ds)
  from Cons.prems obtain ok where
    ok: "open_move maze W H (fst (fst node)) (snd (fst node)) d = Inr ok"
    by (auto split: sum.splits)
  define n where "n = target (fst (fst node)) (snd (fst node)) d"
  show ?case
  proof (cases "ok \<and> n \<notin> visited")
    case True
    with Cons.prems ok
    have run: "bfs_push maze W H node ds (queue @ [(n, snd node @ [n])], insert n visited)
               = Inr (queue', visited')"
      by (simp add: n_def)
    from True ok have "n \<in> inb W H"
      unfolding n_def by (simp add: open_move_inb)
    with True have "Suc (card (inb W H - insert n visited)) = card (inb W H - visited)"
      by (intro card_inb_insert) simp_all
    with Cons.IH [OF run] show ?thesis by simp
  next
    case False
    with Cons.prems ok
    have run: "bfs_push maze W H node ds (queue, visited) = Inr (queue', visited')"
      by (auto simp: n_def)
    from Cons.IH [OF run] show ?thesis .
  qed
qed

function bfs_loop :: "maze \<Rightarrow> int \<Rightarrow> int \<Rightarrow> coord \<Rightarrow> SearchNode list \<Rightarrow> coord set
    \<Rightarrow> error + coord list" where
  "bfs_loop maze W H goal [] visited = Inr []"
| "bfs_loop maze W H goal (node # queue) visited =
     (if fst node = goal then Inr (tl (snd node))
      else (case bfs_push maze W H node directions (queue, visited) of
              Inl e \<Rightarrow> Inl e
            | Inr st \<Rightarrow> bfs_loop maze W H goal (fst st) (snd st)))"
  by pat_completeness auto

termination bfs_loop
proof (relation "measure (\<lambda>(maze, W, H, goal, queue, visited).
          length queue + card (inb W H - visited))", goal_cases)
  case 1
  show ?case by simp
next
  case (2 maze W H goal node queue visited st)
  obtain queue' visited' where st: "st = (queue', visited')" by (cases st)
  from 2(2) have "length queue' + card (inb W H - visited')
      = length queue + card (inb W H - visited)"
    unfolding st by (rule bfs_push_measure)
  then have "length (fst st) + card (inb W H - snd st)
      < length (node # queue) + card (inb W H - visited)"
    by (simp add: st)
  then show ?case unfolding in_measure prod.case .
qed

text \<open>\<open>bfs\<close>: the start is marked visited before the loop.\<close>

definition bfs :: "int \<Rightarrow> int \<Rightarrow> int \<Rightarrow> int \<Rightarrow> maze \<Rightarrow> error + coord list" where
  "bfs startX startY endX endY maze =
     (case maze of
        [] \<Rightarrow> Inl TypeError
      | row0 # _ \<Rightarrow>
          bfs_loop maze (int (length row0)) (int (length maze)) (endX, endY)
            [((startX, startY), [(startX, startY)])] {(startX, startY)})"

section \<open>Exploration order of the uninformed searches\<close>

text \<open>The frontier of the exploration variants holds \<open>{x, y}\<close> only.\<close>

fun dfsExplore_push :: "maze \<Rightarrow> int \<Rightarrow> int \<Rightarrow> coord \<Rightarrow> coord set \<Rightarrow> direction list
    \<Rightarrow> coord list \<Rightarrow> error + coord list" where
  "dfsExplore_push maze W H c visited [] stack = Inr stack"
| "dfsExplore_push maze W H c visited (d # ds) stack =
     (case open_move maze W H (fst c) (snd c) d of
        Inl e \<Rightarrow> Inl e
      | Inr ok \<Rightarrow>
          dfsExplore_push maze W H c visited ds
            (if ok \<and> target (fst c) (snd c) d \<notin> visited
             then target (fst c) (snd c) d # stack
             else stack))"

lemma dfsExplore_push_coords:
  "dfsExplore_push maze W H c visited ds stack = Inr stack' \<Longrightarrow>
   set stack' \<subseteq> set stack \<union> inb W H \<and> length stack' \<le> length stack + length ds"
proof (induction ds arbitrary: stack)
  case Nil
  then show ?case by simp
next
  case (Cons d ds)
  from Cons.prems obtain ok where
    ok: "open_move maze W H (fst c) (snd c) d = Inr ok"
    by (auto split: sum.splits)
  define n where "n = target (fst c) (snd c) d"
  define st where "st = (if ok \<and> n \<notin> visited then n # stack else stack)"
  from Cons.prems ok have run: "dfsExplore_push maze W H c visited ds st = Inr stack'"
    by (auto simp: st_def n_def split: if_splits)
  have "ok \<Longrightarrow> n \<in> inb W H"
    using ok unfolding n_def by (simp add: open_move_inb)
  then have s1: "set st \<subseteq> set stack \<union> inb W H"
    and s2: "length st \<le> Suc (length stack)"
    by (auto simp: st_def)
  from Cons.IH [OF run] have a: "set stack' \<subseteq> set st \<union> inb W H"
    and b: "length stack' \<le> length st + length ds"
    by simp_all
  from a s1 have "set stack' \<subseteq> set stack \<union> inb W H" by blast
  moreover from b s2 have "length stack' \<le> length stack + length (d # ds)" by simp
  ultimately show ?case by (rule conjI)
qed

function dfsExplore_loop :: "maze \<Rightarrow> int \<Rightarrow> int \<Rightarrow> coord \<Rightarrow> coord list \<Rightarrow> coord set
    \<Rightarrow> coord list \<Rightarrow> error + coord list" where
  "dfsExplore_loop maze W H goal [] visited expl = Inr (tl expl)"
| "dfsExplore_loop maze W H goal (c # stack) visited expl =
     (if c \<in> visited then dfsExplore_loop maze W H goal stack visited expl
      else if c = goal then Inr (tl (expl @ [c]))
      else (case dfsExplore_push maze W H c (insert c visited) (rev directions) stack of
              Inl e \<Rightarrow> Inl e
            | Inr stack' \<Rightarrow>
                dfsExplore_loop maze W H goal stack' (insert c visited) (expl @ [c])))"
  by pat_completeness auto

termination dfsExplore_loop
proof (relation "measure (\<lambda>(maze, W, H, goal, stack, visited, expl).
          5 * card ((inb W H \<union> set stack) - visited) + length stack)", goal_cases)
  case 1
  show ?case by simp
next
  case (2 maze W H goal c stack visited expl)
  have "card ((inb W H \<union> set stack) - visited)
      \<le> card ((inb W H \<union> set (c # stack)) - visited)"
    by (rule card_mono) (auto simp: finite_inb)
  then have "5 * card ((inb W H \<union> set stack) - visited) + length stack
      < 5 * card ((inb W H \<union> set (c # stack)) - visited) + length (c # stack)"
    by simp
  then show ?case unfolding in_measure prod.case .
next
  case (3 maze W H goal c stack visited expl stack')
  from dfsExplore_push_coords [OF 3(3)]
  have sub: "set stack' \<subseteq> set stack \<union> inb W H"
    and len: "length stack' \<le> length stack + 4"
    by (simp_all add: directions_def)
  define A where "A = (inb W H \<union> set stack') - insert c visited"
  define B where "B = (inb W H \<union> set (c # stack)) - visited"
  have "A \<subset> B" using sub 3(1) unfolding A_def B_def by auto
  moreover have "finite B" by (simp add: B_def finite_inb)
  ultimately have "card A < card B"
    by (rule psubset_card_mono [rotated])
  with len have "5 * card A + length stack' < 5 * card B + length (c # stack)"
    by simp
  then show ?case unfolding A_def B_def in_measure prod.case .
qed

text \<open>\<open>dfsExplore\<close>: \<open>explored.slice(1)\<close> drops the first explored cell, the start.\<close>

definition dfsExplore :: "int \<Rightarrow> int \<Rightarrow> int \<Rightarrow> int \<Rightarrow> maze \<Rightarrow> error + coord list" where
  "dfsExplore startX startY endX endY maze =
     (case maze of
        [] \<Rightarrow> Inl TypeError
      | row0 # _ \<Rightarrow>
          dfsExplore_loop maze (int (length row0)) (int (length maze)) (endX, endY)
            [(startX, startY)] {} [])"

fun bfsExplore_push :: "maze \<Rightarrow> int \<Rightarrow> int \<Rightarrow> coord \<Rightarrow> direction list
    \<Rightarrow> coord list \<times> coord set \<Rightarrow> error + (coord list \<times> coord set)" where
  "bfsExplore_push maze W H c [] st = Inr st"
| "bfsExplore_push maze W H c (d # ds) (queue, visited) =
     (case open_move maze W H (fst c) (snd c) d of
        Inl e \<Rightarrow> Inl e
      | Inr ok \<Rightarrow>
          bfsExplore_push maze W H c ds
            (if ok \<and> target (fst c) (snd c) d \<notin> visited
             then (queue @ [target (fst c) (snd c) d],
                   insert (target (fst c) (snd c) d) visited)
             else (queue, visited)))"

lemma bfsExplore_push_measure:
  "bfsExplore_push maze W H c ds (queue, visited) = Inr (queue', visited') \<Longrightarrow>
   length queue' + card (inb W H - visited') = length queue + card (inb W H - visited)"
proof (induction ds arbitrary: queue visited)
  case Nil
  then show ?case by simp
next
  case (Cons d ds)
  from Cons.prems obtain ok where
    ok: "open_move maze W H (fst c) (snd c) d = Inr ok"
    by (auto split: sum.splits)
  define n where "n = target (fst c) (snd c) d"
  show ?case
  proof (cases "ok \<and> n \<notin> visited")
    case True
    with Cons.prems ok
    have run: "bfsExplore_push maze W H c ds (queue @ [n], insert n visited)
               = Inr (queue', visited')"
      by (simp add: n_def)
    from True ok have "n \<in> inb W H"
      unfolding n_def by (simp add: open_move_inb)
    with True have "Suc (card (inb W H - insert n visited)) = card (inb W H - visited)"
      by (intro card_inb_insert) simp_all
    with Cons.IH [OF run] show ?thesis by simp
  next
    case False
    with Cons.prems ok
    have run: "bfsExplore_push maze W H c ds (queue, visited) = Inr (queue', visited')"
      by (auto simp: n_def)
    from Cons.IH [OF run] show ?thesis .
  qed
qed

function bfsExplore_loop :: "maze \<Rightarrow> int \<Rightarrow> int \<Rightarrow> coord \<Rightarrow> coord list \<Rightarrow> coord set
    \<Rightarrow> coord list \<Rightarrow> error + coord list" where
  "bfsExplore_loop maze W H goal [] visited expl = Inr (tl expl)"
| "bfsExplore_loop maze W H goal (c # queue) visited expl =
     (if c = goal then Inr (tl (expl @ [c]))
      else (case bfsExplore_push maze W H c directions (queue, visited) of
              Inl e \<Rightarrow> Inl e
            | Inr st \<Rightarrow> bfsExplore_loop maze W H goal (fst st) (snd st) (expl @ [c])))"
  by pat_completeness auto

termination bfsExplore_loop
proof (relation "measure (\<lambda>(maze, W, H, goal, queue, visited, expl).
          length queue + card (inb W H - visited))", goal_cases)
  case 1
  show ?case by simp
next
  case (2 maze W H goal c queue visited expl st)
  obtain queue' visited' where st: "st = (queue', visited')" by (cases st)
  from 2(2) have "length queue' + card (inb W H - visited')
      = length queue + card (inb W H - visited)"
    unfolding st by (rule bfsExplore_push_measure)
  then have "length (fst st) + card (inb W H - snd st)
      < length (c # queue) + card (inb W H - visited)"
    by (simp add: st)
  then show ?case unfolding in_measure prod.case .
qed

definition bfsExplore :: "int \<Rightarrow> int \<Rightarrow> int \<Rightarrow> int \<Rightarrow> maze \<Rightarrow> error + coord list" where
  "bfsExplore startX startY endX endY maze =
     (case maze of
        [] \<Rightarrow> Inl TypeError
      | row0 # _ \<Rightarrow>
          bfsExplore_loop maze (int (length row0)) (int (length maze)) (endX, endY)
            [(startX, startY)] {(startX, startY)} [])"

section \<open>A* search\<close>

definition heuristic :: "int \<Rightarrow> int \<Rightarrow> int \<Rightarrow> int \<Rightarrow> int" where
  "heuristic x y endX endY = \<bar>x - endX\<bar> + \<bar>y - endY\<bar>"

text \<open>
  \<open>gScore.get(k) ?? Infinity\<close>. The costs stored by \<open>astar\<close> are sums of such values and 1,
  so they live in the naturals extended by infinity.
\<close>

definition gGet :: "(coord \<rightharpoonup> enat) \<Rightarrow> coord \<Rightarrow> enat" where
  "gGet gScore k = (case gScore k of None \<Rightarrow> \<infinity> | Some v \<Rightarrow> v)"

definition fScore :: "(coord \<rightharpoonup> enat) \<Rightarrow> coord \<Rightarrow> SearchNode \<Rightarrow> enat" where
  "fScore gScore goal node =
     gGet gScore (fst node)
       + enat (nat (heuristic (fst (fst node)) (snd (fst node)) (fst goal) (snd goal)))"

text \<open>
  \<open>openSet[existingNodeIndex].path = ...\<close> with the index \<open>findIndex\<close> returns: the first
  entry at that coordinate.
\<close>

fun set_first :: "('k \<times> 'v) list \<Rightarrow> 'k \<Rightarrow> 'v \<Rightarrow> ('k \<times> 'v) list" where
  "set_first [] k v = []"
| "set_first (e # es) k v = (if fst e = k then (k, v) # es else e # set_first es k v)"

fun astar_neighbors :: "maze \<Rightarrow> int \<Rightarrow> int \<Rightarrow> SearchNode \<Rightarrow> coord set \<Rightarrow> direction list
    \<Rightarrow> SearchNode list \<times> (coord \<rightharpoonup> enat)
    \<Rightarrow> error + (SearchNode list \<times> (coord \<rightharpoonup> enat))" where
  "astar_neighbors maze W H node closedSet [] st = Inr st"
| "astar_neighbors maze W H node closedSet (d # ds) (openSet, gScore) =
     (case open_move maze W H (fst (fst node)) (snd (fst node)) d of
        Inl e \<Rightarrow> Inl e
      | Inr ok \<Rightarrow>
          (let n = target (fst (fst node)) (snd (fst node)) d;
               tentativeGScore = gGet gScore (fst node) + 1
           in if \<not> ok \<or> n \<in> closedSet
              then astar_neighbors maze W H node closedSet ds (openSet, gScore)
              else if find (\<lambda>e. fst e = n) openSet = None
              then astar_neighbors maze W H node closedSet ds
                     (openSet @ [(n, snd node @ [n])], gScore(n \<mapsto> tentativeGScore))
              else if tentativeGScore < gGet gScore n
              then astar_neighbors maze W H node closedSet ds
                     (set_first openSet n (snd node @ [n]), gScore(n \<mapsto> tentativeGScore))
              else astar_neighbors maze W H node closedSet ds (openSet, gScore)))"

declare astar_neighbors.simps [simp del]

lemma map_fst_set_first:
  "k \<in> fst ` set es \<Longrightarrow> map fst (set_first es k v) = map fst es"
  by (induction es) auto

lemma find_None_coords: "find (\<lambda>e. fst e = n) es = None \<longleftrightarrow> n \<notin> fst ` set es"
  by (induction es) auto

lemma astar_neighbors_measure:
  "astar_neighbors maze W H node closedSet ds (openSet, gScore) = Inr (openSet', gScore') \<Longrightarrow>
   length openSet' + card (inb W H - (closedSet \<union> fst ` set openSet'))
   = length openSet + card (inb W H - (closedSet \<union> fst ` set openSet))"
proof (induction ds arbitrary: openSet gScore)
  case Nil
  then show ?case by (simp add: astar_neighbors.simps)
next
  case (Cons d ds)
  from Cons.prems obtain ok where
    ok: "open_move maze W H (fst (fst node)) (snd (fst node)) d = Inr ok"
    by (cases "open_move maze W H (fst (fst node)) (snd (fst node)) d")
       (simp_all add: astar_neighbors.simps)
  define n where "n = target (fst (fst node)) (snd (fst node)) d"
  define t where "t = gGet gScore (fst node) + 1"
  note step = Cons.prems [unfolded astar_neighbors.simps ok sum.case Let_def,
      folded n_def t_def]
  consider (skip) "\<not> ok \<or> n \<in> closedSet"
    | (new) "ok" "n \<notin> closedSet" "n \<notin> fst ` set openSet"
    | (better) "ok" "n \<notin> closedSet" "n \<in> fst ` set openSet" "t < gGet gScore n"
    | (worse) "ok" "n \<notin> closedSet" "n \<in> fst ` set openSet" "\<not> t < gGet gScore n"
    by blast
  then show ?case
  proof cases
    case skip
    with step
    have "astar_neighbors maze W H node closedSet ds (openSet, gScore) = Inr (openSet', gScore')"
      by (simp split: if_splits)
    from Cons.IH [OF this] show ?thesis .
  next
    case new
    with step
    have run: "astar_neighbors maze W H node closedSet ds
        (openSet @ [(n, snd node @ [n])], gScore(n \<mapsto> t)) = Inr (openSet', gScore')"
      by (simp add: find_None_coords)
    from new ok have "n \<in> inb W H"
      unfolding n_def by (simp add: open_move_inb)
    with new have "Suc (card (inb W H - insert n (closedSet \<union> fst ` set openSet)))
        = card (inb W H - (closedSet \<union> fst ` set openSet))"
      by (intro card_inb_insert) simp_all
    with Cons.IH [OF run] show ?thesis by simp
  next
    case better
    with step
    have run: "astar_neighbors maze W H node closedSet ds
        (set_first openSet n (snd node @ [n]), gScore(n \<mapsto> t)) = Inr (openSet', gScore')"
      by (simp add: find_None_coords)
    have "map fst (set_first openSet n (snd node @ [n])) = map fst openSet"
      using better by (simp add: map_fst_set_first)
    then have "fst ` set (set_first openSet n (snd node @ [n])) = fst ` set openSet"
      and "length (set_first openSet n (snd node @ [n])) = length openSet"
      by (metis set_map, metis length_map)
    with Cons.IH [OF run] show ?thesis by simp
  next
    case worse
    with step
    have "astar_neighbors maze W H node closedSet ds (openSet, gScore) = Inr (openSet', gScore')"
      by (simp add: find_None_coords)
    from Cons.IH [OF this] show ?thesis .
  qed
qed

text \<open>
  The main loop of \<open>astar\<close>. \<open>Array.prototype.sort\<close> is stable, and the comparator
  \<open>fScore(a) - fScore(b)\<close> orders by \<open>fScore\<close> (two infinite scores compare equal), which is
  what \<open>sort_key\<close> computes; \<open>shift\<close> then takes the head.
\<close>

function astar_loop :: "maze \<Rightarrow> int \<Rightarrow> int \<Rightarrow> coord \<Rightarrow> SearchNode list \<Rightarrow> coord set
    \<Rightarrow> (coord \<rightharpoonup> enat) \<Rightarrow> error + coord list" where
  "astar_loop maze W H goal openSet closedSet gScore =
     (if openSet = [] then Inr []
      else (let sorted = sort_key (fScore gScore goal) openSet;
                current = hd sorted;
                rest = tl sorted
            in if fst current = goal then Inr (tl (snd current))
               else (case astar_neighbors maze W H current (insert (fst current) closedSet)
                            directions (rest, gScore) of
                       Inl e \<Rightarrow> Inl e
                     | Inr st \<Rightarrow>
                         astar_loop maze W H goal (fst st) (insert (fst current) closedSet)
                           (snd st))))"
  by pat_completeness auto

lemma pop_sorted_coords:
  assumes "xs \<noteq> []"
  shows "insert (fst (hd (sort_key f xs))) (fst ` set (tl (sort_key f xs))) = fst ` set xs"
    and "Suc (length (tl (sort_key f xs))) = length xs"
proof -
  define ys where "ys = sort_key f xs"
  have len: "length ys = length xs" by (simp add: ys_def)
  have st: "set xs = set ys" by (simp add: ys_def)
  from assms len obtain a as where ys: "ys = a # as" by (cases ys) auto
  show "insert (fst (hd (sort_key f xs))) (fst ` set (tl (sort_key f xs))) = fst ` set xs"
    unfolding ys_def [symmetric] st by (simp add: ys)
  show "Suc (length (tl (sort_key f xs))) = length xs"
    unfolding ys_def [symmetric] len [symmetric] by (simp add: ys)
qed

termination astar_loop
proof (relation "measure (\<lambda>(maze, W, H, goal, openSet, closedSet, gScore).
          length openSet + card (inb W H - (closedSet \<union> fst ` set openSet)))", goal_cases)
  case 1
  show ?case by simp
next
  case (2 maze W H goal openSet closedSet gScore sorted cur rest st)
  obtain openSet' gScore' where st: "st = (openSet', gScore')" by (cases st)
  from 2(6) have "length openSet' + card (inb W H - (insert (fst cur) closedSet \<union> fst ` set openSet'))
      = length rest + card (inb W H - (insert (fst cur) closedSet \<union> fst ` set rest))"
    unfolding st by (rule astar_neighbors_measure)
  moreover have "insert (fst cur) closedSet \<union> fst ` set rest = closedSet \<union> fst ` set openSet"
    using pop_sorted_coords(1) [OF 2(1), of "fScore gScore goal"]
    unfolding 2(2-4) by blast
  moreover have "Suc (length rest) = length openSet"
    unfolding 2(2-4) by (rule pop_sorted_coords(2) [OF 2(1)])
  ultimately have "length (fst st) + card (inb W H - (insert (fst cur) closedSet \<union> fst ` set (fst st)))
      < length openSet + card (inb W H - (closedSet \<union> fst ` set openSet))"
    by (simp add: st)
  then show ?case unfolding in_measure prod.case .
qed

declare astar_loop.simps [simp del]

definition astar :: "int \<Rightarrow> int \<Rightarrow> int \<Rightarrow> int \<Rightarrow> maze \<Rightarrow> error + coord list" where
  "astar startX startY endX endY maze =
     (case maze of
        [] \<Rightarrow> Inl TypeError
      | row0 # _ \<Rightarrow>
          astar_loop maze (int (length row0)) (int (length maze)) (endX, endY)
            [((startX, startY), [(startX, startY)])] {} [(startX, startY) \<mapsto> 0])"

section \<open>A* search, exploration variant\<close>

text \<open>
  \<open>interface AStarExploreSearchNode {x, y, g}\<close> is the pair of the coordinate and \<open>g\<close>. Here
  every stored cost is \<open>current.g + 1\<close> for a finite \<open>current.g\<close>, so the costs are naturals
  and \<open>tentativeG < (gScore.get(nkey) ?? Infinity)\<close> is a case distinction on the lookup.
\<close>

type_synonym AStarExploreSearchNode = "coord \<times> nat"

record AStarExploreResult =
  explored :: "coord list"
  path :: "coord list"

fun astarExplore_neighbors :: "maze \<Rightarrow> int \<Rightarrow> int \<Rightarrow> AStarExploreSearchNode \<Rightarrow> coord set
    \<Rightarrow> direction list
    \<Rightarrow> AStarExploreSearchNode list \<times> (coord \<rightharpoonup> nat) \<times> (coord \<rightharpoonup> coord)
    \<Rightarrow> error + (AStarExploreSearchNode list \<times> (coord \<rightharpoonup> nat) \<times> (coord \<rightharpoonup> coord))" where
  "astarExplore_neighbors maze W H current inClosed [] st = Inr st"
| "astarExplore_neighbors maze W H current inClosed (d # ds) (openSet, gScore, cameFrom) =
     (case open_move maze W H (fst (fst current)) (snd (fst current)) d of
        Inl e \<Rightarrow> Inl e
      | Inr ok \<Rightarrow>
          (let n = target (fst (fst current)) (snd (fst current)) d;
               tentativeG = snd current + 1
           in if \<not> ok \<or> n \<in> inClosed
              then astarExplore_neighbors maze W H current inClosed ds (openSet, gScore, cameFrom)
              else if (case gScore n of None \<Rightarrow> True | Some v \<Rightarrow> tentativeG < v)
              then (if find (\<lambda>e. fst e = n) openSet = None
                    then astarExplore_neighbors maze W H current inClosed ds
                           (openSet @ [(n, tentativeG)], gScore(n \<mapsto> tentativeG),
                            cameFrom(n \<mapsto> fst current))
                    else astarExplore_neighbors maze W H current inClosed ds
                           (set_first openSet n tentativeG, gScore(n \<mapsto> tentativeG),
                            cameFrom(n \<mapsto> fst current)))
              else astarExplore_neighbors maze W H current inClosed ds
                     (openSet, gScore, cameFrom)))"

declare astarExplore_neighbors.simps [simp del]

lemma astarExplore_neighbors_measure:
  "astarExplore_neighbors maze W H current inClosed ds (openSet, gScore, cameFrom)
     = Inr (openSet', gScore', cameFrom') \<Longrightarrow>
   length openSet' + card (inb W H - (inClosed \<union> fst ` set openSet'))
   = length openSet + card (inb W H - (inClosed \<union> fst ` set openSet))"
proof (induction ds arbitrary: openSet gScore cameFrom)
  case Nil
  then show ?case by (simp add: astarExplore_neighbors.simps)
next
  case (Cons d ds)
  from Cons.prems obtain ok where
    ok: "open_move maze W H (fst (fst current)) (snd (fst current)) d = Inr ok"
    by (cases "open_move maze W H (fst (fst current)) (snd (fst current)) d")
       (simp_all add: astarExplore_neighbors.simps)
  define n where "n = target (fst (fst current)) (snd (fst current)) d"
  define t where "t = snd current + 1"
  define better where "better = (case gScore n of None \<Rightarrow> True | Some v \<Rightarrow> t < v)"
  note step = Cons.prems [unfolded astarExplore_neighbors.simps ok sum.case Let_def,
      folded n_def t_def, folded better_def]
  consider (skip) "\<not> ok \<or> n \<in> inClosed \<or> \<not> better"
    | (new) "ok" "n \<notin> inClosed" "better" "n \<notin> fst ` set openSet"
    | (update) "ok" "n \<notin> inClosed" "better" "n \<in> fst ` set openSet"
    by blast
  then show ?case
  proof cases
    case skip
    with step
    have "astarExplore_neighbors maze W H current inClosed ds (openSet, gScore, cameFrom)
        = Inr (openSet', gScore', cameFrom')"
      by (simp split: if_splits)
    from Cons.IH [OF this] show ?thesis .
  next
    case new
    with step
    have run: "astarExplore_neighbors maze W H current inClosed ds
        (openSet @ [(n, t)], gScore(n \<mapsto> t), cameFrom(n \<mapsto> fst current))
        = Inr (openSet', gScore', cameFrom')"
      by (simp add: find_None_coords)
    from new ok have "n \<in> inb W H"
      unfolding n_def by (simp add: open_move_inb)
    with new have "Suc (card (inb W H - insert n (inClosed \<union> fst ` set openSet)))
        = card (inb W H - (inClosed \<union> fst ` set openSet))"
      by (intro card_inb_insert) simp_all
    with Cons.IH [OF run] show ?thesis by simp
  next
    case update
    with step
    have run: "astarExplore_neighbors maze W H current inClosed ds
        (set_first openSet n t, gScore(n \<mapsto> t), cameFrom(n \<mapsto> fst current))
        = Inr (openSet', gScore', cameFrom')"
      by (simp add: find_None_coords)
    have "map fst (set_first openSet n t) = map fst openSet"
      using update by (simp add: map_fst_set_first)
    then have "fst ` set (set_first openSet n t) = fst ` set openSet"
      and "length (set_first openSet n t) = length openSet"
      by (metis set_map, metis length_map)
    with Cons.IH [OF run] show ?thesis by simp
  qed
qed

definition fExplore :: "coord \<Rightarrow> AStarExploreSearchNode \<Rightarrow> int" where
  "fExplore goal n = int (snd n) + heuristic (fst (fst n)) (snd (fst n)) (fst goal) (snd goal)"

text \<open>
  The main loop of \<open>astarExplore\<close>; \<open>break\<close> and the exhausted open set both leave the loop
  with the exploration order, the costs and the predecessor map.
\<close>

function astarExplore_loop :: "maze \<Rightarrow> int \<Rightarrow> int \<Rightarrow> coord \<Rightarrow> coord
    \<Rightarrow> AStarExploreSearchNode list \<Rightarrow> coord set \<Rightarrow> coord list
    \<Rightarrow> (coord \<rightharpoonup> nat) \<Rightarrow> (coord \<rightharpoonup> coord)
    \<Rightarrow> error + (coord list \<times> (coord \<rightharpoonup> nat) \<times> (coord \<rightharpoonup> coord))" where
  "astarExplore_loop maze W H start goal openSet inClosed expl gScore cameFrom =
     (if openSet = [] then Inr (expl, gScore, cameFrom)
      else (let sorted = sort_key (fExplore goal) openSet;
                current = hd sorted;
                rest = tl sorted
            in if fst current \<in> inClosed
               then astarExplore_loop maze W H start goal rest inClosed expl gScore cameFrom
               else (let expl' = (if fst current \<noteq> start then expl @ [fst current] else expl)
                     in if fst current = goal then Inr (expl', gScore, cameFrom)
                        else (case astarExplore_neighbors maze W H current
                                     (insert (fst current) inClosed) directions
                                     (rest, gScore, cameFrom) of
                                Inl e \<Rightarrow> Inl e
                              | Inr st \<Rightarrow>
                                  astarExplore_loop maze W H start goal (fst st)
                                    (insert (fst current) inClosed) expl'
                                    (fst (snd st)) (snd (snd st))))))"
  by pat_completeness auto

termination astarExplore_loop
proof (relation "measure (\<lambda>(maze, W, H, start, goal, openSet, inClosed, expl, gScore, cameFrom).
          length openSet + card (inb W H - (inClosed \<union> fst ` set openSet)))", goal_cases)
  case 1
  show ?case by simp
next
  case (2 maze W H start goal openSet inClosed expl gScore cameFrom sorted cur rest)
  have un: "insert (fst cur) (fst ` set rest) = fst ` set openSet"
    unfolding 2(2-4) by (rule pop_sorted_coords(1) [OF 2(1)])
  have len: "Suc (length rest) = length openSet"
    unfolding 2(2-4) by (rule pop_sorted_coords(2) [OF 2(1)])
  have "inClosed \<union> fst ` set openSet = inClosed \<union> insert (fst cur) (fst ` set rest)"
    by (simp only: un)
  also have "\<dots> = inClosed \<union> fst ` set rest"
    using 2(5) by auto
  finally have "inClosed \<union> fst ` set rest = inClosed \<union> fst ` set openSet"
    by (rule sym)
  with len have "length rest + card (inb W H - (inClosed \<union> fst ` set rest))
      < length openSet + card (inb W H - (inClosed \<union> fst ` set openSet))"
    by simp
  then show ?case unfolding in_measure prod.case .
next
  case (3 maze W H start goal openSet inClosed expl gScore cameFrom sorted cur rest expl' st)
  obtain openSet' gScore' cameFrom' where st: "st = (openSet', gScore', cameFrom')"
    by (cases st)
  from 3(8) have "length openSet' + card (inb W H - (insert (fst cur) inClosed \<union> fst ` set openSet'))
      = length rest + card (inb W H - (insert (fst cur) inClosed \<union> fst ` set rest))"
    unfolding st by (rule astarExplore_neighbors_measure)
  moreover have "insert (fst cur) inClosed \<union> fst ` set rest = inClosed \<union> fst ` set openSet"
    using pop_sorted_coords(1) [OF 3(1), of "fExplore goal"]
    unfolding 3(2-4) by blast
  moreover have "Suc (length rest) = length openSet"
    unfolding 3(2-4) by (rule pop_sorted_coords(2) [OF 3(1)])
  ultimately have "length (fst st) + card (inb W H - (insert (fst cur) inClosed \<union> fst ` set (fst st)))
      < length openSet + card (inb W H - (inClosed \<union> fst ` set openSet))"
    by (simp add: st)
  then show ?case unfolding in_measure prod.case .
qed

declare astarExplore_loop.simps [simp del]

text \<open>
  The reconstruction loop \<open>while (curKey && curKey !== start)\<close>. It follows \<open>cameFrom\<close> and
  would not return on a cyclic map, so it is a partial function; \<open>None\<close> as the current key is
  \<open>undefined\<close>, the result of \<open>cameFrom.get\<close> on a missing key.
\<close>

partial_function (option) reconstruct :: "(coord \<rightharpoonup> coord) \<Rightarrow> coord \<Rightarrow> coord option
    \<Rightarrow> coord list \<Rightarrow> coord list option" where
  "reconstruct cameFrom start curKey optimalPath =
     (case curKey of
        None \<Rightarrow> Some optimalPath
      | Some k \<Rightarrow>
          if k = start then Some optimalPath
          else reconstruct cameFrom start (cameFrom k) (optimalPath @ [k]))"

declare reconstruct.simps [code]

text \<open>\<open>astarExplore\<close>: \<open>None\<close> is a call that does not return.\<close>

definition astarExplore :: "int \<Rightarrow> int \<Rightarrow> int \<Rightarrow> int \<Rightarrow> maze
    \<Rightarrow> (error + AStarExploreResult) option" where
  "astarExplore startX startY endX endY maze =
     (case maze of
        [] \<Rightarrow> Some (Inl TypeError)
      | row0 # _ \<Rightarrow>
          (case astarExplore_loop maze (int (length row0)) (int (length maze))
                  (startX, startY) (endX, endY) [((startX, startY), 0)] {} []
                  [(startX, startY) \<mapsto> 0] Map.empty of
             Inl e \<Rightarrow> Some (Inl e)
           | Inr res \<Rightarrow>
               (case (if fst (snd res) (endX, endY) \<noteq> None
                      then reconstruct (snd (snd res)) (startX, startY) (Some (endX, endY)) []
                      else Some []) of
                  None \<Rightarrow> None
                | Some optimalPath \<Rightarrow>
                    Some (Inr \<lparr>explored = fst res, path = rev optimalPath\<rparr>))))"

section \<open>The dispatcher\<close>

text \<open>
  \<open>findPath\<close>. A value of type \<open>MazeCell[][]\<close> is an array whose rows are arrays, and arrays
  are truthy, so of the guard \<open>!maze || maze.length === 0 || !maze[0]\<close> only the middle test
  can hold. The result is \<open>None\<close> when the call does not return, \<open>Some (Inl e)\<close> when it throws.
\<close>

definition findPath :: "int \<Rightarrow> int \<Rightarrow> int \<Rightarrow> int \<Rightarrow> SearchMethod \<Rightarrow> maze
    \<Rightarrow> (error + coord list) option" where
  "findPath startX startY endX endY method maze =
     (if maze = [] then Some (Inr [])
      else (case method of
              DFS \<Rightarrow> Some (dfs startX startY endX endY maze)
            | BFS \<Rightarrow> Some (bfs startX startY endX endY maze)
            | ASTAR \<Rightarrow> Some (astar startX startY endX endY maze)
            | DFS_EXPLORE \<Rightarrow> Some (dfsExplore startX startY endX endY maze)
            | BFS_EXPLORE \<Rightarrow> Some (bfsExplore startX startY endX endY maze)
            | ASTAR_EXPLORE \<Rightarrow>
                (case astarExplore startX startY endX endY maze of
                   None \<Rightarrow> None
                 | Some (Inl e) \<Rightarrow> Some (Inl e)
                 | Some (Inr aStarResult) \<Rightarrow> Some (Inr (explored aStarResult)))))"

section \<open>Searches that end at their first node\<close>

lemma astar_loop_at_goal:
  "astar_loop maze W H goal [(goal, p)] closedSet gScore = Inr (tl p)"
  by (subst astar_loop.simps) simp

lemma astarExplore_loop_at_start_goal:
  "astarExplore_loop maze W H start start [(start, g)] {} [] gScore cameFrom
     = Inr ([], gScore, cameFrom)"
  by (subst astarExplore_loop.simps) simp

lemma reconstruct_at_start: "reconstruct cameFrom start (Some start) acc = Some acc"
  by (subst reconstruct.simps) simp

lemma open_move_zero_width: "open_move maze 0 H x y d = Inr False"
  by (cases d) (auto simp: open_move_def)

lemma dfs_push_zero_width: "dfs_push maze 0 H node visited ds stack = Inr stack"
  by (induction ds) (simp_all add: open_move_zero_width)

lemma dfsExplore_push_zero_width: "dfsExplore_push maze 0 H c visited ds stack = Inr stack"
  by (induction ds) (simp_all add: open_move_zero_width)

lemma bfs_push_zero_width: "bfs_push maze 0 H node ds st = Inr st"
  by (induction ds; cases st) (simp_all add: open_move_zero_width)

lemma bfsExplore_push_zero_width: "bfsExplore_push maze 0 H c ds st = Inr st"
  by (induction ds; cases st) (simp_all add: open_move_zero_width)

lemma astar_neighbors_zero_width: "astar_neighbors maze 0 H node closedSet ds st = Inr st"
  by (induction ds; cases st) (simp_all add: astar_neighbors.simps open_move_zero_width)

lemma astarExplore_neighbors_zero_width:
  "astarExplore_neighbors maze 0 H current inClosed ds st = Inr st"
  by (induction ds; cases st)
     (simp_all add: astarExplore_neighbors.simps open_move_zero_width)

lemma astar_loop_Nil: "astar_loop maze W H goal [] closedSet gScore = Inr []"
  by (subst astar_loop.simps) simp

lemma astar_loop_zero_width:
  "astar_loop maze 0 H goal [(c, p)] {} gScore = Inr (if c = goal then tl p else [])"
  by (subst astar_loop.simps) (simp add: Let_def astar_neighbors_zero_width astar_loop_Nil)

lemma astarExplore_loop_Nil:
  "astarExplore_loop maze W H start goal [] inClosed expl gScore cameFrom
     = Inr (expl, gScore, cameFrom)"
  by (subst astarExplore_loop.simps) simp

lemma astarExplore_loop_zero_width:
  "astarExplore_loop maze 0 H start goal [(start, g)] {} [] gScore cameFrom
     = Inr ([], gScore, cameFrom)"
  by (subst astarExplore_loop.simps)
     (simp add: Let_def astarExplore_neighbors_zero_width astarExplore_loop_Nil)

section \<open>Vocabulary of the properties\<close>

text \<open>
  A legal move from \<open>a\<close> to \<open>b\<close>: \<open>b\<close> is one unit step from \<open>a\<close> along one axis, \<open>b\<close> lies
  inside the grid, and the wall flag of the cell being left, \<open>a\<close>, is false for the direction
  of the step.
\<close>

definition legal_move :: "maze \<Rightarrow> int \<Rightarrow> int \<Rightarrow> coord \<Rightarrow> coord \<Rightarrow> bool" where
  "legal_move maze W H a b \<longleftrightarrow>
     b \<in> inb W H \<and>
     (case cell_at maze (fst a) (snd a) of
        None \<Rightarrow> False
      | Some cell \<Rightarrow>
          b = (fst a, snd a - 1) \<and> \<not> north cell \<or>
          b = (fst a + 1, snd a) \<and> \<not> east cell \<or>
          b = (fst a, snd a + 1) \<and> \<not> south cell \<or>
          b = (fst a - 1, snd a) \<and> \<not> west cell)"

text \<open>
  \<open>route maze W H a p b\<close>: the coordinates \<open>p\<close>, prefixed with \<open>a\<close>, form a chain of legal moves
  that ends at \<open>b\<close>. Its number of moves is \<open>length p\<close>.
\<close>

definition route :: "maze \<Rightarrow> int \<Rightarrow> int \<Rightarrow> coord \<Rightarrow> coord list \<Rightarrow> coord \<Rightarrow> bool" where
  "route maze W H a p b \<longleftrightarrow> successively (legal_move maze W H) (a # p) \<and> last (a # p) = b"

definition reachable :: "maze \<Rightarrow> int \<Rightarrow> int \<Rightarrow> coord \<Rightarrow> coord \<Rightarrow> bool" where
  "reachable maze W H a b \<longleftrightarrow> (\<exists>p. route maze W H a p b)"

text \<open>The grid invariant of the data model: every row has the width of the first row.\<close>

definition maze_width :: "maze \<Rightarrow> int" where
  "maze_width maze = int (length (hd maze))"

definition maze_height :: "maze \<Rightarrow> int" where
  "maze_height maze = int (length maze)"

definition rectangular :: "maze \<Rightarrow> bool" where
  "rectangular maze \<longleftrightarrow> (\<forall>row \<in> set maze. length row = length (hd maze))"

definition in_grid :: "maze \<Rightarrow> coord \<Rightarrow> bool" where
  "in_grid maze c \<longleftrightarrow> c \<in> inb (maze_width maze) (maze_height maze)"

text \<open>
  The shape of a frontier entry of the path-mode searches: its path starts at the start, ends
  at the entry's coordinate, is a chain of legal moves without repetition, and all of it but
  the last coordinate lies in \<open>S\<close> (the visited or closed set).
\<close>

definition good_path :: "maze \<Rightarrow> int \<Rightarrow> int \<Rightarrow> coord \<Rightarrow> coord set \<Rightarrow> SearchNode \<Rightarrow> bool" where
  "good_path maze W H start S node \<longleftrightarrow>
     (\<exists>p. snd node = start # p \<and> route maze W H start p (fst node) \<and> distinct (start # p)
          \<and> set (butlast (start # p)) \<subseteq> S \<and> set p \<subseteq> inb W H)"

section \<open>Moves\<close>

lemma open_move_legal:
  assumes "d \<in> set directions" and "open_move maze W H x y d = Inr True"
  shows "legal_move maze W H (x, y) (target x y d)"
  using assms unfolding directions_def open_move_def legal_move_def target_def inb_def
  by (auto split: if_splits option.splits)

lemma legal_move_open:
  assumes "legal_move maze W H (x, y) b"
  shows "\<exists>d \<in> set directions. target x y d = b \<and> open_move maze W H x y d = Inr True"
proof -
  from assms obtain cell where cell: "cell_at maze x y = Some cell"
    and b: "b \<in> inb W H"
    and ds: "b = (x, y - 1) \<and> \<not> north cell \<or> b = (x + 1, y) \<and> \<not> east cell \<or>
             b = (x, y + 1) \<and> \<not> south cell \<or> b = (x - 1, y) \<and> \<not> west cell"
    unfolding legal_move_def by (auto split: option.splits)
  from ds consider (n) "b = (x, y - 1)" "\<not> north cell" | (e) "b = (x + 1, y)" "\<not> east cell"
    | (s) "b = (x, y + 1)" "\<not> south cell" | (w) "b = (x - 1, y)" "\<not> west cell"
    by blast
  then show ?thesis
  proof cases
    case n
    with b cell have "target x y (0, -1, north) = b \<and> open_move maze W H x y (0, -1, north) = Inr True"
      by (simp add: target_def open_move_def inb_def)
    moreover have "(0, -1, north) \<in> set directions" by (simp add: directions_def)
    ultimately show ?thesis by blast
  next
    case e
    with b cell have "target x y (1, 0, east) = b \<and> open_move maze W H x y (1, 0, east) = Inr True"
      by (simp add: target_def open_move_def inb_def)
    moreover have "(1, 0, east) \<in> set directions" by (simp add: directions_def)
    ultimately show ?thesis by blast
  next
    case s
    with b cell have "target x y (0, 1, south) = b \<and> open_move maze W H x y (0, 1, south) = Inr True"
      by (simp add: target_def open_move_def inb_def)
    moreover have "(0, 1, south) \<in> set directions" by (simp add: directions_def)
    ultimately show ?thesis by blast
  next
    case w
    with b cell have "target x y (-1, 0, west) = b \<and> open_move maze W H x y (-1, 0, west) = Inr True"
      by (simp add: target_def open_move_def inb_def)
    moreover have "(-1, 0, west) \<in> set directions" by (simp add: directions_def)
    ultimately show ?thesis by blast
  qed
qed

lemma open_move_no_error:
  assumes "cell_at maze x y \<noteq> None"
  shows "\<exists>ok. open_move maze W H x y d = Inr ok"
  using assms unfolding open_move_def by (cases d) (auto split: option.splits)

lemma route_Nil: "route maze W H a [] b \<longleftrightarrow> a = b"
  by (auto simp: route_def)

lemma route_snoc:
  assumes "route maze W H a p b" and "legal_move maze W H b c"
  shows "route maze W H a (p @ [c]) c"
proof -
  from assms have "successively (legal_move maze W H) ((a # p) @ [c])"
    unfolding route_def by (subst successively_append_iff) simp
  then show ?thesis by (simp add: route_def)
qed

lemma good_path_mono:
  "good_path maze W H start S node \<Longrightarrow> S \<subseteq> S' \<Longrightarrow> good_path maze W H start S' node"
  unfolding good_path_def by blast

lemma good_path_start: "good_path maze W H start S (start, [start])"
  unfolding good_path_def by (simp add: route_Nil)

lemma good_path_extend:
  assumes g: "good_path maze W H start S node"
    and cur: "fst node \<in> S"
    and mv: "legal_move maze W H (fst node) n"
    and new: "n \<notin> S"
  shows "good_path maze W H start S (n, snd node @ [n])"
proof -
  from g obtain p where p: "snd node = start # p"
    and r: "route maze W H start p (fst node)"
    and d: "distinct (start # p)"
    and b: "set (butlast (start # p)) \<subseteq> S"
    and i: "set p \<subseteq> inb W H"
    unfolding good_path_def by blast
  from r have l: "last (start # p) = fst node" by (simp add: route_def)
  have "set (start # p) = insert (last (start # p)) (set (butlast (start # p)))"
    by (metis append_butlast_last_id list.distinct(1) list.simps(15) rotate1.simps(2) set_rotate1)
  with b cur l have all: "set (start # p) \<subseteq> S" by auto
  with new have nn: "n \<notin> set (start # p)" by blast
  from mv have nin: "n \<in> inb W H" by (simp add: legal_move_def)
  have "snd (n, snd node @ [n]) = start # (p @ [n])" by (simp add: p)
  moreover have "route maze W H start (p @ [n]) (fst (n, snd node @ [n]))"
    using route_snoc [OF r mv] by simp
  moreover have "distinct (start # (p @ [n]))" using d nn by auto
  moreover have "set (butlast (start # (p @ [n]))) \<subseteq> S"
    using all by (simp add: butlast_append)
  moreover have "set (p @ [n]) \<subseteq> inb W H" using i nin by simp
  ultimately show ?thesis unfolding good_path_def by blast
qed

section \<open>Reading cells of a rectangular grid\<close>

lemma cell_at_inb:
  assumes "rectangular maze" and "c \<in> inb (maze_width maze) (maze_height maze)"
  shows "cell_at maze (fst c) (snd c) \<noteq> None"
proof -
  from assms(2) have x: "0 \<le> fst c" "fst c < int (length (hd maze))"
    and y: "0 \<le> snd c" "snd c < int (length maze)"
    by (auto simp: inb_def maze_width_def maze_height_def)
  from y have "maze ! nat (snd c) \<in> set maze" by simp
  with assms(1) have "length (maze ! nat (snd c)) = length (hd maze)"
    by (simp add: rectangular_def)
  with x y show ?thesis by (simp add: cell_at_def)
qed

section \<open>Paths of the depth-first search\<close>

lemma dfs_push_good:
  assumes "good_path maze W H start S node" and "fst node \<in> S"
    and "set ds \<subseteq> set directions"
    and "\<forall>e \<in> set stack. good_path maze W H start S e"
    and "dfs_push maze W H node S ds stack = Inr stack'"
  shows "\<forall>e \<in> set stack'. good_path maze W H start S e"
  using assms(3-5)
proof (induction ds arbitrary: stack)
  case Nil
  then show ?case by simp
next
  case (Cons d ds)
  from Cons.prems(3) obtain ok where
    ok: "open_move maze W H (fst (fst node)) (snd (fst node)) d = Inr ok"
    by (auto split: sum.splits)
  define n where "n = target (fst (fst node)) (snd (fst node)) d"
  define st where "st = (if ok \<and> n \<notin> S then (n, snd node @ [n]) # stack else stack)"
  from Cons.prems(3) ok have run: "dfs_push maze W H node S ds st = Inr stack'"
    by (auto simp: st_def n_def split: if_splits)
  have "\<forall>e \<in> set st. good_path maze W H start S e"
  proof (cases "ok \<and> n \<notin> S")
    case True
    with ok Cons.prems(1) have "legal_move maze W H (fst node) n"
      using open_move_legal [of d maze W H "fst (fst node)" "snd (fst node)"]
      by (simp add: n_def)
    with assms(1,2) True have "good_path maze W H start S (n, snd node @ [n])"
      by (intro good_path_extend) simp_all
    with Cons.prems(2) True show ?thesis by (simp add: st_def)
  next
    case False
    then have "st = stack" by (auto simp: st_def)
    with Cons.prems(2) show ?thesis by simp
  qed
  moreover from Cons.prems(1) have "set ds \<subseteq> set directions" by simp
  ultimately show ?case using run by (intro Cons.IH)
qed

text \<open>What a path-mode search may return: nothing, or a simple route to the goal.\<close>

definition path_result :: "maze \<Rightarrow> int \<Rightarrow> int \<Rightarrow> coord \<Rightarrow> coord \<Rightarrow> coord list \<Rightarrow> bool" where
  "path_result maze W H start goal r \<longleftrightarrow>
     r = [] \<or> route maze W H start r goal \<and> distinct (start # r) \<and> set r \<subseteq> inb W H"

lemma good_path_result:
  assumes "good_path maze W H start S (goal, p)"
  shows "path_result maze W H start goal (tl p)"
  using assms unfolding good_path_def path_result_def by auto

lemma dfs_loop_good:
  assumes "\<forall>e \<in> set stack. good_path maze W H start visited e"
    and "dfs_loop maze W H goal stack visited = Inr r"
  shows "path_result maze W H start goal r"
  using assms
proof (induction maze W H goal stack visited rule: dfs_loop.induct)
  case (1 maze W H goal visited)
  then show ?case by (simp add: path_result_def)
next
  case (2 maze W H goal node stack visited)
  note inv = "2.prems"(1) and res = "2.prems"(2)
  show ?case
  proof (cases "fst node \<in> visited")
    case True
    with res have "dfs_loop maze W H goal stack visited = Inr r" by simp
    moreover from inv have "\<forall>e \<in> set stack. good_path maze W H start visited e" by simp
    ultimately show ?thesis using "2.IH"(1) [OF True] by blast
  next
    case nv: False
    show ?thesis
    proof (cases "fst node = goal")
      case True
      with nv res have r: "r = tl (snd node)" by simp
      from inv True have "good_path maze W H start visited (goal, snd node)"
        by (cases node) auto
      then show ?thesis unfolding r by (rule good_path_result)
    next
      case ng: False
      from nv ng res obtain stack' where
        push: "dfs_push maze W H node (insert (fst node) visited) (rev directions) stack
               = Inr stack'"
        and run: "dfs_loop maze W H goal stack' (insert (fst node) visited) = Inr r"
        by (auto split: sum.splits)
      from inv have g: "\<forall>e \<in> set (node # stack).
          good_path maze W H start (insert (fst node) visited) e"
        by (auto intro: good_path_mono)
      have "\<forall>e \<in> set stack'. good_path maze W H start (insert (fst node) visited) e"
        by (rule dfs_push_good [OF _ _ _ _ push]) (use g in simp_all)
      from "2.IH"(2) [OF nv ng push this run] show ?thesis .
    qed
  qed
qed

lemma dfs_push_no_error:
  assumes "cell_at maze (fst (fst node)) (snd (fst node)) \<noteq> None"
  shows "\<exists>stack'. dfs_push maze W H node visited ds stack = Inr stack'"
proof (induction ds arbitrary: stack)
  case Nil
  show ?case by simp
next
  case (Cons d ds)
  from open_move_no_error [OF assms] obtain ok where
    "open_move maze W H (fst (fst node)) (snd (fst node)) d = Inr ok" by blast
  with Cons.IH show ?case by simp
qed

lemma dfs_loop_no_error:
  assumes "rectangular maze" and "W = maze_width maze" and "H = maze_height maze"
    and "fst ` set stack \<subseteq> inb W H"
  shows "\<exists>r. dfs_loop maze W H goal stack visited = Inr r"
  using assms
proof (induction maze W H goal stack visited rule: dfs_loop.induct)
  case (1 maze W H goal visited)
  show ?case by simp
next
  case (2 maze W H goal node stack visited)
  note rect = "2.prems"(1) and W = "2.prems"(2) and H = "2.prems"(3) and sub = "2.prems"(4)
  show ?case
  proof (cases "fst node \<in> visited")
    case True
    from sub have "fst ` set stack \<subseteq> inb W H" by simp
    from "2.IH"(1) [OF True rect W H this] True show ?thesis by simp
  next
    case nv: False
    show ?thesis
    proof (cases "fst node = goal")
      case True
      with nv show ?thesis by simp
    next
      case ng: False
      from sub have "fst node \<in> inb (maze_width maze) (maze_height maze)"
        by (simp add: W H)
      with rect have "cell_at maze (fst (fst node)) (snd (fst node)) \<noteq> None"
        by (rule cell_at_inb)
      from dfs_push_no_error [OF this] obtain stack' where
        push: "dfs_push maze W H node (insert (fst node) visited) (rev directions) stack
               = Inr stack'"
        by blast
      from dfs_push_coords [OF push] sub have "fst ` set stack' \<subseteq> inb W H" by auto
      from "2.IH"(2) [OF nv ng push rect W H this] nv ng push show ?thesis by simp
    qed
  qed
qed

lemma good_path_inb:
  assumes "good_path maze W H start S e" and "start \<in> inb W H"
  shows "fst e \<in> inb W H"
proof -
  from assms(1) obtain p where r: "route maze W H start p (fst e)" and i: "set p \<subseteq> inb W H"
    unfolding good_path_def by blast
  from r have "fst e = last (start # p)" by (simp add: route_def)
  then have "fst e \<in> set (start # p)" by (metis last_in_set list.distinct(1))
  with i assms(2) show ?thesis by auto
qed

section \<open>Paths of the breadth-first search\<close>

lemma bfs_push_good:
  assumes "set ds \<subseteq> set directions"
    and "good_path maze W H start visited node" and "fst node \<in> visited"
    and "\<forall>e \<in> set queue. good_path maze W H start visited e \<and> fst e \<in> visited"
    and "bfs_push maze W H node ds (queue, visited) = Inr (queue', visited')"
  shows "(\<forall>e \<in> set queue'. good_path maze W H start visited' e \<and> fst e \<in> visited')
         \<and> visited \<subseteq> visited'"
  using assms
proof (induction ds arbitrary: queue visited)
  case Nil
  then show ?case by simp
next
  case (Cons d ds)
  from Cons.prems(5) obtain ok where
    ok: "open_move maze W H (fst (fst node)) (snd (fst node)) d = Inr ok"
    by (auto split: sum.splits)
  define n where "n = target (fst (fst node)) (snd (fst node)) d"
  from Cons.prems(1) have ds: "set ds \<subseteq> set directions" and d: "d \<in> set directions"
    by simp_all
  show ?case
  proof (cases "ok \<and> n \<notin> visited")
    case True
    with Cons.prems(5) ok
    have run: "bfs_push maze W H node ds (queue @ [(n, snd node @ [n])], insert n visited)
               = Inr (queue', visited')"
      by (simp add: n_def)
    from True ok d have "legal_move maze W H (fst node) n"
      using open_move_legal [of d maze W H "fst (fst node)" "snd (fst node)"]
      by (simp add: n_def)
    with Cons.prems(2,3) True have "good_path maze W H start visited (n, snd node @ [n])"
      by (intro good_path_extend) simp_all
    with Cons.prems(4)
    have "\<forall>e \<in> set (queue @ [(n, snd node @ [n])]).
        good_path maze W H start (insert n visited) e \<and> fst e \<in> insert n visited"
      by (auto intro: good_path_mono)
    moreover from Cons.prems(2) have "good_path maze W H start (insert n visited) node"
      by (rule good_path_mono) auto
    moreover from Cons.prems(3) have "fst node \<in> insert n visited" by simp
    ultimately have "(\<forall>e \<in> set queue'. good_path maze W H start visited' e \<and> fst e \<in> visited')
         \<and> insert n visited \<subseteq> visited'"
      using ds run by (intro Cons.IH)
    then show ?thesis by auto
  next
    case False
    with Cons.prems(5) ok
    have run: "bfs_push maze W H node ds (queue, visited) = Inr (queue', visited')"
      by (auto simp: n_def)
    from ds Cons.prems(2-4) run show ?thesis by (rule Cons.IH)
  qed
qed

lemma bfs_push_no_error:
  assumes "cell_at maze (fst (fst node)) (snd (fst node)) \<noteq> None"
  shows "\<exists>st'. bfs_push maze W H node ds st = Inr st'"
proof (induction ds arbitrary: st)
  case Nil
  show ?case by simp
next
  case (Cons d ds)
  from open_move_no_error [OF assms] obtain ok where
    "open_move maze W H (fst (fst node)) (snd (fst node)) d = Inr ok" by blast
  with Cons.IH show ?case by (cases st) simp
qed

lemma bfs_loop_good:
  assumes "\<forall>e \<in> set queue. good_path maze W H start visited e \<and> fst e \<in> visited"
    and "bfs_loop maze W H goal queue visited = Inr r"
  shows "path_result maze W H start goal r"
  using assms
proof (induction maze W H goal queue visited rule: bfs_loop.induct)
  case (1 maze W H goal visited)
  then show ?case by (simp add: path_result_def)
next
  case (2 maze W H goal node queue visited)
  note inv = "2.prems"(1) and res = "2.prems"(2)
  show ?case
  proof (cases "fst node = goal")
    case True
    with res have r: "r = tl (snd node)" by simp
    from inv True have "good_path maze W H start visited (goal, snd node)"
      by (cases node) auto
    then show ?thesis unfolding r by (rule good_path_result)
  next
    case ng: False
    from ng res obtain st where
      push: "bfs_push maze W H node directions (queue, visited) = Inr st"
      and run: "bfs_loop maze W H goal (fst st) (snd st) = Inr r"
      by (auto split: sum.splits)
    from push have push': "bfs_push maze W H node directions (queue, visited)
        = Inr (fst st, snd st)" by simp
    have "(\<forall>e \<in> set (fst st). good_path maze W H start (snd st) e \<and> fst e \<in> snd st)
        \<and> visited \<subseteq> snd st"
      by (rule bfs_push_good [OF _ _ _ _ push']) (use inv in simp_all)
    then have "\<forall>e \<in> set (fst st). good_path maze W H start (snd st) e \<and> fst e \<in> snd st"
      by simp
    from "2.IH" [OF ng push this run] show ?thesis .
  qed
qed

lemma bfs_loop_no_error:
  assumes "rectangular maze" and "W = maze_width maze" and "H = maze_height maze"
    and "start \<in> inb W H"
    and "\<forall>e \<in> set queue. good_path maze W H start visited e \<and> fst e \<in> visited"
  shows "\<exists>r. bfs_loop maze W H goal queue visited = Inr r"
  using assms
proof (induction maze W H goal queue visited rule: bfs_loop.induct)
  case (1 maze W H goal visited)
  show ?case by simp
next
  case (2 maze W H goal node queue visited)
  note rect = "2.prems"(1) and W = "2.prems"(2) and H = "2.prems"(3)
    and st = "2.prems"(4) and inv = "2.prems"(5)
  show ?case
  proof (cases "fst node = goal")
    case True
    then show ?thesis by simp
  next
    case ng: False
    from inv have "good_path maze W H start visited node" by simp
    from good_path_inb [OF this st]
    have "fst node \<in> inb (maze_width maze) (maze_height maze)" by (simp add: W H)
    with rect have "cell_at maze (fst (fst node)) (snd (fst node)) \<noteq> None"
      by (rule cell_at_inb)
    from bfs_push_no_error [OF this] obtain st' where
      push: "bfs_push maze W H node directions (queue, visited) = Inr st'"
      by blast
    then have push': "bfs_push maze W H node directions (queue, visited)
        = Inr (fst st', snd st')" by simp
    have "(\<forall>e \<in> set (fst st'). good_path maze W H start (snd st') e \<and> fst e \<in> snd st')
        \<and> visited \<subseteq> snd st'"
      by (rule bfs_push_good [OF _ _ _ _ push']) (use inv in simp_all)
    then have "\<forall>e \<in> set (fst st'). good_path maze W H start (snd st') e \<and> fst e \<in> snd st'"
      by simp
    from "2.IH" [OF ng push rect W H st this] ng push show ?thesis by simp
  qed
qed

section \<open>Paths of the A* search\<close>

lemma set_set_first: "set (set_first es k v) \<subseteq> insert (k, v) (set es)"
  by (induction es) auto

lemma astar_neighbors_good:
  assumes "set ds \<subseteq> set directions"
    and "good_path maze W H start C node" and "fst node \<in> C"
    and "\<forall>e \<in> set openSet. good_path maze W H start C e"
    and "astar_neighbors maze W H node C ds (openSet, gScore) = Inr (openSet', gScore')"
  shows "\<forall>e \<in> set openSet'. good_path maze W H start C e"
  using assms(1,4,5)
proof (induction ds arbitrary: openSet gScore)
  case Nil
  then show ?case by (simp add: astar_neighbors.simps)
next
  case (Cons d ds)
  from Cons.prems(3) obtain ok where
    ok: "open_move maze W H (fst (fst node)) (snd (fst node)) d = Inr ok"
    by (cases "open_move maze W H (fst (fst node)) (snd (fst node)) d")
       (simp_all add: astar_neighbors.simps)
  define n where "n = target (fst (fst node)) (snd (fst node)) d"
  define t where "t = gGet gScore (fst node) + 1"
  note step = Cons.prems(3) [unfolded astar_neighbors.simps ok sum.case Let_def,
      folded n_def t_def]
  from Cons.prems(1) have ds: "set ds \<subseteq> set directions" and d: "d \<in> set directions"
    by simp_all
  have ext: "good_path maze W H start C (n, snd node @ [n])" if "ok" "n \<notin> C"
  proof -
    from that ok d have "legal_move maze W H (fst node) n"
      using open_move_legal [of d maze W H "fst (fst node)" "snd (fst node)"]
      by (simp add: n_def)
    with assms(2,3) that show ?thesis by (intro good_path_extend) simp_all
  qed
  consider (skip) "\<not> ok \<or> n \<in> C"
    | (new) "ok" "n \<notin> C" "n \<notin> fst ` set openSet"
    | (better) "ok" "n \<notin> C" "n \<in> fst ` set openSet" "t < gGet gScore n"
    | (worse) "ok" "n \<notin> C" "n \<in> fst ` set openSet" "\<not> t < gGet gScore n"
    by blast
  then show ?case
  proof cases
    case skip
    with step
    have "astar_neighbors maze W H node C ds (openSet, gScore) = Inr (openSet', gScore')"
      by (simp split: if_splits)
    with ds Cons.prems(2) show ?thesis by (rule Cons.IH)
  next
    case new
    with step
    have run: "astar_neighbors maze W H node C ds
        (openSet @ [(n, snd node @ [n])], gScore(n \<mapsto> t)) = Inr (openSet', gScore')"
      by (simp add: find_None_coords)
    from Cons.prems(2) ext new
    have "\<forall>e \<in> set (openSet @ [(n, snd node @ [n])]). good_path maze W H start C e"
      by simp
    with ds show ?thesis using run by (rule Cons.IH)
  next
    case better
    with step
    have run: "astar_neighbors maze W H node C ds
        (set_first openSet n (snd node @ [n]), gScore(n \<mapsto> t)) = Inr (openSet', gScore')"
      by (simp add: find_None_coords)
    from Cons.prems(2) ext better set_set_first [of openSet n "snd node @ [n]"]
    have "\<forall>e \<in> set (set_first openSet n (snd node @ [n])). good_path maze W H start C e"
      by auto
    with ds show ?thesis using run by (rule Cons.IH)
  next
    case worse
    with step
    have "astar_neighbors maze W H node C ds (openSet, gScore) = Inr (openSet', gScore')"
      by (simp add: find_None_coords)
    with ds Cons.prems(2) show ?thesis by (rule Cons.IH)
  qed
qed

lemma astar_neighbors_no_error:
  assumes "cell_at maze (fst (fst node)) (snd (fst node)) \<noteq> None"
  shows "\<exists>st'. astar_neighbors maze W H node C ds st = Inr st'"
proof (induction ds arbitrary: st)
  case Nil
  show ?case by (simp add: astar_neighbors.simps)
next
  case (Cons d ds)
  from open_move_no_error [OF assms] obtain ok where
    "open_move maze W H (fst (fst node)) (snd (fst node)) d = Inr ok" by blast
  with Cons.IH show ?case by (cases st) (simp add: astar_neighbors.simps Let_def)
qed

lemma hd_sort_key_in:
  assumes "xs \<noteq> []"
  shows "hd (sort_key f xs) \<in> set xs" and "set (tl (sort_key f xs)) \<subseteq> set xs"
proof -
  define ys where "ys = sort_key f xs"
  have len: "length ys = length xs" by (simp add: ys_def)
  have st: "set ys = set xs" by (simp add: ys_def)
  from assms len obtain a as where ys: "ys = a # as" by (cases ys) auto
  show "hd (sort_key f xs) \<in> set xs"
    unfolding ys_def [symmetric] st [symmetric] by (simp add: ys)
  show "set (tl (sort_key f xs)) \<subseteq> set xs"
    unfolding ys_def [symmetric] st [symmetric] by (auto simp: ys)
qed

lemma astar_loop_good:
  assumes "\<forall>e \<in> set openSet. good_path maze W H start closedSet e"
    and "astar_loop maze W H goal openSet closedSet gScore = Inr r"
  shows "path_result maze W H start goal r"
  using assms
proof (induction maze W H goal openSet closedSet gScore rule: astar_loop.induct)
  case (1 maze W H goal openSet closedSet gScore)
  note inv = "1.prems"(1) and res = "1.prems"(2)
  show ?case
  proof (cases "openSet = []")
    case True
    with res have "r = []" by (subst (asm) astar_loop.simps) simp
    then show ?thesis by (simp add: path_result_def)
  next
    case ne: False
    define sorted where "sorted = sort_key (fScore gScore goal) openSet"
    define cur where "cur = hd sorted"
    define rest where "rest = tl sorted"
    from hd_sort_key_in [OF ne] have cur_in: "cur \<in> set openSet"
      and rest_sub: "set rest \<subseteq> set openSet"
      by (simp_all add: cur_def rest_def sorted_def)
    note res' = res [unfolded astar_loop.simps [of maze W H goal openSet], unfolded Let_def,
        folded sorted_def, folded cur_def rest_def]
    show ?thesis
    proof (cases "fst cur = goal")
      case True
      with ne res' have r: "r = tl (snd cur)" by simp
      from inv cur_in True have "good_path maze W H start closedSet (goal, snd cur)"
        by (cases cur) auto
      then show ?thesis unfolding r by (rule good_path_result)
    next
      case ng: False
      from ne ng res' obtain st where
        push: "astar_neighbors maze W H cur (insert (fst cur) closedSet) directions
                 (rest, gScore) = Inr st"
        and run: "astar_loop maze W H goal (fst st) (insert (fst cur) closedSet) (snd st) = Inr r"
        by (auto split: sum.splits)
      from push have push': "astar_neighbors maze W H cur (insert (fst cur) closedSet)
          directions (rest, gScore) = Inr (fst st, snd st)" by simp
      from inv cur_in rest_sub
      have g: "\<forall>e \<in> set (cur # rest). good_path maze W H start (insert (fst cur) closedSet) e"
        by (auto intro: good_path_mono)
      have "\<forall>e \<in> set (fst st). good_path maze W H start (insert (fst cur) closedSet) e"
        by (rule astar_neighbors_good [OF _ _ _ _ push']) (use g in simp_all)
      from "1.IH" [OF ne sorted_def cur_def rest_def ng push this run] show ?thesis .
    qed
  qed
qed

lemma astar_loop_no_error:
  assumes "rectangular maze" and "W = maze_width maze" and "H = maze_height maze"
    and "start \<in> inb W H"
    and "\<forall>e \<in> set openSet. good_path maze W H start closedSet e"
  shows "\<exists>r. astar_loop maze W H goal openSet closedSet gScore = Inr r"
  using assms
proof (induction maze W H goal openSet closedSet gScore rule: astar_loop.induct)
  case (1 maze W H goal openSet closedSet gScore)
  note rect = "1.prems"(1) and W = "1.prems"(2) and H = "1.prems"(3)
    and st = "1.prems"(4) and inv = "1.prems"(5)
  show ?case
  proof (cases "openSet = []")
    case True
    then show ?thesis by (subst astar_loop.simps) simp
  next
    case ne: False
    define sorted where "sorted = sort_key (fScore gScore goal) openSet"
    define cur where "cur = hd sorted"
    define rest where "rest = tl sorted"
    from hd_sort_key_in [OF ne] have cur_in: "cur \<in> set openSet"
      and rest_sub: "set rest \<subseteq> set openSet"
      by (simp_all add: cur_def rest_def sorted_def)
    note unf = astar_loop.simps [of maze W H goal openSet closedSet gScore, unfolded Let_def,
        folded sorted_def, folded cur_def rest_def]
    show ?thesis
    proof (cases "fst cur = goal")
      case True
      with ne show ?thesis by (simp add: unf)
    next
      case ng: False
      from inv cur_in have "good_path maze W H start closedSet cur" by simp
      from good_path_inb [OF this st]
      have "fst cur \<in> inb (maze_width maze) (maze_height maze)" by (simp add: W H)
      with rect have "cell_at maze (fst (fst cur)) (snd (fst cur)) \<noteq> None"
        by (rule cell_at_inb)
      from astar_neighbors_no_error [OF this] obtain st' where
        push: "astar_neighbors maze W H cur (insert (fst cur) closedSet) directions
                 (rest, gScore) = Inr st'"
        by blast
      then have push': "astar_neighbors maze W H cur (insert (fst cur) closedSet)
          directions (rest, gScore) = Inr (fst st', snd st')" by simp
      from inv cur_in rest_sub
      have g: "\<forall>e \<in> set (cur # rest). good_path maze W H start (insert (fst cur) closedSet) e"
        by (auto intro: good_path_mono)
      have "\<forall>e \<in> set (fst st'). good_path maze W H start (insert (fst cur) closedSet) e"
        by (rule astar_neighbors_good [OF _ _ _ _ push']) (use g in simp_all)
      from "1.IH" [OF ne sorted_def cur_def rest_def ng push rect W H st this]
      obtain r where "astar_loop maze W H goal (fst st') (insert (fst cur) closedSet) (snd st')
          = Inr r" by blast
      with ne ng push show ?thesis by (simp add: unf)
    qed
  qed
qed

section \<open>Reachability\<close>

lemma reachable_refl: "reachable maze W H a a"
  unfolding reachable_def using route_Nil by blast

lemma reachable_step:
  assumes "reachable maze W H a b" and "legal_move maze W H b c"
  shows "reachable maze W H a c"
  using assms route_snoc unfolding reachable_def by blast

lemma route_Cons:
  "route maze W H a (b # p) t \<longleftrightarrow> legal_move maze W H a b \<and> route maze W H b p t"
  by (auto simp: route_def)

lemma closed_set_reach:
  assumes "\<forall>c \<in> V. \<forall>u. legal_move maze W H c u \<longrightarrow> u \<in> V"
    and "route maze W H a p t" and "a \<in> V"
  shows "t \<in> V"
  using assms(2,3)
proof (induction p arbitrary: a)
  case Nil
  then show ?case by (simp add: route_Nil)
next
  case (Cons b p)
  from Cons.prems(1) have mv: "legal_move maze W H a b" and r: "route maze W H b p t"
    by (simp_all add: route_Cons)
  from assms(1) Cons.prems(2) mv have "b \<in> V" by blast
  with r show ?case by (rule Cons.IH)
qed

text \<open>
  What an exploration search may return: a sequence without the start and without
  repetition which, when the goal cannot be reached, lists exactly the cells that can.
\<close>

definition explore_result :: "maze \<Rightarrow> int \<Rightarrow> int \<Rightarrow> coord \<Rightarrow> coord \<Rightarrow> coord list \<Rightarrow> bool" where
  "explore_result maze W H start goal r \<longleftrightarrow>
     start \<notin> set r \<and> distinct r \<and>
     (\<not> reachable maze W H start goal \<longrightarrow> set r = {c. reachable maze W H start c} - {start})"

lemma explore_result_exhausted:
  assumes "distinct expl" and "expl \<noteq> []" and "hd expl = start"
    and "\<forall>c \<in> set expl. reachable maze W H start c"
    and "\<forall>c \<in> set expl. \<forall>u. legal_move maze W H c u \<longrightarrow> u \<in> set expl"
  shows "explore_result maze W H start goal (tl expl)"
proof -
  from assms(2,3) have e: "expl = start # tl expl" by (cases expl) auto
  with assms(1) have d: "start \<notin> set (tl expl)" "distinct (tl expl)"
    by (metis distinct.simps(2))+
  have "set expl = {c. reachable maze W H start c}"
  proof (intro equalityI subsetI)
    fix c assume "c \<in> set expl"
    with assms(4) show "c \<in> {c. reachable maze W H start c}" by simp
  next
    fix c assume "c \<in> {c. reachable maze W H start c}"
    then obtain p where "route maze W H start p c" by (auto simp: reachable_def)
    moreover from e have "start \<in> set expl" by (metis list.set_intros(1))
    ultimately show "c \<in> set expl" using closed_set_reach [OF assms(5)] by blast
  qed
  moreover have "set expl = insert start (set (tl expl))"
    by (subst e) simp
  ultimately have "set (tl expl) = {c. reachable maze W H start c} - {start}"
    using d(1) by auto
  with d show ?thesis by (simp add: explore_result_def)
qed

lemma explore_result_found:
  assumes "distinct expl" and "expl \<noteq> []" and "hd expl = start"
    and "reachable maze W H start goal"
  shows "explore_result maze W H start goal (tl expl)"
proof -
  from assms(2,3) have e: "expl = start # tl expl" by (cases expl) auto
  with assms(1) have d: "start \<notin> set (tl expl)" "distinct (tl expl)"
    by (metis distinct.simps(2))+
  with assms(4) show ?thesis by (simp add: explore_result_def)
qed

section \<open>Exploration order of the depth-first search\<close>

lemma dfsExplore_push_inv:
  assumes "set ds \<subseteq> set directions"
    and "reachable maze W H start c"
    and "\<forall>u \<in> set stack. reachable maze W H start u"
    and "dfsExplore_push maze W H c S ds stack = Inr stack'"
  shows "(\<forall>u \<in> set stack'. reachable maze W H start u) \<and> set stack \<subseteq> set stack' \<and>
         (\<forall>d \<in> set ds. open_move maze W H (fst c) (snd c) d = Inr True
            \<longrightarrow> target (fst c) (snd c) d \<in> S \<union> set stack')"
  using assms(1,3,4)
proof (induction ds arbitrary: stack)
  case Nil
  from Nil.prems(3) have "stack' = stack" by simp
  with Nil.prems(2) show ?case by simp
next
  case (Cons d ds)
  from Cons.prems(3) obtain ok where
    ok: "open_move maze W H (fst c) (snd c) d = Inr ok"
    by (auto split: sum.splits)
  define n where "n = target (fst c) (snd c) d"
  define st where "st = (if ok \<and> n \<notin> S then n # stack else stack)"
  from Cons.prems(3) ok have run: "dfsExplore_push maze W H c S ds st = Inr stack'"
    by (auto simp: st_def n_def split: if_splits)
  from Cons.prems(1) have ds: "set ds \<subseteq> set directions" and d: "d \<in> set directions"
    by simp_all
  have "ok \<Longrightarrow> reachable maze W H start n"
  proof -
    assume "ok"
    with ok d have "legal_move maze W H (fst c, snd c) n"
      unfolding n_def by (intro open_move_legal) simp_all
    then have "legal_move maze W H c n" by simp
    with assms(2) show ?thesis by (rule reachable_step)
  qed
  with Cons.prems(2) have "\<forall>u \<in> set st. reachable maze W H start u"
    by (auto simp: st_def)
  from Cons.IH [OF ds this run]
  have a: "\<forall>u \<in> set stack'. reachable maze W H start u"
    and b: "set st \<subseteq> set stack'"
    and c: "\<forall>d \<in> set ds. open_move maze W H (fst c) (snd c) d = Inr True
            \<longrightarrow> target (fst c) (snd c) d \<in> S \<union> set stack'"
    by simp_all
  have s: "set stack \<subseteq> set st" by (auto simp: st_def)
  have hd: "open_move maze W H (fst c) (snd c) d = Inr True
      \<longrightarrow> target (fst c) (snd c) d \<in> S \<union> set stack'"
  proof
    assume "open_move maze W H (fst c) (snd c) d = Inr True"
    with ok have "ok" by simp
    then have "n \<in> S \<or> n \<in> set st" by (simp add: st_def)
    with b have "n \<in> S \<union> set stack'" by blast
    then show "target (fst c) (snd c) d \<in> S \<union> set stack'" by (simp only: n_def)
  qed
  have "\<forall>d' \<in> set (d # ds). open_move maze W H (fst c) (snd c) d' = Inr True
            \<longrightarrow> target (fst c) (snd c) d' \<in> S \<union> set stack'"
  proof
    fix d' assume "d' \<in> set (d # ds)"
    then have "d' = d \<or> d' \<in> set ds" by simp
    with hd c show "open_move maze W H (fst c) (snd c) d' = Inr True
            \<longrightarrow> target (fst c) (snd c) d' \<in> S \<union> set stack'" by blast
  qed
  moreover from s b have "set stack \<subseteq> set stack'" by (rule subset_trans)
  ultimately show ?case using a by (intro conjI)
qed

definition dfsExplore_inv :: "maze \<Rightarrow> int \<Rightarrow> int \<Rightarrow> coord \<Rightarrow> coord list \<Rightarrow> coord set
    \<Rightarrow> coord list \<Rightarrow> bool" where
  "dfsExplore_inv maze W H start stack visited expl \<longleftrightarrow>
     distinct expl \<and> set expl = visited \<and>
     (if expl = [] then stack = [start] else hd expl = start) \<and>
     (\<forall>c \<in> set stack \<union> visited. reachable maze W H start c) \<and>
     (\<forall>c \<in> visited. \<forall>u. legal_move maze W H c u \<longrightarrow> u \<in> visited \<or> u \<in> set stack)"

lemma dfsExplore_loop_inv:
  assumes "dfsExplore_inv maze W H start stack visited expl"
    and "dfsExplore_loop maze W H goal stack visited expl = Inr r"
  shows "explore_result maze W H start goal r"
  using assms
proof (induction maze W H goal stack visited expl rule: dfsExplore_loop.induct)
  case (1 maze W H goal visited expl)
  from "1.prems"(1) have "distinct expl" "expl \<noteq> []" "hd expl = start"
    "\<forall>c \<in> set expl. reachable maze W H start c"
    "\<forall>c \<in> set expl. \<forall>u. legal_move maze W H c u \<longrightarrow> u \<in> set expl"
    unfolding dfsExplore_inv_def by (auto split: if_splits)
  then have "explore_result maze W H start goal (tl expl)"
    by (rule explore_result_exhausted)
  with "1.prems"(2) show ?case by simp
next
  case (2 maze W H goal c stack visited expl)
  note inv = "2.prems"(1) and res = "2.prems"(2)
  from inv have dist: "distinct expl" and vis: "set expl = visited"
    and hd: "if expl = [] then c # stack = [start] else hd expl = start"
    and reach: "\<forall>u \<in> set (c # stack) \<union> visited. reachable maze W H start u"
    and clos: "\<forall>v \<in> visited. \<forall>u. legal_move maze W H v u \<longrightarrow> u \<in> visited \<or> u \<in> set (c # stack)"
    unfolding dfsExplore_inv_def by simp_all
  show ?case
  proof (cases "c \<in> visited")
    case True
    with res have run: "dfsExplore_loop maze W H goal stack visited expl = Inr r" by simp
    from True vis have "expl \<noteq> []" by auto
    with hd have "if expl = [] then stack = [start] else hd expl = start" by simp
    moreover from clos True
    have "\<forall>v \<in> visited. \<forall>u. legal_move maze W H v u \<longrightarrow> u \<in> visited \<or> u \<in> set stack"
      by auto
    ultimately have "dfsExplore_inv maze W H start stack visited expl"
      using dist vis reach unfolding dfsExplore_inv_def by simp
    from "2.IH"(1) [OF True this run] show ?thesis .
  next
    case nv: False
    have d': "distinct (expl @ [c])" using dist vis nv by simp
    have h': "hd (expl @ [c]) = start" using hd by (cases expl) auto
    show ?thesis
    proof (cases "c = goal")
      case True
      with nv res have r: "r = tl (expl @ [c])" by simp
      from reach True have "reachable maze W H start goal" by simp
      with d' h' show ?thesis unfolding r by (intro explore_result_found) simp_all
    next
      case ng: False
      from nv ng res obtain stack' where
        push: "dfsExplore_push maze W H c (insert c visited) (rev directions) stack = Inr stack'"
        and run: "dfsExplore_loop maze W H goal stack' (insert c visited) (expl @ [c]) = Inr r"
        by (auto split: sum.splits)
      from reach have rc: "reachable maze W H start c"
        and rs: "\<forall>u \<in> set stack. reachable maze W H start u" by simp_all
      have "set (rev directions) \<subseteq> set directions" by simp
      from dfsExplore_push_inv [OF this rc rs push]
      have a: "\<forall>u \<in> set stack'. reachable maze W H start u"
        and b: "set stack \<subseteq> set stack'"
        and e: "\<forall>d \<in> set directions. open_move maze W H (fst c) (snd c) d = Inr True
            \<longrightarrow> target (fst c) (snd c) d \<in> insert c visited \<union> set stack'"
        by simp_all
      have cl: "\<forall>v \<in> insert c visited. \<forall>u. legal_move maze W H v u
          \<longrightarrow> u \<in> insert c visited \<or> u \<in> set stack'"
      proof (intro ballI allI impI)
        fix v u assume v: "v \<in> insert c visited" and mv: "legal_move maze W H v u"
        show "u \<in> insert c visited \<or> u \<in> set stack'"
        proof (cases "v = c")
          case True
          with mv have "legal_move maze W H (fst c, snd c) u" by simp
          from legal_move_open [OF this] e show ?thesis by auto
        next
          case False
          with v clos mv have "u \<in> visited \<or> u \<in> set (c # stack)" by blast
          with b show ?thesis by auto
        qed
      qed
      have "dfsExplore_inv maze W H start stack' (insert c visited) (expl @ [c])"
        unfolding dfsExplore_inv_def using d' h' vis a reach cl by auto
      from "2.IH"(2) [OF nv ng push this run] show ?thesis .
    qed
  qed
qed

lemma dfsExplore_push_no_error:
  assumes "cell_at maze (fst c) (snd c) \<noteq> None"
  shows "\<exists>stack'. dfsExplore_push maze W H c visited ds stack = Inr stack'"
proof (induction ds arbitrary: stack)
  case Nil
  show ?case by simp
next
  case (Cons d ds)
  from open_move_no_error [OF assms] obtain ok where
    "open_move maze W H (fst c) (snd c) d = Inr ok" by blast
  with Cons.IH show ?case by simp
qed

lemma dfsExplore_loop_no_error:
  assumes "rectangular maze" and "W = maze_width maze" and "H = maze_height maze"
    and "set stack \<subseteq> inb W H"
  shows "\<exists>r. dfsExplore_loop maze W H goal stack visited expl = Inr r"
  using assms
proof (induction maze W H goal stack visited expl rule: dfsExplore_loop.induct)
  case (1 maze W H goal visited expl)
  show ?case by simp
next
  case (2 maze W H goal c stack visited expl)
  note rect = "2.prems"(1) and W = "2.prems"(2) and H = "2.prems"(3) and sub = "2.prems"(4)
  show ?case
  proof (cases "c \<in> visited")
    case True
    from sub have "set stack \<subseteq> inb W H" by simp
    from "2.IH"(1) [OF True rect W H this] True show ?thesis by simp
  next
    case nv: False
    show ?thesis
    proof (cases "c = goal")
      case True
      with nv show ?thesis by simp
    next
      case ng: False
      from sub have "c \<in> inb (maze_width maze) (maze_height maze)"
        by (simp add: W H)
      with rect have "cell_at maze (fst c) (snd c) \<noteq> None"
        by (rule cell_at_inb)
      from dfsExplore_push_no_error [OF this] obtain stack' where
        push: "dfsExplore_push maze W H c (insert c visited) (rev directions) stack = Inr stack'"
        by blast
      from dfsExplore_push_coords [OF push] sub have "set stack' \<subseteq> inb W H" by auto
      from "2.IH"(2) [OF nv ng push rect W H this] nv ng push show ?thesis by simp
    qed
  qed
qed

section \<open>Exploration order of the breadth-first search\<close>

lemma bfsExplore_push_inv:
  assumes "set ds \<subseteq> set directions"
    and "reachable maze W H start c"
    and "distinct (X @ queue)" and "set (X @ queue) = visited"
    and "\<forall>u \<in> visited. reachable maze W H start u"
    and "bfsExplore_push maze W H c ds (queue, visited) = Inr (queue', visited')"
  shows "distinct (X @ queue') \<and> set (X @ queue') = visited' \<and>
         (\<forall>u \<in> visited'. reachable maze W H start u) \<and> visited \<subseteq> visited' \<and>
         (\<forall>d \<in> set ds. open_move maze W H (fst c) (snd c) d = Inr True
            \<longrightarrow> target (fst c) (snd c) d \<in> visited')"
  using assms(1,3-6)
proof (induction ds arbitrary: queue visited)
  case Nil
  from Nil.prems(5) have "queue' = queue" "visited' = visited" by simp_all
  with Nil.prems(2-4) show ?case by simp
next
  case (Cons d ds)
  from Cons.prems(5) obtain ok where
    ok: "open_move maze W H (fst c) (snd c) d = Inr ok"
    by (auto split: sum.splits)
  define n where "n = target (fst c) (snd c) d"
  from Cons.prems(1) have ds: "set ds \<subseteq> set directions" and d: "d \<in> set directions"
    by simp_all
  have rn: "reachable maze W H start n" if "ok"
  proof -
    from that ok d have "legal_move maze W H (fst c, snd c) n"
      unfolding n_def by (intro open_move_legal) simp_all
    then have "legal_move maze W H c n" by simp
    with assms(2) show ?thesis by (rule reachable_step)
  qed
  show ?case
  proof (cases "ok \<and> n \<notin> visited")
    case True
    with Cons.prems(5) ok
    have run: "bfsExplore_push maze W H c ds (queue @ [n], insert n visited)
               = Inr (queue', visited')"
      by (simp add: n_def)
    from True Cons.prems(2,3) have d1: "distinct (X @ queue @ [n])" by auto
    from Cons.prems(3) have s1: "set (X @ queue @ [n]) = insert n visited" by auto
    from True rn Cons.prems(4) have r1: "\<forall>u \<in> insert n visited. reachable maze W H start u"
      by simp
    from Cons.IH [OF ds d1 s1 r1 run]
    have a: "distinct (X @ queue')" and b: "set (X @ queue') = visited'"
      and r: "\<forall>u \<in> visited'. reachable maze W H start u"
      and m: "insert n visited \<subseteq> visited'"
      and t: "\<forall>d \<in> set ds. open_move maze W H (fst c) (snd c) d = Inr True
            \<longrightarrow> target (fst c) (snd c) d \<in> visited'"
      by simp_all
    from m have "n \<in> visited'" and m': "visited \<subseteq> visited'" by simp_all
    then have "target (fst c) (snd c) d \<in> visited'" by (simp only: n_def)
    with t have "\<forall>d' \<in> set (d # ds). open_move maze W H (fst c) (snd c) d' = Inr True
            \<longrightarrow> target (fst c) (snd c) d' \<in> visited'"
      by simp
    with a b r m' show ?thesis by (intro conjI)
  next
    case False
    with Cons.prems(5) ok
    have run: "bfsExplore_push maze W H c ds (queue, visited) = Inr (queue', visited')"
      by (auto simp: n_def)
    from Cons.IH [OF ds Cons.prems(2-4) run]
    have a: "distinct (X @ queue')" and b: "set (X @ queue') = visited'"
      and r: "\<forall>u \<in> visited'. reachable maze W H start u"
      and m: "visited \<subseteq> visited'"
      and t: "\<forall>d \<in> set ds. open_move maze W H (fst c) (snd c) d = Inr True
            \<longrightarrow> target (fst c) (snd c) d \<in> visited'"
      by simp_all
    have "open_move maze W H (fst c) (snd c) d = Inr True
        \<longrightarrow> target (fst c) (snd c) d \<in> visited'"
    proof
      assume "open_move maze W H (fst c) (snd c) d = Inr True"
      with ok have "ok" by simp
      with False have "n \<in> visited" by simp
      with m have "n \<in> visited'" by blast
      then show "target (fst c) (snd c) d \<in> visited'" by (simp only: n_def)
    qed
    with t have "\<forall>d' \<in> set (d # ds). open_move maze W H (fst c) (snd c) d' = Inr True
            \<longrightarrow> target (fst c) (snd c) d' \<in> visited'"
      by simp
    with a b r m show ?thesis by (intro conjI)
  qed
qed

definition bfsExplore_inv :: "maze \<Rightarrow> int \<Rightarrow> int \<Rightarrow> coord \<Rightarrow> coord list \<Rightarrow> coord set
    \<Rightarrow> coord list \<Rightarrow> bool" where
  "bfsExplore_inv maze W H start queue visited expl \<longleftrightarrow>
     distinct (expl @ queue) \<and> set (expl @ queue) = visited \<and>
     (if expl = [] then queue = [start] else hd expl = start) \<and>
     (\<forall>u \<in> visited. reachable maze W H start u) \<and>
     (\<forall>v \<in> set expl. \<forall>u. legal_move maze W H v u \<longrightarrow> u \<in> visited)"

lemma bfsExplore_loop_inv:
  assumes "bfsExplore_inv maze W H start queue visited expl"
    and "bfsExplore_loop maze W H goal queue visited expl = Inr r"
  shows "explore_result maze W H start goal r"
  using assms
proof (induction maze W H goal queue visited expl rule: bfsExplore_loop.induct)
  case (1 maze W H goal visited expl)
  from "1.prems"(1) have "distinct expl" "expl \<noteq> []" "hd expl = start"
    "\<forall>c \<in> set expl. reachable maze W H start c"
    "\<forall>c \<in> set expl. \<forall>u. legal_move maze W H c u \<longrightarrow> u \<in> set expl"
    unfolding bfsExplore_inv_def by (auto split: if_splits)
  then have "explore_result maze W H start goal (tl expl)"
    by (rule explore_result_exhausted)
  with "1.prems"(2) show ?case by simp
next
  case (2 maze W H goal c queue visited expl)
  note inv = "2.prems"(1) and res = "2.prems"(2)
  from inv have dist: "distinct (expl @ c # queue)" and vis: "set (expl @ c # queue) = visited"
    and hd: "if expl = [] then c # queue = [start] else hd expl = start"
    and reach: "\<forall>u \<in> visited. reachable maze W H start u"
    and clos: "\<forall>v \<in> set expl. \<forall>u. legal_move maze W H v u \<longrightarrow> u \<in> visited"
    unfolding bfsExplore_inv_def by simp_all
  from dist have d': "distinct (expl @ [c])" by simp
  have h': "hd (expl @ [c]) = start" using hd by (cases expl) auto
  from vis have cv: "c \<in> visited" by auto
  show ?case
  proof (cases "c = goal")
    case True
    with res have r: "r = tl (expl @ [c])" by simp
    from reach cv True have "reachable maze W H start goal" by simp
    with d' h' show ?thesis unfolding r by (intro explore_result_found) simp_all
  next
    case ng: False
    from ng res obtain st where
      push: "bfsExplore_push maze W H c directions (queue, visited) = Inr st"
      and run: "bfsExplore_loop maze W H goal (fst st) (snd st) (expl @ [c]) = Inr r"
      by (auto split: sum.splits)
    from push have push': "bfsExplore_push maze W H c directions (queue, visited)
        = Inr (fst st, snd st)" by simp
    from reach cv have rc: "reachable maze W H start c" by simp
    from dist have d1: "distinct ((expl @ [c]) @ queue)" by simp
    from vis have s1: "set ((expl @ [c]) @ queue) = visited" by simp
    have "set directions \<subseteq> set directions" by simp
    from bfsExplore_push_inv [OF this rc d1 s1 reach push']
    have a: "distinct ((expl @ [c]) @ fst st)" and b: "set ((expl @ [c]) @ fst st) = snd st"
      and r: "\<forall>u \<in> snd st. reachable maze W H start u"
      and m: "visited \<subseteq> snd st"
      and t: "\<forall>d \<in> set directions. open_move maze W H (fst c) (snd c) d = Inr True
            \<longrightarrow> target (fst c) (snd c) d \<in> snd st"
      by simp_all
    have cl: "\<forall>v \<in> set (expl @ [c]). \<forall>u. legal_move maze W H v u \<longrightarrow> u \<in> snd st"
    proof (intro ballI allI impI)
      fix v u assume v: "v \<in> set (expl @ [c])" and mv: "legal_move maze W H v u"
      show "u \<in> snd st"
      proof (cases "v = c")
        case True
        with mv have "legal_move maze W H (fst c, snd c) u" by simp
        from legal_move_open [OF this] t show ?thesis by auto
      next
        case False
        with v have "v \<in> set expl" by simp
        with clos mv have "u \<in> visited" by blast
        with m show ?thesis by blast
      qed
    qed
    have "expl @ [c] \<noteq> []" by simp
    with a b h' r cl have "bfsExplore_inv maze W H start (fst st) (snd st) (expl @ [c])"
      unfolding bfsExplore_inv_def by simp
    from "2.IH" [OF ng push this run] show ?thesis .
  qed
qed

lemma bfsExplore_push_no_error:
  assumes "cell_at maze (fst c) (snd c) \<noteq> None"
  shows "\<exists>st'. bfsExplore_push maze W H c ds st = Inr st'"
proof (induction ds arbitrary: st)
  case Nil
  show ?case by simp
next
  case (Cons d ds)
  from open_move_no_error [OF assms] obtain ok where
    "open_move maze W H (fst c) (snd c) d = Inr ok" by blast
  with Cons.IH show ?case by (cases st) simp
qed

lemma bfsExplore_push_coords:
  assumes "bfsExplore_push maze W H c ds (queue, visited) = Inr (queue', visited')"
  shows "set queue' \<subseteq> set queue \<union> inb W H"
  using assms
proof (induction ds arbitrary: queue visited)
  case Nil
  then show ?case by simp
next
  case (Cons d ds)
  from Cons.prems obtain ok where
    ok: "open_move maze W H (fst c) (snd c) d = Inr ok"
    by (auto split: sum.splits)
  define n where "n = target (fst c) (snd c) d"
  show ?case
  proof (cases "ok \<and> n \<notin> visited")
    case True
    with Cons.prems ok
    have run: "bfsExplore_push maze W H c ds (queue @ [n], insert n visited)
               = Inr (queue', visited')"
      by (simp add: n_def)
    from True ok have "n \<in> inb W H"
      unfolding n_def by (simp add: open_move_inb)
    with Cons.IH [OF run] show ?thesis by auto
  next
    case False
    with Cons.prems ok
    have run: "bfsExplore_push maze W H c ds (queue, visited) = Inr (queue', visited')"
      by (auto simp: n_def)
    from Cons.IH [OF run] show ?thesis .
  qed
qed

lemma bfsExplore_loop_no_error:
  assumes "rectangular maze" and "W = maze_width maze" and "H = maze_height maze"
    and "set queue \<subseteq> inb W H"
  shows "\<exists>r. bfsExplore_loop maze W H goal queue visited expl = Inr r"
  using assms
proof (induction maze W H goal queue visited expl rule: bfsExplore_loop.induct)
  case (1 maze W H goal visited expl)
  show ?case by simp
next
  case (2 maze W H goal c queue visited expl)
  note rect = "2.prems"(1) and W = "2.prems"(2) and H = "2.prems"(3) and sub = "2.prems"(4)
  show ?case
  proof (cases "c = goal")
    case True
    then show ?thesis by simp
  next
    case ng: False
    from sub have "c \<in> inb (maze_width maze) (maze_height maze)"
      by (simp add: W H)
    with rect have "cell_at maze (fst c) (snd c) \<noteq> None"
      by (rule cell_at_inb)
    from bfsExplore_push_no_error [OF this] obtain st where
      push: "bfsExplore_push maze W H c directions (queue, visited) = Inr st"
      by blast
    then have "bfsExplore_push maze W H c directions (queue, visited) = Inr (fst st, snd st)"
      by simp
    from bfsExplore_push_coords [OF this] sub have "set (fst st) \<subseteq> inb W H" by auto
    from "2.IH" [OF ng push rect W H this] ng push show ?thesis by simp
  qed
qed

section \<open>Leaving a set of cells along a route\<close>

lemma route_length_append:
  "route maze W H a (p1 @ u # p2) t \<Longrightarrow> length p1 + 1 + length p2 = length (p1 @ u # p2)"
  by simp

lemma first_exit:
  assumes "route maze W H a p t" and "a \<in> V" and "t \<notin> V"
  shows "\<exists>p1 u p2 v. p = p1 @ u # p2 \<and> route maze W H a p1 v \<and> v \<in> V \<and>
           legal_move maze W H v u \<and> u \<notin> V \<and> route maze W H u p2 t"
  using assms
proof (induction p arbitrary: a)
  case Nil
  then show ?case by (simp add: route_Nil)
next
  case (Cons b p)
  from Cons.prems(1) have mv: "legal_move maze W H a b" and r: "route maze W H b p t"
    by (simp_all add: route_Cons)
  show ?case
  proof (cases "b \<in> V")
    case False
    have "b # p = [] @ b # p" by simp
    moreover have "route maze W H a [] a" by (simp add: route_Nil)
    ultimately show ?thesis using Cons.prems(2) mv False r by blast
  next
    case True
    from Cons.IH [OF r True Cons.prems(3)] obtain p1 u p2 v where
      p: "p = p1 @ u # p2" and r1: "route maze W H b p1 v" and v: "v \<in> V"
      and m: "legal_move maze W H v u" and u: "u \<notin> V" and r2: "route maze W H u p2 t"
      by blast
    from p have "b # p = (b # p1) @ u # p2" by simp
    moreover from mv r1 have "route maze W H a (b # p1) v" by (simp add: route_Cons)
    ultimately show ?thesis using v m u r2 by blast
  qed
qed

section \<open>Shortest paths of the breadth-first search\<close>

definition bfs_inv :: "maze \<Rightarrow> int \<Rightarrow> int \<Rightarrow> coord \<Rightarrow> coord \<Rightarrow> SearchNode list
    \<Rightarrow> SearchNode list \<Rightarrow> coord set \<Rightarrow> bool" where
  "bfs_inv maze W H start goal X queue visited \<longleftrightarrow>
     (\<forall>e \<in> set (X @ queue). good_path maze W H start visited e \<and> fst e \<in> visited \<and>
        (\<forall>q. route maze W H start q (fst e) \<longrightarrow> length (snd e) \<le> length q + 1)) \<and>
     sorted (map (\<lambda>e. length (snd e)) (X @ queue)) \<and>
     (\<forall>e \<in> set (X @ queue). length (snd e) \<le> length (snd (hd (X @ queue))) + 1) \<and>
     (\<forall>c \<in> visited - fst ` set (X @ queue). \<forall>u. legal_move maze W H c u \<longrightarrow> u \<in> visited) \<and>
     start \<in> visited \<and>
     goal \<notin> visited - fst ` set (X @ queue)"

lemma bfs_inv_new_optimal:
  assumes inv: "bfs_inv maze W H start goal [cur] queue visited"
    and n: "n \<notin> visited"
    and q: "route maze W H start q n"
  shows "length (snd cur) \<le> length q"
proof -
  from inv have st: "start \<in> visited"
    and clos: "\<forall>c \<in> visited - fst ` set (cur # queue). \<forall>u. legal_move maze W H c u \<longrightarrow> u \<in> visited"
    and opt: "\<forall>e \<in> set (cur # queue). \<forall>q. route maze W H start q (fst e)
        \<longrightarrow> length (snd e) \<le> length q + 1"
    and srt: "sorted (map (\<lambda>e. length (snd e)) (cur # queue))"
    unfolding bfs_inv_def by simp_all
  from first_exit [OF q st n] obtain p1 u p2 v where
    p: "q = p1 @ u # p2" and r1: "route maze W H start p1 v" and v: "v \<in> visited"
    and m: "legal_move maze W H v u" and u: "u \<notin> visited"
    by blast
  from clos v m u have "v \<in> fst ` set (cur # queue)" by blast
  then obtain e where fe: "v = fst e" and e: "e \<in> set (cur # queue)" by (rule imageE)
  from opt e r1 fe have "length (snd e) \<le> length p1 + 1" by blast
  moreover from srt e have "length (snd cur) \<le> length (snd e)" by auto
  moreover from p have "length p1 + 1 \<le> length q" by simp
  ultimately show ?thesis by linarith
qed

lemma bfs_inv_push:
  assumes inv: "bfs_inv maze W H start goal [cur] queue visited"
    and n: "n \<notin> visited"
    and mv: "legal_move maze W H (fst cur) n"
  shows "bfs_inv maze W H start goal [cur] (queue @ [(n, snd cur @ [n])]) (insert n visited)"
proof -
  let ?new = "(n, snd cur @ [n])"
  from inv have gp: "\<forall>e \<in> set (cur # queue). good_path maze W H start visited e \<and> fst e \<in> visited
      \<and> (\<forall>q. route maze W H start q (fst e) \<longrightarrow> length (snd e) \<le> length q + 1)"
    and srt: "sorted (map (\<lambda>e. length (snd e)) (cur # queue))"
    and bnd: "\<forall>e \<in> set (cur # queue). length (snd e) \<le> length (snd cur) + 1"
    and clos: "\<forall>c \<in> visited - fst ` set (cur # queue). \<forall>u. legal_move maze W H c u \<longrightarrow> u \<in> visited"
    and st: "start \<in> visited"
    and gl: "goal \<notin> visited - fst ` set (cur # queue)"
    unfolding bfs_inv_def by simp_all
  from gp have gc: "good_path maze W H start visited cur" and cv: "fst cur \<in> visited"
    by simp_all
  from gc cv mv n have "good_path maze W H start visited ?new"
    by (rule good_path_extend)
  then have gnew: "good_path maze W H start (insert n visited) ?new"
    by (rule good_path_mono) auto
  have onew: "\<forall>q. route maze W H start q n \<longrightarrow> length (snd cur @ [n]) \<le> length q + 1"
    using bfs_inv_new_optimal [OF inv n] by simp
  have c1: "\<forall>e \<in> set ([cur] @ queue @ [?new]).
      good_path maze W H start (insert n visited) e \<and> fst e \<in> insert n visited \<and>
      (\<forall>q. route maze W H start q (fst e) \<longrightarrow> length (snd e) \<le> length q + 1)"
  proof
    fix e assume "e \<in> set ([cur] @ queue @ [?new])"
    then consider "e = ?new" | "e \<in> set (cur # queue)" by auto
    then show "good_path maze W H start (insert n visited) e \<and> fst e \<in> insert n visited \<and>
      (\<forall>q. route maze W H start q (fst e) \<longrightarrow> length (snd e) \<le> length q + 1)"
    proof cases
      case 1
      with gnew onew show ?thesis by simp
    next
      case 2
      with gp have "good_path maze W H start visited e" and "fst e \<in> visited"
        and "\<forall>q. route maze W H start q (fst e) \<longrightarrow> length (snd e) \<le> length q + 1"
        by blast+
      moreover from this(1) have "good_path maze W H start (insert n visited) e"
        by (rule good_path_mono) auto
      ultimately show ?thesis by simp
    qed
  qed
  have c2: "sorted (map (\<lambda>e. length (snd e)) ([cur] @ queue @ [?new]))"
    using srt bnd by (auto simp: sorted_append)
  have c3: "\<forall>e \<in> set ([cur] @ queue @ [?new]).
      length (snd e) \<le> length (snd (hd ([cur] @ queue @ [?new]))) + 1"
    using bnd by auto
  have eq: "insert n visited - fst ` set ([cur] @ queue @ [?new])
      = visited - fst ` set (cur # queue)"
    using n by auto
  have c4: "\<forall>c \<in> insert n visited - fst ` set ([cur] @ queue @ [?new]).
      \<forall>u. legal_move maze W H c u \<longrightarrow> u \<in> insert n visited"
    unfolding eq using clos by blast
  have c6: "goal \<notin> insert n visited - fst ` set ([cur] @ queue @ [?new])"
    unfolding eq using gl .
  from st have c5: "start \<in> insert n visited" by simp
  show ?thesis unfolding bfs_inv_def using c1 c2 c3 c4 c5 c6 by (intro conjI)
qed

lemma bfs_push_inv:
  assumes "set ds \<subseteq> set directions"
    and "bfs_inv maze W H start goal [cur] queue visited"
    and "bfs_push maze W H cur ds (queue, visited) = Inr (queue', visited')"
  shows "bfs_inv maze W H start goal [cur] queue' visited' \<and> visited \<subseteq> visited' \<and>
         (\<forall>d \<in> set ds. open_move maze W H (fst (fst cur)) (snd (fst cur)) d = Inr True
            \<longrightarrow> target (fst (fst cur)) (snd (fst cur)) d \<in> visited')"
  using assms
proof (induction ds arbitrary: queue visited)
  case Nil
  from Nil.prems(3) have "queue' = queue" "visited' = visited" by simp_all
  with Nil.prems(2) show ?case by simp
next
  case (Cons d ds)
  from Cons.prems(3) obtain ok where
    ok: "open_move maze W H (fst (fst cur)) (snd (fst cur)) d = Inr ok"
    by (auto split: sum.splits)
  define n where "n = target (fst (fst cur)) (snd (fst cur)) d"
  from Cons.prems(1) have ds: "set ds \<subseteq> set directions" and d: "d \<in> set directions"
    by simp_all
  show ?case
  proof (cases "ok \<and> n \<notin> visited")
    case True
    with Cons.prems(3) ok
    have run: "bfs_push maze W H cur ds (queue @ [(n, snd cur @ [n])], insert n visited)
               = Inr (queue', visited')"
      by (simp add: n_def)
    from True ok d have "legal_move maze W H (fst (fst cur), snd (fst cur)) n"
      unfolding n_def by (intro open_move_legal) simp_all
    then have mv: "legal_move maze W H (fst cur) n" by simp
    from True have nv: "n \<notin> visited" by simp
    from bfs_inv_push [OF Cons.prems(2) nv mv]
    have "bfs_inv maze W H start goal [cur] (queue @ [(n, snd cur @ [n])]) (insert n visited)" .
    from Cons.IH [OF ds this run]
    have a: "bfs_inv maze W H start goal [cur] queue' visited'"
      and m: "insert n visited \<subseteq> visited'"
      and t: "\<forall>d \<in> set ds. open_move maze W H (fst (fst cur)) (snd (fst cur)) d = Inr True
            \<longrightarrow> target (fst (fst cur)) (snd (fst cur)) d \<in> visited'"
      by simp_all
    from m have "n \<in> visited'" and m': "visited \<subseteq> visited'" by simp_all
    then have "target (fst (fst cur)) (snd (fst cur)) d \<in> visited'" by (simp only: n_def)
    with t have "\<forall>d' \<in> set (d # ds).
        open_move maze W H (fst (fst cur)) (snd (fst cur)) d' = Inr True
            \<longrightarrow> target (fst (fst cur)) (snd (fst cur)) d' \<in> visited'"
      by simp
    with a m' show ?thesis by (intro conjI)
  next
    case False
    with Cons.prems(3) ok
    have run: "bfs_push maze W H cur ds (queue, visited) = Inr (queue', visited')"
      by (auto simp: n_def)
    from Cons.IH [OF ds Cons.prems(2) run]
    have a: "bfs_inv maze W H start goal [cur] queue' visited'"
      and m: "visited \<subseteq> visited'"
      and t: "\<forall>d \<in> set ds. open_move maze W H (fst (fst cur)) (snd (fst cur)) d = Inr True
            \<longrightarrow> target (fst (fst cur)) (snd (fst cur)) d \<in> visited'"
      by simp_all
    have "open_move maze W H (fst (fst cur)) (snd (fst cur)) d = Inr True
        \<longrightarrow> target (fst (fst cur)) (snd (fst cur)) d \<in> visited'"
    proof
      assume "open_move maze W H (fst (fst cur)) (snd (fst cur)) d = Inr True"
      with ok have "ok" by simp
      with False have "n \<in> visited" by simp
      with m have "n \<in> visited'" by blast
      then show "target (fst (fst cur)) (snd (fst cur)) d \<in> visited'" by (simp only: n_def)
    qed
    with t have "\<forall>d' \<in> set (d # ds).
        open_move maze W H (fst (fst cur)) (snd (fst cur)) d' = Inr True
            \<longrightarrow> target (fst (fst cur)) (snd (fst cur)) d' \<in> visited'"
      by simp
    with a m show ?thesis by (intro conjI)
  qed
qed

lemma bfs_inv_next:
  assumes inv: "bfs_inv maze W H start goal [cur] queue visited"
    and ng: "fst cur \<noteq> goal"
    and all: "\<forall>u. legal_move maze W H (fst cur) u \<longrightarrow> u \<in> visited"
  shows "bfs_inv maze W H start goal [] queue visited"
proof -
  from inv have gp: "\<forall>e \<in> set (cur # queue). good_path maze W H start visited e \<and> fst e \<in> visited
      \<and> (\<forall>q. route maze W H start q (fst e) \<longrightarrow> length (snd e) \<le> length q + 1)"
    and srt: "sorted (map (\<lambda>e. length (snd e)) (cur # queue))"
    and bnd: "\<forall>e \<in> set (cur # queue). length (snd e) \<le> length (snd cur) + 1"
    and clos: "\<forall>c \<in> visited - fst ` set (cur # queue). \<forall>u. legal_move maze W H c u \<longrightarrow> u \<in> visited"
    and st: "start \<in> visited"
    and gl: "goal \<notin> visited - fst ` set (cur # queue)"
    unfolding bfs_inv_def by simp_all
  from gp have c1: "\<forall>e \<in> set ([] @ queue). good_path maze W H start visited e \<and> fst e \<in> visited
      \<and> (\<forall>q. route maze W H start q (fst e) \<longrightarrow> length (snd e) \<le> length q + 1)"
    by simp
  from srt have c2: "sorted (map (\<lambda>e. length (snd e)) ([] @ queue))" by simp
  have c3: "\<forall>e \<in> set ([] @ queue). length (snd e) \<le> length (snd (hd ([] @ queue))) + 1"
  proof
    fix e assume e: "e \<in> set ([] @ queue)"
    then have "queue \<noteq> []" by auto
    then have "hd queue \<in> set queue" by simp
    with srt have "length (snd cur) \<le> length (snd (hd queue))" by auto
    moreover from bnd e have "length (snd e) \<le> length (snd cur) + 1" by simp
    ultimately show "length (snd e) \<le> length (snd (hd ([] @ queue))) + 1" by simp
  qed
  have c4: "\<forall>c \<in> visited - fst ` set ([] @ queue). \<forall>u. legal_move maze W H c u \<longrightarrow> u \<in> visited"
  proof (intro ballI allI impI)
    fix c u assume c: "c \<in> visited - fst ` set ([] @ queue)" and m: "legal_move maze W H c u"
    show "u \<in> visited"
    proof (cases "c = fst cur")
      case True
      with all m show ?thesis by blast
    next
      case False
      with c have "c \<in> visited - fst ` set (cur # queue)" by auto
      with clos m show ?thesis by blast
    qed
  qed
  have c6: "goal \<notin> visited - fst ` set ([] @ queue)"
    using gl ng by auto
  show ?thesis unfolding bfs_inv_def using c1 c2 c3 c4 st c6 by (intro conjI)
qed

lemma bfs_loop_optimal:
  assumes "bfs_inv maze W H start goal [] queue visited"
    and "reachable maze W H start goal"
    and "bfs_loop maze W H goal queue visited = Inr r"
  shows "route maze W H start r goal \<and> (\<forall>q. route maze W H start q goal \<longrightarrow> length r \<le> length q)"
  using assms
proof (induction maze W H goal queue visited rule: bfs_loop.induct)
  case (1 maze W H goal visited)
  from "1.prems"(1) have clos: "\<forall>c \<in> visited. \<forall>u. legal_move maze W H c u \<longrightarrow> u \<in> visited"
    and st: "start \<in> visited" and gl: "goal \<notin> visited"
    unfolding bfs_inv_def by simp_all
  from "1.prems"(2) obtain p where "route maze W H start p goal"
    by (auto simp: reachable_def)
  from closed_set_reach [OF clos this st] gl show ?case by simp
next
  case (2 maze W H goal node queue visited)
  note inv = "2.prems"(1) and reach = "2.prems"(2) and res = "2.prems"(3)
  from inv have inv': "bfs_inv maze W H start goal [node] queue visited"
    by (simp add: bfs_inv_def)
  show ?case
  proof (cases "fst node = goal")
    case True
    with res have r: "r = tl (snd node)" by simp
    from inv' have gp: "good_path maze W H start visited node"
      and opt: "\<forall>q. route maze W H start q (fst node) \<longrightarrow> length (snd node) \<le> length q + 1"
      unfolding bfs_inv_def by simp_all
    from gp obtain p where p: "snd node = start # p" and rt: "route maze W H start p (fst node)"
      unfolding good_path_def by blast
    from p r have "r = p" by simp
    with rt opt p True show ?thesis by simp
  next
    case ng: False
    from ng res obtain st where
      push: "bfs_push maze W H node directions (queue, visited) = Inr st"
      and run: "bfs_loop maze W H goal (fst st) (snd st) = Inr r"
      by (auto split: sum.splits)
    from push have push': "bfs_push maze W H node directions (queue, visited)
        = Inr (fst st, snd st)" by simp
    have "set directions \<subseteq> set directions" by simp
    from bfs_push_inv [OF this inv' push']
    have a: "bfs_inv maze W H start goal [node] (fst st) (snd st)"
      and t: "\<forall>d \<in> set directions. open_move maze W H (fst (fst node)) (snd (fst node)) d = Inr True
            \<longrightarrow> target (fst (fst node)) (snd (fst node)) d \<in> snd st"
      by simp_all
    have "\<forall>u. legal_move maze W H (fst node) u \<longrightarrow> u \<in> snd st"
    proof (intro allI impI)
      fix u assume "legal_move maze W H (fst node) u"
      then have "legal_move maze W H (fst (fst node), snd (fst node)) u" by simp
      from legal_move_open [OF this] t show "u \<in> snd st" by auto
    qed
    from bfs_inv_next [OF a ng this]
    have "bfs_inv maze W H start goal [] (fst st) (snd st)" .
    from "2.IH" [OF ng push this reach run] show ?thesis .
  qed
qed

section \<open>The heuristic\<close>

definition hh :: "coord \<Rightarrow> coord \<Rightarrow> nat" where
  "hh goal c = nat (heuristic (fst c) (snd c) (fst goal) (snd goal))"

lemma hh_step:
  assumes "legal_move maze W H a b"
  shows "hh goal a \<le> hh goal b + 1"
proof -
  from assms have "b = (fst a, snd a - 1) \<or> b = (fst a + 1, snd a) \<or>
      b = (fst a, snd a + 1) \<or> b = (fst a - 1, snd a)"
    unfolding legal_move_def by (auto split: option.splits)
  then show ?thesis
    unfolding hh_def heuristic_def by (elim disjE) auto
qed

lemma hh_route:
  assumes "route maze W H a p t"
  shows "hh goal a \<le> hh goal t + length p"
  using assms
proof (induction p arbitrary: a)
  case Nil
  then show ?case by (simp add: route_Nil)
next
  case (Cons b p)
  from Cons.prems have mv: "legal_move maze W H a b" and r: "route maze W H b p t"
    by (simp_all add: route_Cons)
  from hh_step [OF mv, of goal] Cons.IH [OF r] show ?case by simp
qed

section \<open>Shortest paths of the A* search\<close>

definition astar_inv :: "maze \<Rightarrow> int \<Rightarrow> int \<Rightarrow> coord \<Rightarrow> coord \<Rightarrow> SearchNode list
    \<Rightarrow> SearchNode list \<Rightarrow> coord set \<Rightarrow> (coord \<rightharpoonup> enat) \<Rightarrow> bool" where
  "astar_inv maze W H start goal X openSet closedSet gScore \<longleftrightarrow>
     (\<forall>e \<in> set (X @ openSet). good_path maze W H start closedSet e \<and>
        gScore (fst e) = Some (enat (length (snd e) - 1))) \<and>
     distinct (map fst (X @ openSet)) \<and>
     fst ` set openSet \<inter> closedSet = {} \<and>
     fst ` set X \<subseteq> closedSet \<and>
     (\<forall>c \<in> closedSet. \<exists>k. gScore c = Some (enat k) \<and>
        (\<forall>q. route maze W H start q c \<longrightarrow> k \<le> length q)) \<and>
     (\<forall>c \<in> closedSet - fst ` set X. \<forall>k u. gScore c = Some (enat k) \<longrightarrow>
        legal_move maze W H c u \<longrightarrow>
        u \<in> closedSet \<or> (\<exists>e \<in> set openSet. fst e = u \<and> length (snd e) \<le> k + 2)) \<and>
     start \<in> closedSet \<union> fst ` set openSet \<and>
     goal \<notin> closedSet"

lemma good_path_length: "good_path maze W H start S e \<Longrightarrow> 1 \<le> length (snd e)"
  unfolding good_path_def by auto

lemma good_path_at_start:
  assumes "good_path maze W H start S e" and "fst e = start"
  shows "snd e = [start]"
proof -
  from assms obtain p where p: "snd e = start # p" and r: "route maze W H start p start"
    and d: "distinct (start # p)"
    unfolding good_path_def by auto
  have "p = []"
  proof (rule ccontr)
    assume "p \<noteq> []"
    with r have "last p = start" by (simp add: route_def)
    with \<open>p \<noteq> []\<close> have "start \<in> set p" by (metis last_in_set)
    with d show False by simp
  qed
  with p show ?thesis by simp
qed

lemma astar_frontier:
  assumes inv: "astar_inv maze W H start goal [] openSet closedSet gScore"
    and t: "t \<notin> closedSet"
    and q: "route maze W H start q t"
  shows "\<exists>e \<in> set openSet. length (snd e) - 1 + hh goal (fst e) \<le> length q + hh goal t"
proof (cases "start \<in> closedSet")
  case False
  with inv have "start \<in> fst ` set openSet" unfolding astar_inv_def by blast
  then obtain e where fe: "start = fst e" and e: "e \<in> set openSet" by (rule imageE)
  from inv e have "good_path maze W H start closedSet e" unfolding astar_inv_def by simp
  from good_path_at_start [OF this] fe have "length (snd e) - 1 = 0" by simp
  moreover from hh_route [OF q, of goal] fe have "hh goal (fst e) \<le> hh goal t + length q" by simp
  ultimately have "length (snd e) - 1 + hh goal (fst e) \<le> length q + hh goal t" by simp
  with e show ?thesis by blast
next
  case True
  from first_exit [OF q True t] obtain p1 u p2 v where
    p: "q = p1 @ u # p2" and r1: "route maze W H start p1 v" and v: "v \<in> closedSet"
    and m: "legal_move maze W H v u" and u: "u \<notin> closedSet"
    and r2: "route maze W H u p2 t"
    by blast
  from inv v obtain k where k: "gScore v = Some (enat k)"
    and kopt: "\<forall>q. route maze W H start q v \<longrightarrow> k \<le> length q"
    unfolding astar_inv_def by blast
  from inv have "\<forall>c \<in> closedSet. \<forall>k u. gScore c = Some (enat k) \<longrightarrow>
        legal_move maze W H c u \<longrightarrow>
        u \<in> closedSet \<or> (\<exists>e \<in> set openSet. fst e = u \<and> length (snd e) \<le> k + 2)"
    unfolding astar_inv_def by simp
  with v k m u obtain e where e: "e \<in> set openSet" and fe: "fst e = u"
    and le: "length (snd e) \<le> k + 2"
    by blast
  from kopt r1 have "k \<le> length p1" by blast
  moreover from hh_route [OF r2, of goal] fe have "hh goal (fst e) \<le> hh goal t + length p2" by simp
  moreover from p have "length q = length p1 + 1 + length p2" by simp
  ultimately have "length (snd e) - 1 + hh goal (fst e) \<le> length q + hh goal t"
    using le by linarith
  with e show ?thesis by blast
qed

lemma hd_sort_key_min:
  assumes "xs \<noteq> []" and "e \<in> set xs"
  shows "f (hd (sort_key f xs)) \<le> f e"
proof -
  define ys where "ys = sort_key f xs"
  have len: "length ys = length xs" by (simp add: ys_def)
  have st: "set ys = set xs" by (simp add: ys_def)
  have srt: "sorted (map f ys)" by (simp add: ys_def)
  from assms len obtain a as where ys: "ys = a # as" by (cases ys) auto
  from assms(2) st ys have "e = a \<or> e \<in> set as" by auto
  with srt ys have "f a \<le> f e" by auto
  then show ?thesis unfolding ys_def [symmetric] by (simp add: ys)
qed

lemma fScore_sync:
  assumes "gScore (fst e) = Some (enat (length (snd e) - 1))"
  shows "fScore gScore goal e = enat (length (snd e) - 1 + hh goal (fst e))"
  using assms by (simp add: fScore_def gGet_def hh_def)

lemma astar_pop_optimal:
  assumes inv: "astar_inv maze W H start goal [] openSet closedSet gScore"
    and ne: "openSet \<noteq> []"
    and cur: "cur = hd (sort_key (fScore gScore goal) openSet)"
    and q: "route maze W H start q (fst cur)"
  shows "length (snd cur) - 1 \<le> length q"
proof -
  from hd_sort_key_in(1) [OF ne] cur have cin: "cur \<in> set openSet" by simp
  from inv have sync: "\<forall>e \<in> set openSet. gScore (fst e) = Some (enat (length (snd e) - 1))"
    and disj: "fst ` set openSet \<inter> closedSet = {}"
    unfolding astar_inv_def by simp_all
  from disj cin have "fst cur \<notin> closedSet" by blast
  from astar_frontier [OF inv this q] obtain e where e: "e \<in> set openSet"
    and le: "length (snd e) - 1 + hh goal (fst e) \<le> length q + hh goal (fst cur)"
    by blast
  from hd_sort_key_min [OF ne e, of "fScore gScore goal"] cur
  have "fScore gScore goal cur \<le> fScore gScore goal e" by simp
  with sync cin e
  have "enat (length (snd cur) - 1 + hh goal (fst cur)) \<le> enat (length (snd e) - 1 + hh goal (fst e))"
    by (simp add: fScore_sync)
  then have "length (snd cur) - 1 + hh goal (fst cur) \<le> length (snd e) - 1 + hh goal (fst e)"
    by simp
  with le show ?thesis by linarith
qed

lemma set_first_distinct:
  assumes "distinct (map fst es)" and "(k, w) \<in> set es"
  shows "set (set_first es k v) = insert (k, v) (set es - {(k, w)})"
  using assms
proof (induction es)
  case Nil
  then show ?case by simp
next
  case (Cons e es)
  show ?case
  proof (cases "fst e = k")
    case True
    have "e = (k, w)"
    proof (rule ccontr)
      assume ne: "e \<noteq> (k, w)"
      with Cons.prems(2) have "(k, w) \<in> set es" by simp
      then have "k \<in> fst ` set es" by force
      with Cons.prems(1) True show False by simp
    qed
    moreover from Cons.prems(1) have "e \<notin> set es" by (cases e) force
    ultimately show ?thesis using True by auto
  next
    case False
    with Cons.prems have d: "distinct (map fst es)" and m: "(k, w) \<in> set es" by auto
    from False have "e \<noteq> (k, w)" by auto
    with Cons.IH [OF d m] False show ?thesis by auto
  qed
qed

lemma tentative_sync:
  assumes "gScore c = Some (enat (l - 1))" and "1 \<le> l"
  shows "gGet gScore c + 1 = enat l"
  using assms by (simp add: gGet_def one_enat_def)

lemma astar_inv_new:
  assumes inv: "astar_inv maze W H start goal [cur] openSet closedSet gScore"
    and nc: "n \<notin> closedSet" and no: "n \<notin> fst ` set openSet"
    and mv: "legal_move maze W H (fst cur) n"
  shows "astar_inv maze W H start goal [cur] (openSet @ [(n, snd cur @ [n])]) closedSet
           (gScore(n \<mapsto> gGet gScore (fst cur) + 1))"
proof -
  let ?new = "(n, snd cur @ [n])"
  let ?g = "gScore(n \<mapsto> gGet gScore (fst cur) + 1)"
  from inv have a1: "\<forall>e \<in> set (cur # openSet). good_path maze W H start closedSet e \<and>
        gScore (fst e) = Some (enat (length (snd e) - 1))"
    and a2: "distinct (map fst (cur # openSet))"
    and a3: "fst ` set openSet \<inter> closedSet = {}"
    and a3': "fst cur \<in> closedSet"
    and a4: "\<forall>c \<in> closedSet. \<exists>k. gScore c = Some (enat k) \<and>
        (\<forall>q. route maze W H start q c \<longrightarrow> k \<le> length q)"
    and a5: "\<forall>c \<in> closedSet - {fst cur}. \<forall>k u. gScore c = Some (enat k) \<longrightarrow>
        legal_move maze W H c u \<longrightarrow>
        u \<in> closedSet \<or> (\<exists>e \<in> set openSet. fst e = u \<and> length (snd e) \<le> k + 2)"
    and a6: "start \<in> closedSet \<union> fst ` set openSet"
    and a7: "goal \<notin> closedSet"
    unfolding astar_inv_def by simp_all
  from a1 have gc: "good_path maze W H start closedSet cur"
    and sc: "gScore (fst cur) = Some (enat (length (snd cur) - 1))" by simp_all
  from good_path_length [OF gc] have l1: "1 \<le> length (snd cur)" .
  from sc l1 have t: "gGet gScore (fst cur) + 1 = enat (length (snd cur))"
    by (rule tentative_sync)
  from gc a3' mv nc have gnew: "good_path maze W H start closedSet ?new"
    by (rule good_path_extend)
  from a3' nc have ncur: "n \<noteq> fst cur" by auto
  have b1: "\<forall>e \<in> set ([cur] @ openSet @ [?new]). good_path maze W H start closedSet e \<and>
        ?g (fst e) = Some (enat (length (snd e) - 1))"
  proof
    fix e assume "e \<in> set ([cur] @ openSet @ [?new])"
    then consider "e = ?new" | "e \<in> set (cur # openSet)" by auto
    then show "good_path maze W H start closedSet e \<and> ?g (fst e) = Some (enat (length (snd e) - 1))"
    proof cases
      case 1
      with gnew t show ?thesis by simp
    next
      case 2
      with no ncur have "fst e \<noteq> n" by auto
      moreover from a1 2 have "good_path maze W H start closedSet e \<and>
          gScore (fst e) = Some (enat (length (snd e) - 1))" by blast
      ultimately show ?thesis by simp
    qed
  qed
  have b2: "distinct (map fst ([cur] @ openSet @ [?new]))"
    using a2 no ncur by auto
  have b3: "fst ` set (openSet @ [?new]) \<inter> closedSet = {}"
    using a3 nc by auto
  have b3': "fst ` set [cur] \<subseteq> closedSet" using a3' by simp
  have b4: "\<forall>c \<in> closedSet. \<exists>k. ?g c = Some (enat k) \<and>
        (\<forall>q. route maze W H start q c \<longrightarrow> k \<le> length q)"
  proof
    fix c assume c: "c \<in> closedSet"
    with nc have "c \<noteq> n" by auto
    with a4 c show "\<exists>k. ?g c = Some (enat k) \<and> (\<forall>q. route maze W H start q c \<longrightarrow> k \<le> length q)"
      by simp
  qed
  have b5: "\<forall>c \<in> closedSet - fst ` set [cur]. \<forall>k u. ?g c = Some (enat k) \<longrightarrow>
        legal_move maze W H c u \<longrightarrow>
        u \<in> closedSet \<or> (\<exists>e \<in> set (openSet @ [?new]). fst e = u \<and> length (snd e) \<le> k + 2)"
  proof (intro ballI allI impI)
    fix c k u assume c: "c \<in> closedSet - fst ` set [cur]" and k: "?g c = Some (enat k)"
      and m: "legal_move maze W H c u"
    from c nc have "c \<noteq> n" by auto
    with k have k': "gScore c = Some (enat k)" by simp
    from c have c': "c \<in> closedSet - {fst cur}" by simp
    from a5 c' k' m
    have "u \<in> closedSet \<or> (\<exists>e \<in> set openSet. fst e = u \<and> length (snd e) \<le> k + 2)"
      by blast
    then show "u \<in> closedSet \<or> (\<exists>e \<in> set (openSet @ [?new]). fst e = u \<and> length (snd e) \<le> k + 2)"
      by auto
  qed
  have b6: "start \<in> closedSet \<union> fst ` set (openSet @ [?new])" using a6 by auto
  show ?thesis unfolding astar_inv_def using b1 b2 b3 b3' b4 b5 b6 a7 by (intro conjI)
qed

lemma astar_inv_better:
  assumes inv: "astar_inv maze W H start goal [cur] openSet closedSet gScore"
    and nc: "n \<notin> closedSet" and old: "(n, w) \<in> set openSet"
    and mv: "legal_move maze W H (fst cur) n"
    and better: "gGet gScore (fst cur) + 1 < gGet gScore n"
  shows "astar_inv maze W H start goal [cur] (set_first openSet n (snd cur @ [n])) closedSet
           (gScore(n \<mapsto> gGet gScore (fst cur) + 1))
         \<and> length (snd cur @ [n]) \<le> length w"
proof -
  let ?new = "(n, snd cur @ [n])"
  let ?g = "gScore(n \<mapsto> gGet gScore (fst cur) + 1)"
  let ?open = "set_first openSet n (snd cur @ [n])"
  from inv have a1: "\<forall>e \<in> set (cur # openSet). good_path maze W H start closedSet e \<and>
        gScore (fst e) = Some (enat (length (snd e) - 1))"
    and a2: "distinct (map fst (cur # openSet))"
    and a3: "fst ` set openSet \<inter> closedSet = {}"
    and a3': "fst cur \<in> closedSet"
    and a4: "\<forall>c \<in> closedSet. \<exists>k. gScore c = Some (enat k) \<and>
        (\<forall>q. route maze W H start q c \<longrightarrow> k \<le> length q)"
    and a5: "\<forall>c \<in> closedSet - {fst cur}. \<forall>k u. gScore c = Some (enat k) \<longrightarrow>
        legal_move maze W H c u \<longrightarrow>
        u \<in> closedSet \<or> (\<exists>e \<in> set openSet. fst e = u \<and> length (snd e) \<le> k + 2)"
    and a6: "start \<in> closedSet \<union> fst ` set openSet"
    and a7: "goal \<notin> closedSet"
    unfolding astar_inv_def by simp_all
  from a1 have gc: "good_path maze W H start closedSet cur"
    and sc: "gScore (fst cur) = Some (enat (length (snd cur) - 1))" by simp_all
  from good_path_length [OF gc] have l1: "1 \<le> length (snd cur)" .
  from sc l1 have t: "gGet gScore (fst cur) + 1 = enat (length (snd cur))"
    by (rule tentative_sync)
  from gc a3' mv nc have gnew: "good_path maze W H start closedSet ?new"
    by (rule good_path_extend)
  from a3' nc have ncur: "n \<noteq> fst cur" by auto
  from a2 have dopen: "distinct (map fst openSet)" by simp
  from a1 old have "gScore n = Some (enat (length w - 1))" by force
  with better t have "length (snd cur) < length w - 1" by (simp add: gGet_def)
  then have shorter: "length (snd cur @ [n]) \<le> length w" by simp
  have sopen: "set ?open = insert ?new (set openSet - {(n, w)})"
    using dopen old by (rule set_first_distinct)
  from old have nin: "n \<in> fst ` set openSet" by force
  have mopen: "map fst ?open = map fst openSet"
    using nin by (rule map_fst_set_first)
  then have copen: "fst ` set ?open = fst ` set openSet" by (metis set_map)
  have others: "fst e \<noteq> n" if "e \<in> set openSet - {(n, w)}" for e
  proof
    assume "fst e = n"
    then have "e = (n, snd e)" by (cases e) simp
    with that have "(n, snd e) \<in> set openSet" by simp
    from eq_key_imp_eq_value [OF dopen this old] \<open>e = (n, snd e)\<close> that show False by auto
  qed
  have b1: "\<forall>e \<in> set ([cur] @ ?open). good_path maze W H start closedSet e \<and>
        ?g (fst e) = Some (enat (length (snd e) - 1))"
  proof
    fix e assume "e \<in> set ([cur] @ ?open)"
    with sopen consider "e = ?new" | "e = cur" | "e \<in> set openSet - {(n, w)}" by auto
    then show "good_path maze W H start closedSet e \<and> ?g (fst e) = Some (enat (length (snd e) - 1))"
    proof cases
      case 1
      with gnew t show ?thesis by simp
    next
      case 2
      with a1 ncur show ?thesis by simp
    next
      case 3
      with others have "fst e \<noteq> n" by simp
      moreover from 3 have "e \<in> set (cur # openSet)" by simp
      with a1 have "good_path maze W H start closedSet e \<and>
          gScore (fst e) = Some (enat (length (snd e) - 1))" by blast
      ultimately show ?thesis by simp
    qed
  qed
  have b2: "distinct (map fst ([cur] @ ?open))"
    using a2 mopen by simp
  have b3: "fst ` set ?open \<inter> closedSet = {}"
    using a3 copen by simp
  have b3': "fst ` set [cur] \<subseteq> closedSet" using a3' by simp
  have b4: "\<forall>c \<in> closedSet. \<exists>k. ?g c = Some (enat k) \<and>
        (\<forall>q. route maze W H start q c \<longrightarrow> k \<le> length q)"
  proof
    fix c assume c: "c \<in> closedSet"
    with nc have "c \<noteq> n" by auto
    with a4 c show "\<exists>k. ?g c = Some (enat k) \<and> (\<forall>q. route maze W H start q c \<longrightarrow> k \<le> length q)"
      by simp
  qed
  have b5: "\<forall>c \<in> closedSet - fst ` set [cur]. \<forall>k u. ?g c = Some (enat k) \<longrightarrow>
        legal_move maze W H c u \<longrightarrow>
        u \<in> closedSet \<or> (\<exists>e \<in> set ?open. fst e = u \<and> length (snd e) \<le> k + 2)"
  proof (intro ballI allI impI)
    fix c k u assume c: "c \<in> closedSet - fst ` set [cur]" and k: "?g c = Some (enat k)"
      and m: "legal_move maze W H c u"
    from c nc have "c \<noteq> n" by auto
    with k have k': "gScore c = Some (enat k)" by simp
    from c have c': "c \<in> closedSet - {fst cur}" by simp
    from a5 c' k' m
    have "u \<in> closedSet \<or> (\<exists>e \<in> set openSet. fst e = u \<and> length (snd e) \<le> k + 2)"
      by blast
    then show "u \<in> closedSet \<or> (\<exists>e \<in> set ?open. fst e = u \<and> length (snd e) \<le> k + 2)"
    proof
      assume "u \<in> closedSet"
      then show ?thesis ..
    next
      assume "\<exists>e \<in> set openSet. fst e = u \<and> length (snd e) \<le> k + 2"
      then obtain e where e: "e \<in> set openSet" and fe: "fst e = u"
        and le: "length (snd e) \<le> k + 2" by blast
      show ?thesis
      proof (cases "e = (n, w)")
        case True
        with fe le shorter have "fst ?new = u \<and> length (snd ?new) \<le> k + 2" by simp
        moreover from sopen have "?new \<in> set ?open" by simp
        ultimately show ?thesis by blast
      next
        case False
        with e sopen have "e \<in> set ?open" by simp
        with fe le show ?thesis by blast
      qed
    qed
  qed
  have b6: "start \<in> closedSet \<union> fst ` set ?open" using a6 copen by simp
  have "astar_inv maze W H start goal [cur] ?open closedSet ?g"
    unfolding astar_inv_def using b1 b2 b3 b3' b4 b5 b6 a7 by (intro conjI)
  then show ?thesis using shorter by (rule conjI)
qed

lemma astar_neighbors_inv:
  assumes "set ds \<subseteq> set directions"
    and "astar_inv maze W H start goal [cur] openSet closedSet gScore"
    and "astar_neighbors maze W H cur closedSet ds (openSet, gScore) = Inr (openSet', gScore')"
  shows "astar_inv maze W H start goal [cur] openSet' closedSet gScore' \<and>
     (\<forall>e \<in> set openSet. \<exists>e' \<in> set openSet'. fst e' = fst e \<and> length (snd e') \<le> length (snd e)) \<and>
     (\<forall>d \<in> set ds. open_move maze W H (fst (fst cur)) (snd (fst cur)) d = Inr True \<longrightarrow>
        target (fst (fst cur)) (snd (fst cur)) d \<in> closedSet \<or>
        (\<exists>e \<in> set openSet'. fst e = target (fst (fst cur)) (snd (fst cur)) d \<and>
           length (snd e) \<le> length (snd cur) + 1))"
  using assms
proof (induction ds arbitrary: openSet gScore)
  case Nil
  from Nil.prems(3) have "openSet' = openSet" "gScore' = gScore"
    by (simp_all add: astar_neighbors.simps)
  with Nil.prems(2) show ?case by auto
next
  case (Cons d ds)
  from Cons.prems(3) obtain ok where
    ok: "open_move maze W H (fst (fst cur)) (snd (fst cur)) d = Inr ok"
    by (cases "open_move maze W H (fst (fst cur)) (snd (fst cur)) d")
       (simp_all add: astar_neighbors.simps)
  define n where "n = target (fst (fst cur)) (snd (fst cur)) d"
  define t where "t = gGet gScore (fst cur) + 1"
  note step = Cons.prems(3) [unfolded astar_neighbors.simps ok sum.case Let_def,
      folded n_def t_def]
  note inv = Cons.prems(2)
  from Cons.prems(1) have ds: "set ds \<subseteq> set directions" and d: "d \<in> set directions"
    by simp_all
  have mv: "legal_move maze W H (fst cur) n" if "ok"
  proof -
    from that ok d have "legal_move maze W H (fst (fst cur), snd (fst cur)) n"
      unfolding n_def by (intro open_move_legal) simp_all
    then show ?thesis by simp
  qed
  from inv have sync: "\<forall>e \<in> set (cur # openSet). good_path maze W H start closedSet e \<and>
        gScore (fst e) = Some (enat (length (snd e) - 1))"
    unfolding astar_inv_def by simp
  have "\<exists>open1 g1.
      astar_neighbors maze W H cur closedSet ds (open1, g1) = Inr (openSet', gScore') \<and>
      astar_inv maze W H start goal [cur] open1 closedSet g1 \<and>
      (\<forall>e \<in> set openSet. \<exists>e' \<in> set open1. fst e' = fst e \<and> length (snd e') \<le> length (snd e)) \<and>
      (ok \<longrightarrow> n \<in> closedSet \<or>
        (\<exists>e \<in> set open1. fst e = n \<and> length (snd e) \<le> length (snd cur) + 1))"
  proof -
    consider (skip) "\<not> ok \<or> n \<in> closedSet"
      | (new) "ok" "n \<notin> closedSet" "n \<notin> fst ` set openSet"
      | (better) "ok" "n \<notin> closedSet" "n \<in> fst ` set openSet" "t < gGet gScore n"
      | (worse) "ok" "n \<notin> closedSet" "n \<in> fst ` set openSet" "\<not> t < gGet gScore n"
      by blast
    then show ?thesis
    proof cases
      case skip
      with step
      have "astar_neighbors maze W H cur closedSet ds (openSet, gScore) = Inr (openSet', gScore')"
        by (simp split: if_splits)
      moreover have "\<forall>e \<in> set openSet. \<exists>e' \<in> set openSet. fst e' = fst e \<and>
          length (snd e') \<le> length (snd e)" by auto
      moreover from skip have "ok \<longrightarrow> n \<in> closedSet \<or>
        (\<exists>e \<in> set openSet. fst e = n \<and> length (snd e) \<le> length (snd cur) + 1)" by auto
      ultimately show ?thesis using inv by blast
    next
      case new
      with step
      have run: "astar_neighbors maze W H cur closedSet ds
          (openSet @ [(n, snd cur @ [n])], gScore(n \<mapsto> t)) = Inr (openSet', gScore')"
        by (simp add: find_None_coords)
      from astar_inv_new [OF inv new(2,3) mv [OF new(1)]]
      have inv1: "astar_inv maze W H start goal [cur] (openSet @ [(n, snd cur @ [n])]) closedSet
          (gScore(n \<mapsto> t))" by (simp only: t_def)
      have "\<forall>e \<in> set openSet. \<exists>e' \<in> set (openSet @ [(n, snd cur @ [n])]). fst e' = fst e \<and>
          length (snd e') \<le> length (snd e)" by auto
      moreover have "ok \<longrightarrow> n \<in> closedSet \<or>
        (\<exists>e \<in> set (openSet @ [(n, snd cur @ [n])]). fst e = n \<and>
           length (snd e) \<le> length (snd cur) + 1)" by auto
      ultimately show ?thesis using run inv1 by blast
    next
      case better
      from better(3) obtain e0 where "n = fst e0" "e0 \<in> set openSet" by (rule imageE)
      then obtain w where old: "(n, w) \<in> set openSet" by (cases e0) auto
      from better step
      have run: "astar_neighbors maze W H cur closedSet ds
          (set_first openSet n (snd cur @ [n]), gScore(n \<mapsto> t)) = Inr (openSet', gScore')"
        by (simp add: find_None_coords)
      from better(4) have b: "gGet gScore (fst cur) + 1 < gGet gScore n" by (simp only: t_def)
      from astar_inv_better [OF inv better(2) old mv [OF better(1)] b]
      have inv1: "astar_inv maze W H start goal [cur] (set_first openSet n (snd cur @ [n]))
          closedSet (gScore(n \<mapsto> t))"
        and shorter: "length (snd cur @ [n]) \<le> length w"
        by (simp_all only: t_def)
      from inv have dopen: "distinct (map fst openSet)" unfolding astar_inv_def by simp
      have sopen: "set (set_first openSet n (snd cur @ [n]))
          = insert (n, snd cur @ [n]) (set openSet - {(n, w)})"
        using dopen old by (rule set_first_distinct)
      have p: "\<forall>e \<in> set openSet. \<exists>e' \<in> set (set_first openSet n (snd cur @ [n])).
          fst e' = fst e \<and> length (snd e') \<le> length (snd e)"
      proof
        fix e assume e: "e \<in> set openSet"
        show "\<exists>e' \<in> set (set_first openSet n (snd cur @ [n])).
          fst e' = fst e \<and> length (snd e') \<le> length (snd e)"
        proof (cases "e = (n, w)")
          case True
          with shorter have "fst (n, snd cur @ [n]) = fst e \<and>
              length (snd (n, snd cur @ [n])) \<le> length (snd e)" by simp
          moreover from sopen have "(n, snd cur @ [n]) \<in> set (set_first openSet n (snd cur @ [n]))"
            by simp
          ultimately show ?thesis by blast
        next
          case False
          with e sopen have "e \<in> set (set_first openSet n (snd cur @ [n]))" by simp
          then show ?thesis by blast
        qed
      qed
      from sopen have "(n, snd cur @ [n]) \<in> set (set_first openSet n (snd cur @ [n]))" by simp
      moreover have "fst (n, snd cur @ [n]) = n \<and>
          length (snd (n, snd cur @ [n])) \<le> length (snd cur) + 1" by simp
      ultimately have "ok \<longrightarrow> n \<in> closedSet \<or>
        (\<exists>e \<in> set (set_first openSet n (snd cur @ [n])). fst e = n \<and>
           length (snd e) \<le> length (snd cur) + 1)" by blast
      with run inv1 p show ?thesis by blast
    next
      case worse
      from worse(3) obtain e0 where "n = fst e0" "e0 \<in> set openSet" by (rule imageE)
      then obtain w where old: "(n, w) \<in> set openSet" by (cases e0) auto
      from worse step
      have run: "astar_neighbors maze W H cur closedSet ds (openSet, gScore)
          = Inr (openSet', gScore')"
        by (simp add: find_None_coords)
      from sync have gc: "good_path maze W H start closedSet cur"
        and sc: "gScore (fst cur) = Some (enat (length (snd cur) - 1))" by simp_all
      from good_path_length [OF gc] have l1: "1 \<le> length (snd cur)" .
      from sc l1 have "gGet gScore (fst cur) + 1 = enat (length (snd cur))"
        by (rule tentative_sync)
      then have tt: "t = enat (length (snd cur))" by (simp only: t_def)
      from sync old have "gScore n = Some (enat (length w - 1))" by force
      with worse(4) tt have "length w - 1 \<le> length (snd cur)" by (simp add: gGet_def)
      then have "fst (n, w) = n \<and> length (snd (n, w)) \<le> length (snd cur) + 1" by simp
      with old have "ok \<longrightarrow> n \<in> closedSet \<or>
        (\<exists>e \<in> set openSet. fst e = n \<and> length (snd e) \<le> length (snd cur) + 1)" by blast
      moreover have "\<forall>e \<in> set openSet. \<exists>e' \<in> set openSet. fst e' = fst e \<and>
          length (snd e') \<le> length (snd e)" by auto
      ultimately show ?thesis using run inv by blast
    qed
  qed
  then obtain open1 g1 where
    run: "astar_neighbors maze W H cur closedSet ds (open1, g1) = Inr (openSet', gScore')"
    and inv1: "astar_inv maze W H start goal [cur] open1 closedSet g1"
    and p0: "\<forall>e \<in> set openSet. \<exists>e' \<in> set open1. fst e' = fst e \<and> length (snd e') \<le> length (snd e)"
    and c0: "ok \<longrightarrow> n \<in> closedSet \<or>
        (\<exists>e \<in> set open1. fst e = n \<and> length (snd e) \<le> length (snd cur) + 1)"
    by blast
  from Cons.IH [OF ds inv1 run]
  have inv': "astar_inv maze W H start goal [cur] openSet' closedSet gScore'"
    and p1: "\<forall>e \<in> set open1. \<exists>e' \<in> set openSet'. fst e' = fst e \<and> length (snd e') \<le> length (snd e)"
    and c1: "\<forall>d \<in> set ds. open_move maze W H (fst (fst cur)) (snd (fst cur)) d = Inr True \<longrightarrow>
        target (fst (fst cur)) (snd (fst cur)) d \<in> closedSet \<or>
        (\<exists>e \<in> set openSet'. fst e = target (fst (fst cur)) (snd (fst cur)) d \<and>
           length (snd e) \<le> length (snd cur) + 1)"
    by simp_all
  have p: "\<forall>e \<in> set openSet. \<exists>e' \<in> set openSet'. fst e' = fst e \<and> length (snd e') \<le> length (snd e)"
  proof
    fix e assume "e \<in> set openSet"
    with p0 obtain e1 where e1: "e1 \<in> set open1" "fst e1 = fst e" "length (snd e1) \<le> length (snd e)"
      by blast
    with p1 obtain e2 where "e2 \<in> set openSet'" "fst e2 = fst e1" "length (snd e2) \<le> length (snd e1)"
      by blast
    with e1 have "e2 \<in> set openSet' \<and> fst e2 = fst e \<and> length (snd e2) \<le> length (snd e)"
      by simp
    then show "\<exists>e' \<in> set openSet'. fst e' = fst e \<and> length (snd e') \<le> length (snd e)" by blast
  qed
  have cd: "open_move maze W H (fst (fst cur)) (snd (fst cur)) d = Inr True \<longrightarrow>
        n \<in> closedSet \<or> (\<exists>e \<in> set openSet'. fst e = n \<and> length (snd e) \<le> length (snd cur) + 1)"
  proof
    assume "open_move maze W H (fst (fst cur)) (snd (fst cur)) d = Inr True"
    with ok have "ok" by simp
    with c0 consider "n \<in> closedSet"
      | e1 where "e1 \<in> set open1" "fst e1 = n" "length (snd e1) \<le> length (snd cur) + 1"
      by blast
    then show "n \<in> closedSet \<or>
        (\<exists>e \<in> set openSet'. fst e = n \<and> length (snd e) \<le> length (snd cur) + 1)"
    proof cases
      case 1
      then show ?thesis ..
    next
      case 2
      with p1 obtain e2 where "e2 \<in> set openSet'" "fst e2 = fst e1"
        "length (snd e2) \<le> length (snd e1)" by blast
      with 2 have "e2 \<in> set openSet' \<and> fst e2 = n \<and> length (snd e2) \<le> length (snd cur) + 1"
        by simp
      then show ?thesis by blast
    qed
  qed
  have c: "\<forall>d' \<in> set (d # ds).
      open_move maze W H (fst (fst cur)) (snd (fst cur)) d' = Inr True \<longrightarrow>
        target (fst (fst cur)) (snd (fst cur)) d' \<in> closedSet \<or>
        (\<exists>e \<in> set openSet'. fst e = target (fst (fst cur)) (snd (fst cur)) d' \<and>
           length (snd e) \<le> length (snd cur) + 1)"
  proof
    fix d' assume "d' \<in> set (d # ds)"
    then have "d' = d \<or> d' \<in> set ds" by simp
    then show "open_move maze W H (fst (fst cur)) (snd (fst cur)) d' = Inr True \<longrightarrow>
        target (fst (fst cur)) (snd (fst cur)) d' \<in> closedSet \<or>
        (\<exists>e \<in> set openSet'. fst e = target (fst (fst cur)) (snd (fst cur)) d' \<and>
           length (snd e) \<le> length (snd cur) + 1)"
    proof
      assume "d' = d"
      with cd show ?thesis by (simp only: n_def)
    next
      assume "d' \<in> set ds"
      with c1 show ?thesis by blast
    qed
  qed
  from inv' p c show ?case by (intro conjI)
qed

lemma pop_sorted:
  assumes "xs \<noteq> []"
  shows "set (hd (sort_key f xs) # tl (sort_key f xs)) = set xs"
    and "distinct (map fst xs) \<Longrightarrow> distinct (map fst (hd (sort_key f xs) # tl (sort_key f xs)))"
proof -
  define ys where "ys = sort_key f xs"
  have len: "length ys = length xs" by (simp add: ys_def)
  have st: "set ys = set xs" by (simp add: ys_def)
  from assms len obtain a as where ys: "ys = a # as" by (cases ys) auto
  then have h: "hd ys # tl ys = ys" by simp
  show "set (hd (sort_key f xs) # tl (sort_key f xs)) = set xs"
    unfolding ys_def [symmetric] h by (rule st)
  assume "distinct (map fst xs)"
  then have "distinct xs" and "inj_on fst (set xs)" by (simp_all add: distinct_map)
  then have "distinct ys" and "inj_on fst (set ys)" by (simp_all add: ys_def)
  then have "distinct (map fst ys)" by (simp add: distinct_map)
  then show "distinct (map fst (hd (sort_key f xs) # tl (sort_key f xs)))"
    unfolding ys_def [symmetric] h .
qed

lemma astar_inv_pop:
  assumes inv: "astar_inv maze W H start goal [] openSet closedSet gScore"
    and ne: "openSet \<noteq> []"
    and cur: "cur = hd (sort_key (fScore gScore goal) openSet)"
    and rest: "rest = tl (sort_key (fScore gScore goal) openSet)"
    and ng: "fst cur \<noteq> goal"
  shows "astar_inv maze W H start goal [cur] rest (insert (fst cur) closedSet) gScore"
proof -
  from inv have a1: "\<forall>e \<in> set openSet. good_path maze W H start closedSet e \<and>
        gScore (fst e) = Some (enat (length (snd e) - 1))"
    and a2: "distinct (map fst openSet)"
    and a3: "fst ` set openSet \<inter> closedSet = {}"
    and a4: "\<forall>c \<in> closedSet. \<exists>k. gScore c = Some (enat k) \<and>
        (\<forall>q. route maze W H start q c \<longrightarrow> k \<le> length q)"
    and a5: "\<forall>c \<in> closedSet. \<forall>k u. gScore c = Some (enat k) \<longrightarrow>
        legal_move maze W H c u \<longrightarrow>
        u \<in> closedSet \<or> (\<exists>e \<in> set openSet. fst e = u \<and> length (snd e) \<le> k + 2)"
    and a6: "start \<in> closedSet \<union> fst ` set openSet"
    and a7: "goal \<notin> closedSet"
    unfolding astar_inv_def by simp_all
  have st: "set (cur # rest) = set openSet"
    unfolding cur rest by (rule pop_sorted(1) [OF ne])
  have di: "distinct (map fst (cur # rest))"
    unfolding cur rest using a2 by (rule pop_sorted(2) [OF ne])
  from st have cin: "cur \<in> set openSet" and rsub: "set rest \<subseteq> set openSet" by auto
  have b1: "\<forall>e \<in> set ([cur] @ rest). good_path maze W H start (insert (fst cur) closedSet) e \<and>
        gScore (fst e) = Some (enat (length (snd e) - 1))"
  proof
    fix e assume "e \<in> set ([cur] @ rest)"
    with st have "e \<in> set openSet" by auto
    with a1 have g: "good_path maze W H start closedSet e"
      and s: "gScore (fst e) = Some (enat (length (snd e) - 1))" by simp_all
    from g have "good_path maze W H start (insert (fst cur) closedSet) e"
      by (rule good_path_mono) auto
    with s show "good_path maze W H start (insert (fst cur) closedSet) e \<and>
        gScore (fst e) = Some (enat (length (snd e) - 1))" by simp
  qed
  from di have b2: "distinct (map fst ([cur] @ rest))" by simp
  have b3: "fst ` set rest \<inter> insert (fst cur) closedSet = {}"
    using di a3 rsub by auto
  have b3': "fst ` set [cur] \<subseteq> insert (fst cur) closedSet" by simp
  have b4: "\<forall>c \<in> insert (fst cur) closedSet. \<exists>k. gScore c = Some (enat k) \<and>
        (\<forall>q. route maze W H start q c \<longrightarrow> k \<le> length q)"
  proof
    fix c assume "c \<in> insert (fst cur) closedSet"
    then consider "c = fst cur" | "c \<in> closedSet" by auto
    then show "\<exists>k. gScore c = Some (enat k) \<and> (\<forall>q. route maze W H start q c \<longrightarrow> k \<le> length q)"
    proof cases
      case 1
      from a1 cin have "gScore (fst cur) = Some (enat (length (snd cur) - 1))" by simp
      moreover have "\<forall>q. route maze W H start q (fst cur) \<longrightarrow> length (snd cur) - 1 \<le> length q"
        using astar_pop_optimal [OF inv ne cur] by blast
      ultimately show ?thesis using 1 by blast
    next
      case 2
      with a4 show ?thesis by blast
    qed
  qed
  have b5: "\<forall>c \<in> insert (fst cur) closedSet - fst ` set [cur]. \<forall>k u.
        gScore c = Some (enat k) \<longrightarrow> legal_move maze W H c u \<longrightarrow>
        u \<in> insert (fst cur) closedSet \<or> (\<exists>e \<in> set rest. fst e = u \<and> length (snd e) \<le> k + 2)"
  proof (intro ballI allI impI)
    fix c k u assume c: "c \<in> insert (fst cur) closedSet - fst ` set [cur]"
      and k: "gScore c = Some (enat k)" and m: "legal_move maze W H c u"
    from c have "c \<in> closedSet" by auto
    with a5 k m consider "u \<in> closedSet"
      | e where "e \<in> set openSet" "fst e = u" "length (snd e) \<le> k + 2" by blast
    then show "u \<in> insert (fst cur) closedSet \<or>
        (\<exists>e \<in> set rest. fst e = u \<and> length (snd e) \<le> k + 2)"
    proof cases
      case 1
      then show ?thesis by simp
    next
      case 2
      from 2(1) st have "e = cur \<or> e \<in> set rest" by auto
      with 2 show ?thesis by auto
    qed
  qed
  have b6: "start \<in> insert (fst cur) closedSet \<union> fst ` set rest"
  proof -
    from st have "fst ` set openSet = insert (fst cur) (fst ` set rest)" by auto
    with a6 show ?thesis by auto
  qed
  from a7 ng have b7: "goal \<notin> insert (fst cur) closedSet" by auto
  show ?thesis unfolding astar_inv_def using b1 b2 b3 b3' b4 b5 b6 b7 by (intro conjI)
qed

lemma astar_inv_next:
  assumes inv: "astar_inv maze W H start goal [cur] openSet closedSet gScore"
    and all: "\<forall>u. legal_move maze W H (fst cur) u \<longrightarrow> u \<in> closedSet \<or>
        (\<exists>e \<in> set openSet. fst e = u \<and> length (snd e) \<le> length (snd cur) + 1)"
  shows "astar_inv maze W H start goal [] openSet closedSet gScore"
proof -
  from inv have a1: "\<forall>e \<in> set (cur # openSet). good_path maze W H start closedSet e \<and>
        gScore (fst e) = Some (enat (length (snd e) - 1))"
    and a2: "distinct (map fst (cur # openSet))"
    and a3: "fst ` set openSet \<inter> closedSet = {}"
    and a4: "\<forall>c \<in> closedSet. \<exists>k. gScore c = Some (enat k) \<and>
        (\<forall>q. route maze W H start q c \<longrightarrow> k \<le> length q)"
    and a5: "\<forall>c \<in> closedSet - {fst cur}. \<forall>k u. gScore c = Some (enat k) \<longrightarrow>
        legal_move maze W H c u \<longrightarrow>
        u \<in> closedSet \<or> (\<exists>e \<in> set openSet. fst e = u \<and> length (snd e) \<le> k + 2)"
    and a6: "start \<in> closedSet \<union> fst ` set openSet"
    and a7: "goal \<notin> closedSet"
    unfolding astar_inv_def by simp_all
  from a1 have gc: "good_path maze W H start closedSet cur"
    and sc: "gScore (fst cur) = Some (enat (length (snd cur) - 1))" by simp_all
  from good_path_length [OF gc] have l1: "1 \<le> length (snd cur)" .
  from a1 have b1: "\<forall>e \<in> set ([] @ openSet). good_path maze W H start closedSet e \<and>
        gScore (fst e) = Some (enat (length (snd e) - 1))" by simp
  from a2 have b2: "distinct (map fst ([] @ openSet))" by simp
  have b3': "fst ` set ([] :: SearchNode list) \<subseteq> closedSet" by simp
  have b5: "\<forall>c \<in> closedSet - fst ` set ([] :: SearchNode list). \<forall>k u.
        gScore c = Some (enat k) \<longrightarrow> legal_move maze W H c u \<longrightarrow>
        u \<in> closedSet \<or> (\<exists>e \<in> set openSet. fst e = u \<and> length (snd e) \<le> k + 2)"
  proof (intro ballI allI impI)
    fix c k u assume c: "c \<in> closedSet - fst ` set ([] :: SearchNode list)"
      and k: "gScore c = Some (enat k)" and m: "legal_move maze W H c u"
    show "u \<in> closedSet \<or> (\<exists>e \<in> set openSet. fst e = u \<and> length (snd e) \<le> k + 2)"
    proof (cases "c = fst cur")
      case True
      with k sc have kk: "k = length (snd cur) - 1" by simp
      from all m True consider "u \<in> closedSet"
        | e where "e \<in> set openSet" "fst e = u" "length (snd e) \<le> length (snd cur) + 1"
        by blast
      then show ?thesis
      proof cases
        case 1
        then show ?thesis ..
      next
        case 2
        from 2(3) kk l1 have "length (snd e) \<le> k + 2" by simp
        with 2 show ?thesis by blast
      qed
    next
      case False
      with c have "c \<in> closedSet - {fst cur}" by simp
      with a5 k m show ?thesis by blast
    qed
  qed
  show ?thesis unfolding astar_inv_def using b1 b2 a3 b3' a4 b5 a6 a7 by (intro conjI)
qed

lemma astar_loop_optimal:
  assumes "astar_inv maze W H start goal [] openSet closedSet gScore"
    and "reachable maze W H start goal"
    and "astar_loop maze W H goal openSet closedSet gScore = Inr r"
  shows "route maze W H start r goal \<and> (\<forall>q. route maze W H start q goal \<longrightarrow> length r \<le> length q)"
  using assms
proof (induction maze W H goal openSet closedSet gScore rule: astar_loop.induct)
  case (1 maze W H goal openSet closedSet gScore)
  note inv = "1.prems"(1) and reach = "1.prems"(2) and res = "1.prems"(3)
  show ?case
  proof (cases "openSet = []")
    case True
    from inv True have clos: "\<forall>c \<in> closedSet. \<forall>u. legal_move maze W H c u \<longrightarrow> u \<in> closedSet"
    proof -
      from inv have a4: "\<forall>c \<in> closedSet. \<exists>k. gScore c = Some (enat k) \<and>
          (\<forall>q. route maze W H start q c \<longrightarrow> k \<le> length q)"
        and a5: "\<forall>c \<in> closedSet. \<forall>k u. gScore c = Some (enat k) \<longrightarrow>
          legal_move maze W H c u \<longrightarrow>
          u \<in> closedSet \<or> (\<exists>e \<in> set openSet. fst e = u \<and> length (snd e) \<le> k + 2)"
        unfolding astar_inv_def by simp_all
      show ?thesis
      proof (intro ballI allI impI)
        fix c u assume c: "c \<in> closedSet" and m: "legal_move maze W H c u"
        from a4 c obtain k where "gScore c = Some (enat k)" by blast
        with a5 c m True show "u \<in> closedSet" by fastforce
      qed
    qed
    from inv True have st: "start \<in> closedSet" and gl: "goal \<notin> closedSet"
      unfolding astar_inv_def by simp_all
    from reach obtain p where "route maze W H start p goal"
      by (auto simp: reachable_def)
    from closed_set_reach [OF clos this st] gl show ?thesis by simp
  next
    case ne: False
    define sorted where "sorted = sort_key (fScore gScore goal) openSet"
    define cur where "cur = hd sorted"
    define rest where "rest = tl sorted"
    have cur': "cur = hd (sort_key (fScore gScore goal) openSet)"
      and rest': "rest = tl (sort_key (fScore gScore goal) openSet)"
      by (simp_all add: cur_def rest_def sorted_def)
    from hd_sort_key_in(1) [OF ne] have cur_in: "cur \<in> set openSet"
      by (simp add: cur')
    note res' = res [unfolded astar_loop.simps [of maze W H goal openSet], unfolded Let_def,
        folded sorted_def, folded cur_def rest_def]
    show ?thesis
    proof (cases "fst cur = goal")
      case True
      with ne res' have r: "r = tl (snd cur)" by simp
      from inv cur_in have gp: "good_path maze W H start closedSet cur"
        unfolding astar_inv_def by simp
      then obtain p where p: "snd cur = start # p" and rt: "route maze W H start p (fst cur)"
        unfolding good_path_def by blast
      from p r have rp: "r = p" by simp
      have "\<forall>q. route maze W H start q goal \<longrightarrow> length r \<le> length q"
      proof (intro allI impI)
        fix q assume "route maze W H start q goal"
        with True have "route maze W H start q (fst cur)" by simp
        from astar_pop_optimal [OF inv ne cur' this] p rp show "length r \<le> length q" by simp
      qed
      with rt rp True show ?thesis by simp
    next
      case ng: False
      from ne ng res' obtain st where
        push: "astar_neighbors maze W H cur (insert (fst cur) closedSet) directions
                 (rest, gScore) = Inr st"
        and run: "astar_loop maze W H goal (fst st) (insert (fst cur) closedSet) (snd st) = Inr r"
        by (auto split: sum.splits)
      from push have push': "astar_neighbors maze W H cur (insert (fst cur) closedSet)
          directions (rest, gScore) = Inr (fst st, snd st)" by simp
      from astar_inv_pop [OF inv ne cur' rest' ng]
      have inv1: "astar_inv maze W H start goal [cur] rest (insert (fst cur) closedSet) gScore" .
      have "set directions \<subseteq> set directions" by simp
      from astar_neighbors_inv [OF this inv1 push']
      have inv2: "astar_inv maze W H start goal [cur] (fst st) (insert (fst cur) closedSet) (snd st)"
        and t: "\<forall>d \<in> set directions.
          open_move maze W H (fst (fst cur)) (snd (fst cur)) d = Inr True \<longrightarrow>
          target (fst (fst cur)) (snd (fst cur)) d \<in> insert (fst cur) closedSet \<or>
          (\<exists>e \<in> set (fst st). fst e = target (fst (fst cur)) (snd (fst cur)) d \<and>
             length (snd e) \<le> length (snd cur) + 1)"
        by simp_all
      have "\<forall>u. legal_move maze W H (fst cur) u \<longrightarrow> u \<in> insert (fst cur) closedSet \<or>
          (\<exists>e \<in> set (fst st). fst e = u \<and> length (snd e) \<le> length (snd cur) + 1)"
      proof (intro allI impI)
        fix u assume "legal_move maze W H (fst cur) u"
        then have "legal_move maze W H (fst (fst cur), snd (fst cur)) u" by simp
        from legal_move_open [OF this] obtain d where "d \<in> set directions"
          "target (fst (fst cur)) (snd (fst cur)) d = u"
          "open_move maze W H (fst (fst cur)) (snd (fst cur)) d = Inr True" by blast
        with t show "u \<in> insert (fst cur) closedSet \<or>
          (\<exists>e \<in> set (fst st). fst e = u \<and> length (snd e) \<le> length (snd cur) + 1)"
          by blast
      qed
      from astar_inv_next [OF inv2 this]
      have "astar_inv maze W H start goal [] (fst st) (insert (fst cur) closedSet) (snd st)" .
      from "1.IH" [OF ne sorted_def cur_def rest_def ng push this reach run] show ?thesis .
    qed
  qed
qed

section \<open>The exploration variant of the A* search\<close>

definition explore_inv :: "maze \<Rightarrow> int \<Rightarrow> int \<Rightarrow> coord \<Rightarrow> coord \<Rightarrow> AStarExploreSearchNode list
    \<Rightarrow> AStarExploreSearchNode list \<Rightarrow> coord set \<Rightarrow> coord list
    \<Rightarrow> (coord \<rightharpoonup> nat) \<Rightarrow> (coord \<rightharpoonup> coord) \<Rightarrow> bool" where
  "explore_inv maze W H start goal X openSet inClosed expl gScore cameFrom \<longleftrightarrow>
     (\<forall>e \<in> set (X @ openSet). gScore (fst e) = Some (snd e) \<and>
        (\<exists>q. route maze W H start q (fst e) \<and> length q = snd e)) \<and>
     distinct (map fst (X @ openSet)) \<and>
     fst ` set openSet \<inter> inClosed = {} \<and>
     fst ` set X \<subseteq> inClosed \<and>
     (\<forall>c \<in> inClosed. \<exists>k. gScore c = Some k \<and>
        (\<exists>q. route maze W H start q c \<and> length q = k) \<and>
        (\<forall>q. route maze W H start q c \<longrightarrow> k \<le> length q)) \<and>
     (\<forall>c \<in> inClosed - fst ` set X. \<forall>k u. gScore c = Some k \<longrightarrow>
        legal_move maze W H c u \<longrightarrow>
        u \<in> inClosed \<or> (\<exists>e \<in> set openSet. fst e = u \<and> snd e \<le> k + 1)) \<and>
     start \<in> inClosed \<union> fst ` set openSet \<and>
     gScore start = Some 0 \<and>
     goal \<notin> inClosed \<and>
     dom gScore \<subseteq> inClosed \<union> fst ` set openSet \<and>
     (\<forall>n k. n \<noteq> start \<longrightarrow> gScore n = Some k \<longrightarrow>
        (\<exists>c kc. cameFrom n = Some c \<and> c \<in> inClosed \<and> gScore c = Some kc \<and> k = kc + 1)) \<and>
     distinct expl \<and> set expl = inClosed - {start}"

lemma explore_invD:
  assumes "explore_inv maze W H start goal X openSet inClosed expl gScore cameFrom"
  shows "\<forall>e \<in> set (X @ openSet). gScore (fst e) = Some (snd e) \<and>
        (\<exists>q. route maze W H start q (fst e) \<and> length q = snd e)"
    and "distinct (map fst (X @ openSet))"
    and "fst ` set openSet \<inter> inClosed = {}"
    and "fst ` set X \<subseteq> inClosed"
    and "\<forall>c \<in> inClosed. \<exists>k. gScore c = Some k \<and>
        (\<exists>q. route maze W H start q c \<and> length q = k) \<and>
        (\<forall>q. route maze W H start q c \<longrightarrow> k \<le> length q)"
    and "\<forall>c \<in> inClosed - fst ` set X. \<forall>k u. gScore c = Some k \<longrightarrow>
        legal_move maze W H c u \<longrightarrow>
        u \<in> inClosed \<or> (\<exists>e \<in> set openSet. fst e = u \<and> snd e \<le> k + 1)"
    and "start \<in> inClosed \<union> fst ` set openSet"
    and "gScore start = Some 0"
    and "goal \<notin> inClosed"
    and "dom gScore \<subseteq> inClosed \<union> fst ` set openSet"
    and "\<forall>n k. n \<noteq> start \<longrightarrow> gScore n = Some k \<longrightarrow>
        (\<exists>c kc. cameFrom n = Some c \<and> c \<in> inClosed \<and> gScore c = Some kc \<and> k = kc + 1)"
    and "distinct expl" and "set expl = inClosed - {start}"
  using assms unfolding explore_inv_def by simp_all

lemma explore_inv_new:
  assumes inv: "explore_inv maze W H start goal [cur] openSet inClosed expl gScore cameFrom"
    and nc: "n \<notin> inClosed" and no: "n \<notin> fst ` set openSet"
    and mv: "legal_move maze W H (fst cur) n"
  shows "explore_inv maze W H start goal [cur] (openSet @ [(n, snd cur + 1)]) inClosed expl
           (gScore(n \<mapsto> snd cur + 1)) (cameFrom(n \<mapsto> fst cur))"
proof -
  let ?new = "(n, snd cur + 1)"
  let ?g = "gScore(n \<mapsto> snd cur + 1)"
  let ?cf = "cameFrom(n \<mapsto> fst cur)"
  note a = explore_invD [OF inv]
  from a(1) have sc: "gScore (fst cur) = Some (snd cur)"
    and rc: "\<exists>q. route maze W H start q (fst cur) \<and> length q = snd cur" by simp_all
  from a(4) have cc: "fst cur \<in> inClosed" by simp
  with nc have ncur: "n \<noteq> fst cur" by auto
  from rc obtain q where q: "route maze W H start q (fst cur)" "length q = snd cur" by blast
  from route_snoc [OF q(1) mv] q(2)
  have rnew: "\<exists>q. route maze W H start q n \<and> length q = snd cur + 1"
    by (intro exI [of _ "q @ [n]"]) simp
  have b1: "\<forall>e \<in> set ([cur] @ openSet @ [?new]). ?g (fst e) = Some (snd e) \<and>
        (\<exists>q. route maze W H start q (fst e) \<and> length q = snd e)"
  proof
    fix e assume "e \<in> set ([cur] @ openSet @ [?new])"
    then consider "e = ?new" | "e \<in> set ([cur] @ openSet)" by auto
    then show "?g (fst e) = Some (snd e) \<and>
        (\<exists>q. route maze W H start q (fst e) \<and> length q = snd e)"
    proof cases
      case 1
      with rnew show ?thesis by simp
    next
      case 2
      with no ncur have "fst e \<noteq> n" by auto
      moreover from a(1) 2 have "gScore (fst e) = Some (snd e) \<and>
        (\<exists>q. route maze W H start q (fst e) \<and> length q = snd e)" by blast
      ultimately show ?thesis by simp
    qed
  qed
  have b2: "distinct (map fst ([cur] @ openSet @ [?new]))"
    using a(2) no ncur by auto
  have b3: "fst ` set (openSet @ [?new]) \<inter> inClosed = {}"
    using a(3) nc by auto
  have b5: "\<forall>c \<in> inClosed. \<exists>k. ?g c = Some k \<and>
        (\<exists>q. route maze W H start q c \<and> length q = k) \<and>
        (\<forall>q. route maze W H start q c \<longrightarrow> k \<le> length q)"
  proof
    fix c assume c: "c \<in> inClosed"
    with nc have "c \<noteq> n" by auto
    with a(5) c show "\<exists>k. ?g c = Some k \<and>
        (\<exists>q. route maze W H start q c \<and> length q = k) \<and>
        (\<forall>q. route maze W H start q c \<longrightarrow> k \<le> length q)" by simp
  qed
  have b6: "\<forall>c \<in> inClosed - fst ` set [cur]. \<forall>k u. ?g c = Some k \<longrightarrow>
        legal_move maze W H c u \<longrightarrow>
        u \<in> inClosed \<or> (\<exists>e \<in> set (openSet @ [?new]). fst e = u \<and> snd e \<le> k + 1)"
  proof (intro ballI allI impI)
    fix c k u assume c: "c \<in> inClosed - fst ` set [cur]" and k: "?g c = Some k"
      and m: "legal_move maze W H c u"
    from c nc have "c \<noteq> n" by auto
    with k have k': "gScore c = Some k" by simp
    from a(6) c k' m
    have "u \<in> inClosed \<or> (\<exists>e \<in> set openSet. fst e = u \<and> snd e \<le> k + 1)" by blast
    then show "u \<in> inClosed \<or> (\<exists>e \<in> set (openSet @ [?new]). fst e = u \<and> snd e \<le> k + 1)"
      by auto
  qed
  have b7: "start \<in> inClosed \<union> fst ` set (openSet @ [?new])" using a(7) by auto
  have b8: "?g start = Some 0"
  proof (cases "n = start")
    case True
    with a(7) nc no show ?thesis by auto
  next
    case False
    with a(8) show ?thesis by simp
  qed
  have b10: "dom ?g \<subseteq> inClosed \<union> fst ` set (openSet @ [?new])" using a(10) by auto
  have b11: "\<forall>m k. m \<noteq> start \<longrightarrow> ?g m = Some k \<longrightarrow>
        (\<exists>c kc. ?cf m = Some c \<and> c \<in> inClosed \<and> ?g c = Some kc \<and> k = kc + 1)"
  proof (intro allI impI)
    fix m k assume ms: "m \<noteq> start" and k: "?g m = Some k"
    show "\<exists>c kc. ?cf m = Some c \<and> c \<in> inClosed \<and> ?g c = Some kc \<and> k = kc + 1"
    proof (cases "m = n")
      case True
      with k have "k = snd cur + 1" by simp
      moreover from True have "?cf m = Some (fst cur)" by simp
      moreover from sc ncur have "?g (fst cur) = Some (snd cur)" by simp
      ultimately show ?thesis using cc by blast
    next
      case False
      with k have "gScore m = Some k" by simp
      with a(11) ms obtain c kc where c: "cameFrom m = Some c" "c \<in> inClosed"
        "gScore c = Some kc" "k = kc + 1" by blast
      from c(2) nc have "c \<noteq> n" by auto
      with c False have "?cf m = Some c \<and> c \<in> inClosed \<and> ?g c = Some kc \<and> k = kc + 1"
        by simp
      then show ?thesis by blast
    qed
  qed
  show ?thesis unfolding explore_inv_def
    using b1 b2 b3 a(4) b5 b6 b7 b8 a(9) b10 b11 a(12) a(13) by (intro conjI)
qed

lemma explore_inv_update:
  assumes inv: "explore_inv maze W H start goal [cur] openSet inClosed expl gScore cameFrom"
    and nc: "n \<notin> inClosed" and old: "(n, w) \<in> set openSet"
    and mv: "legal_move maze W H (fst cur) n"
    and better: "snd cur + 1 < w"
  shows "explore_inv maze W H start goal [cur] (set_first openSet n (snd cur + 1)) inClosed expl
           (gScore(n \<mapsto> snd cur + 1)) (cameFrom(n \<mapsto> fst cur))"
proof -
  let ?new = "(n, snd cur + 1)"
  let ?g = "gScore(n \<mapsto> snd cur + 1)"
  let ?cf = "cameFrom(n \<mapsto> fst cur)"
  let ?open = "set_first openSet n (snd cur + 1)"
  note a = explore_invD [OF inv]
  from a(1) have sc: "gScore (fst cur) = Some (snd cur)"
    and rc: "\<exists>q. route maze W H start q (fst cur) \<and> length q = snd cur" by simp_all
  from a(4) have cc: "fst cur \<in> inClosed" by simp
  with nc have ncur: "n \<noteq> fst cur" by auto
  from rc obtain q where q: "route maze W H start q (fst cur)" "length q = snd cur" by blast
  from route_snoc [OF q(1) mv] q(2)
  have rnew: "\<exists>q. route maze W H start q n \<and> length q = snd cur + 1"
    by (intro exI [of _ "q @ [n]"]) simp
  from a(2) have dopen: "distinct (map fst openSet)" by simp
  have sopen: "set ?open = insert ?new (set openSet - {(n, w)})"
    using dopen old by (rule set_first_distinct)
  from old have nin: "n \<in> fst ` set openSet" by force
  have mopen: "map fst ?open = map fst openSet"
    using nin by (rule map_fst_set_first)
  then have copen: "fst ` set ?open = fst ` set openSet" by (metis set_map)
  have others: "fst e \<noteq> n" if "e \<in> set openSet - {(n, w)}" for e
  proof
    assume "fst e = n"
    then have "e = (n, snd e)" by (cases e) simp
    with that have "(n, snd e) \<in> set openSet" by simp
    from eq_key_imp_eq_value [OF dopen this old] \<open>e = (n, snd e)\<close> that show False by auto
  qed
  from a(8) a(1) old have nst: "n \<noteq> start"
  proof -
    from a(1) old have "gScore n = Some w" by force
    with a(8) better show ?thesis by auto
  qed
  have b1: "\<forall>e \<in> set ([cur] @ ?open). ?g (fst e) = Some (snd e) \<and>
        (\<exists>q. route maze W H start q (fst e) \<and> length q = snd e)"
  proof
    fix e assume "e \<in> set ([cur] @ ?open)"
    with sopen consider "e = ?new" | "e = cur" | "e \<in> set openSet - {(n, w)}" by auto
    then show "?g (fst e) = Some (snd e) \<and>
        (\<exists>q. route maze W H start q (fst e) \<and> length q = snd e)"
    proof cases
      case 1
      with rnew show ?thesis by simp
    next
      case 2
      with sc rc ncur show ?thesis by simp
    next
      case 3
      with others have "fst e \<noteq> n" by simp
      moreover from 3 have "e \<in> set ([cur] @ openSet)" by simp
      with a(1) have "gScore (fst e) = Some (snd e) \<and>
        (\<exists>q. route maze W H start q (fst e) \<and> length q = snd e)" by blast
      ultimately show ?thesis by simp
    qed
  qed
  have b2: "distinct (map fst ([cur] @ ?open))"
    using a(2) mopen by simp
  have b3: "fst ` set ?open \<inter> inClosed = {}"
    using a(3) copen by simp
  have b5: "\<forall>c \<in> inClosed. \<exists>k. ?g c = Some k \<and>
        (\<exists>q. route maze W H start q c \<and> length q = k) \<and>
        (\<forall>q. route maze W H start q c \<longrightarrow> k \<le> length q)"
  proof
    fix c assume c: "c \<in> inClosed"
    with nc have "c \<noteq> n" by auto
    with a(5) c show "\<exists>k. ?g c = Some k \<and>
        (\<exists>q. route maze W H start q c \<and> length q = k) \<and>
        (\<forall>q. route maze W H start q c \<longrightarrow> k \<le> length q)" by simp
  qed
  have b6: "\<forall>c \<in> inClosed - fst ` set [cur]. \<forall>k u. ?g c = Some k \<longrightarrow>
        legal_move maze W H c u \<longrightarrow>
        u \<in> inClosed \<or> (\<exists>e \<in> set ?open. fst e = u \<and> snd e \<le> k + 1)"
  proof (intro ballI allI impI)
    fix c k u assume c: "c \<in> inClosed - fst ` set [cur]" and k: "?g c = Some k"
      and m: "legal_move maze W H c u"
    from c nc have "c \<noteq> n" by auto
    with k have k': "gScore c = Some k" by simp
    from a(6) c k' m
    consider "u \<in> inClosed" | e where "e \<in> set openSet" "fst e = u" "snd e \<le> k + 1"
      by blast
    then show "u \<in> inClosed \<or> (\<exists>e \<in> set ?open. fst e = u \<and> snd e \<le> k + 1)"
    proof cases
      case 1
      then show ?thesis ..
    next
      case 2
      show ?thesis
      proof (cases "e = (n, w)")
        case True
        with 2 better have "fst ?new = u \<and> snd ?new \<le> k + 1" by simp
        moreover from sopen have "?new \<in> set ?open" by simp
        ultimately show ?thesis by blast
      next
        case False
        with 2 sopen have "e \<in> set ?open" by simp
        with 2 show ?thesis by blast
      qed
    qed
  qed
  have b7: "start \<in> inClosed \<union> fst ` set ?open" using a(7) copen by simp
  have b8: "?g start = Some 0" using a(8) nst by simp
  have b10: "dom ?g \<subseteq> inClosed \<union> fst ` set ?open" using a(10) copen nin by auto
  have b11: "\<forall>m k. m \<noteq> start \<longrightarrow> ?g m = Some k \<longrightarrow>
        (\<exists>c kc. ?cf m = Some c \<and> c \<in> inClosed \<and> ?g c = Some kc \<and> k = kc + 1)"
  proof (intro allI impI)
    fix m k assume ms: "m \<noteq> start" and k: "?g m = Some k"
    show "\<exists>c kc. ?cf m = Some c \<and> c \<in> inClosed \<and> ?g c = Some kc \<and> k = kc + 1"
    proof (cases "m = n")
      case True
      with k have "k = snd cur + 1" by simp
      moreover from True have "?cf m = Some (fst cur)" by simp
      moreover from sc ncur have "?g (fst cur) = Some (snd cur)" by simp
      ultimately show ?thesis using cc by blast
    next
      case False
      with k have "gScore m = Some k" by simp
      with a(11) ms obtain c kc where c: "cameFrom m = Some c" "c \<in> inClosed"
        "gScore c = Some kc" "k = kc + 1" by blast
      from c(2) nc have "c \<noteq> n" by auto
      with c False have "?cf m = Some c \<and> c \<in> inClosed \<and> ?g c = Some kc \<and> k = kc + 1"
        by simp
      then show ?thesis by blast
    qed
  qed
  show ?thesis unfolding explore_inv_def
    using b1 b2 b3 a(4) b5 b6 b7 b8 a(9) b10 b11 a(12) a(13) by (intro conjI)
qed

lemma fExplore_sync: "fExplore goal e = int (snd e + hh goal (fst e))"
  by (simp add: fExplore_def hh_def heuristic_def)

lemma explore_frontier:
  assumes inv: "explore_inv maze W H start goal [] openSet inClosed expl gScore cameFrom"
    and t: "t \<notin> inClosed"
    and q: "route maze W H start q t"
  shows "\<exists>e \<in> set openSet. snd e + hh goal (fst e) \<le> length q + hh goal t"
proof (cases "start \<in> inClosed")
  case False
  note a = explore_invD [OF inv]
  from a(7) False have "start \<in> fst ` set openSet" by blast
  then obtain e where fe: "start = fst e" and e: "e \<in> set openSet" by (rule imageE)
  from a(1) e have "gScore (fst e) = Some (snd e)" by simp
  with a(8) fe have "snd e = 0" by simp
  moreover from hh_route [OF q, of goal] fe have "hh goal (fst e) \<le> hh goal t + length q" by simp
  ultimately have "snd e + hh goal (fst e) \<le> length q + hh goal t" by simp
  with e show ?thesis by blast
next
  case True
  note a = explore_invD [OF inv]
  from first_exit [OF q True t] obtain p1 u p2 v where
    p: "q = p1 @ u # p2" and r1: "route maze W H start p1 v" and v: "v \<in> inClosed"
    and m: "legal_move maze W H v u" and u: "u \<notin> inClosed"
    and r2: "route maze W H u p2 t"
    by blast
  from a(5) v obtain k where k: "gScore v = Some k"
    and kopt: "\<forall>q. route maze W H start q v \<longrightarrow> k \<le> length q"
    by blast
  from a(6) have "\<forall>c \<in> inClosed. \<forall>k u. gScore c = Some k \<longrightarrow>
        legal_move maze W H c u \<longrightarrow>
        u \<in> inClosed \<or> (\<exists>e \<in> set openSet. fst e = u \<and> snd e \<le> k + 1)"
    by simp
  with v k m u obtain e where e: "e \<in> set openSet" and fe: "fst e = u"
    and le: "snd e \<le> k + 1"
    by blast
  from kopt r1 have "k \<le> length p1" by blast
  moreover from hh_route [OF r2, of goal] fe have "hh goal (fst e) \<le> hh goal t + length p2" by simp
  moreover from p have "length q = length p1 + 1 + length p2" by simp
  ultimately have "snd e + hh goal (fst e) \<le> length q + hh goal t"
    using le by linarith
  with e show ?thesis by blast
qed

lemma explore_pop_optimal:
  assumes inv: "explore_inv maze W H start goal [] openSet inClosed expl gScore cameFrom"
    and ne: "openSet \<noteq> []"
    and cur: "cur = hd (sort_key (fExplore goal) openSet)"
    and q: "route maze W H start q (fst cur)"
  shows "snd cur \<le> length q"
proof -
  note a = explore_invD [OF inv]
  from hd_sort_key_in(1) [OF ne] cur have cin: "cur \<in> set openSet" by simp
  from a(3) cin have "fst cur \<notin> inClosed" by blast
  from explore_frontier [OF inv this q] obtain e where e: "e \<in> set openSet"
    and le: "snd e + hh goal (fst e) \<le> length q + hh goal (fst cur)"
    by blast
  from hd_sort_key_min [OF ne e, of "fExplore goal"] cur
  have "fExplore goal cur \<le> fExplore goal e" by simp
  then have "snd cur + hh goal (fst cur) \<le> snd e + hh goal (fst e)"
    by (simp only: fExplore_sync of_nat_le_iff)
  with le show ?thesis by linarith
qed

lemma astarExplore_neighbors_inv:
  assumes "set ds \<subseteq> set directions"
    and "explore_inv maze W H start goal [cur] openSet inClosed expl gScore cameFrom"
    and "astarExplore_neighbors maze W H cur inClosed ds (openSet, gScore, cameFrom)
           = Inr (openSet', gScore', cameFrom')"
  shows "explore_inv maze W H start goal [cur] openSet' inClosed expl gScore' cameFrom' \<and>
     (\<forall>e \<in> set openSet. \<exists>e' \<in> set openSet'. fst e' = fst e \<and> snd e' \<le> snd e) \<and>
     (\<forall>d \<in> set ds. open_move maze W H (fst (fst cur)) (snd (fst cur)) d = Inr True \<longrightarrow>
        target (fst (fst cur)) (snd (fst cur)) d \<in> inClosed \<or>
        (\<exists>e \<in> set openSet'. fst e = target (fst (fst cur)) (snd (fst cur)) d \<and>
           snd e \<le> snd cur + 1))"
  using assms
proof (induction ds arbitrary: openSet gScore cameFrom)
  case Nil
  from Nil.prems(3) have "openSet' = openSet" "gScore' = gScore" "cameFrom' = cameFrom"
    by (simp_all add: astarExplore_neighbors.simps)
  with Nil.prems(2) show ?case by auto
next
  case (Cons d ds)
  from Cons.prems(3) obtain ok where
    ok: "open_move maze W H (fst (fst cur)) (snd (fst cur)) d = Inr ok"
    by (cases "open_move maze W H (fst (fst cur)) (snd (fst cur)) d")
       (simp_all add: astarExplore_neighbors.simps)
  define n where "n = target (fst (fst cur)) (snd (fst cur)) d"
  define t where "t = snd cur + 1"
  define better where "better = (case gScore n of None \<Rightarrow> True | Some v \<Rightarrow> t < v)"
  note step = Cons.prems(3) [unfolded astarExplore_neighbors.simps ok sum.case Let_def,
      folded n_def t_def, folded better_def]
  note inv = Cons.prems(2)
  note a = explore_invD [OF inv]
  from Cons.prems(1) have ds: "set ds \<subseteq> set directions" and d: "d \<in> set directions"
    by simp_all
  have mv: "legal_move maze W H (fst cur) n" if "ok"
  proof -
    from that ok d have "legal_move maze W H (fst (fst cur), snd (fst cur)) n"
      unfolding n_def by (intro open_move_legal) simp_all
    then show ?thesis by simp
  qed
  have "\<exists>open1 g1 cf1.
      astarExplore_neighbors maze W H cur inClosed ds (open1, g1, cf1)
        = Inr (openSet', gScore', cameFrom') \<and>
      explore_inv maze W H start goal [cur] open1 inClosed expl g1 cf1 \<and>
      (\<forall>e \<in> set openSet. \<exists>e' \<in> set open1. fst e' = fst e \<and> snd e' \<le> snd e) \<and>
      (ok \<longrightarrow> n \<in> inClosed \<or> (\<exists>e \<in> set open1. fst e = n \<and> snd e \<le> snd cur + 1))"
  proof -
    consider (skip) "\<not> ok \<or> n \<in> inClosed"
      | (worse) "ok" "n \<notin> inClosed" "\<not> better"
      | (new) "ok" "n \<notin> inClosed" "better" "n \<notin> fst ` set openSet"
      | (update) "ok" "n \<notin> inClosed" "better" "n \<in> fst ` set openSet"
      by blast
    then show ?thesis
    proof cases
      case skip
      with step
      have "astarExplore_neighbors maze W H cur inClosed ds (openSet, gScore, cameFrom)
          = Inr (openSet', gScore', cameFrom')"
        by (simp split: if_splits)
      moreover have "\<forall>e \<in> set openSet. \<exists>e' \<in> set openSet. fst e' = fst e \<and> snd e' \<le> snd e"
        by auto
      moreover from skip have "ok \<longrightarrow> n \<in> inClosed \<or>
        (\<exists>e \<in> set openSet. fst e = n \<and> snd e \<le> snd cur + 1)" by auto
      ultimately show ?thesis using inv by blast
    next
      case worse
      with step
      have run: "astarExplore_neighbors maze W H cur inClosed ds (openSet, gScore, cameFrom)
          = Inr (openSet', gScore', cameFrom')"
        by simp
      from worse(3) obtain v where v: "gScore n = Some v" and le: "\<not> t < v"
        unfolding better_def by (auto split: option.splits)
      from v a(10) worse(2) have "n \<in> fst ` set openSet" by auto
      then obtain e0 where e0: "n = fst e0" "e0 \<in> set openSet" by (rule imageE)
      with a(1) have "gScore n = Some (snd e0)" by simp
      with v le have "snd e0 \<le> snd cur + 1" by (simp add: t_def)
      with e0 have "ok \<longrightarrow> n \<in> inClosed \<or>
        (\<exists>e \<in> set openSet. fst e = n \<and> snd e \<le> snd cur + 1)" by auto
      moreover have "\<forall>e \<in> set openSet. \<exists>e' \<in> set openSet. fst e' = fst e \<and> snd e' \<le> snd e"
        by auto
      ultimately show ?thesis using run inv by blast
    next
      case new
      with step
      have run: "astarExplore_neighbors maze W H cur inClosed ds
          (openSet @ [(n, t)], gScore(n \<mapsto> t), cameFrom(n \<mapsto> fst cur))
          = Inr (openSet', gScore', cameFrom')"
        by (simp add: find_None_coords)
      from explore_inv_new [OF inv new(2,4) mv [OF new(1)]]
      have inv1: "explore_inv maze W H start goal [cur] (openSet @ [(n, t)]) inClosed expl
          (gScore(n \<mapsto> t)) (cameFrom(n \<mapsto> fst cur))" by (simp only: t_def)
      have "\<forall>e \<in> set openSet. \<exists>e' \<in> set (openSet @ [(n, t)]). fst e' = fst e \<and> snd e' \<le> snd e"
        by auto
      moreover have "ok \<longrightarrow> n \<in> inClosed \<or>
        (\<exists>e \<in> set (openSet @ [(n, t)]). fst e = n \<and> snd e \<le> snd cur + 1)"
        by (auto simp: t_def)
      ultimately show ?thesis using run inv1 by blast
    next
      case update
      from update(4) obtain e0 where e0: "n = fst e0" "e0 \<in> set openSet" by (rule imageE)
      then obtain w where old: "(n, w) \<in> set openSet" by (cases e0) auto
      with a(1) have gn: "gScore n = Some w" by force
      with update(3) have b: "snd cur + 1 < w" by (simp add: better_def t_def)
      from update step
      have run: "astarExplore_neighbors maze W H cur inClosed ds
          (set_first openSet n t, gScore(n \<mapsto> t), cameFrom(n \<mapsto> fst cur))
          = Inr (openSet', gScore', cameFrom')"
        by (simp add: find_None_coords)
      from explore_inv_update [OF inv update(2) old mv [OF update(1)] b]
      have inv1: "explore_inv maze W H start goal [cur] (set_first openSet n t) inClosed expl
          (gScore(n \<mapsto> t)) (cameFrom(n \<mapsto> fst cur))" by (simp only: t_def)
      from a(2) have dopen: "distinct (map fst openSet)" by simp
      have sopen: "set (set_first openSet n t) = insert (n, t) (set openSet - {(n, w)})"
        using dopen old by (rule set_first_distinct)
      have p: "\<forall>e \<in> set openSet. \<exists>e' \<in> set (set_first openSet n t).
          fst e' = fst e \<and> snd e' \<le> snd e"
      proof
        fix e assume e: "e \<in> set openSet"
        show "\<exists>e' \<in> set (set_first openSet n t). fst e' = fst e \<and> snd e' \<le> snd e"
        proof (cases "e = (n, w)")
          case True
          with b have "fst (n, t) = fst e \<and> snd (n, t) \<le> snd e" by (simp add: t_def)
          moreover from sopen have "(n, t) \<in> set (set_first openSet n t)" by simp
          ultimately show ?thesis by blast
        next
          case False
          with e sopen have "e \<in> set (set_first openSet n t)" by simp
          then show ?thesis by blast
        qed
      qed
      from sopen have "(n, t) \<in> set (set_first openSet n t)" by simp
      moreover have "fst (n, t) = n \<and> snd (n, t) \<le> snd cur + 1" by (simp add: t_def)
      ultimately have "ok \<longrightarrow> n \<in> inClosed \<or>
        (\<exists>e \<in> set (set_first openSet n t). fst e = n \<and> snd e \<le> snd cur + 1)" by blast
      with run inv1 p show ?thesis by blast
    qed
  qed
  then obtain open1 g1 cf1 where
    run: "astarExplore_neighbors maze W H cur inClosed ds (open1, g1, cf1)
        = Inr (openSet', gScore', cameFrom')"
    and inv1: "explore_inv maze W H start goal [cur] open1 inClosed expl g1 cf1"
    and p0: "\<forall>e \<in> set openSet. \<exists>e' \<in> set open1. fst e' = fst e \<and> snd e' \<le> snd e"
    and c0: "ok \<longrightarrow> n \<in> inClosed \<or> (\<exists>e \<in> set open1. fst e = n \<and> snd e \<le> snd cur + 1)"
    by blast
  from Cons.IH [OF ds inv1 run]
  have inv': "explore_inv maze W H start goal [cur] openSet' inClosed expl gScore' cameFrom'"
    and p1: "\<forall>e \<in> set open1. \<exists>e' \<in> set openSet'. fst e' = fst e \<and> snd e' \<le> snd e"
    and c1: "\<forall>d \<in> set ds. open_move maze W H (fst (fst cur)) (snd (fst cur)) d = Inr True \<longrightarrow>
        target (fst (fst cur)) (snd (fst cur)) d \<in> inClosed \<or>
        (\<exists>e \<in> set openSet'. fst e = target (fst (fst cur)) (snd (fst cur)) d \<and>
           snd e \<le> snd cur + 1)"
    by simp_all
  have p: "\<forall>e \<in> set openSet. \<exists>e' \<in> set openSet'. fst e' = fst e \<and> snd e' \<le> snd e"
  proof
    fix e assume "e \<in> set openSet"
    with p0 obtain e1 where e1: "e1 \<in> set open1" "fst e1 = fst e" "snd e1 \<le> snd e"
      by blast
    with p1 obtain e2 where "e2 \<in> set openSet'" "fst e2 = fst e1" "snd e2 \<le> snd e1"
      by blast
    with e1 have "e2 \<in> set openSet' \<and> fst e2 = fst e \<and> snd e2 \<le> snd e"
      by simp
    then show "\<exists>e' \<in> set openSet'. fst e' = fst e \<and> snd e' \<le> snd e" by blast
  qed
  have cd: "open_move maze W H (fst (fst cur)) (snd (fst cur)) d = Inr True \<longrightarrow>
        n \<in> inClosed \<or> (\<exists>e \<in> set openSet'. fst e = n \<and> snd e \<le> snd cur + 1)"
  proof
    assume "open_move maze W H (fst (fst cur)) (snd (fst cur)) d = Inr True"
    with ok have "ok" by simp
    with c0 consider "n \<in> inClosed"
      | e1 where "e1 \<in> set open1" "fst e1 = n" "snd e1 \<le> snd cur + 1"
      by blast
    then show "n \<in> inClosed \<or> (\<exists>e \<in> set openSet'. fst e = n \<and> snd e \<le> snd cur + 1)"
    proof cases
      case 1
      then show ?thesis ..
    next
      case 2
      with p1 obtain e2 where "e2 \<in> set openSet'" "fst e2 = fst e1" "snd e2 \<le> snd e1" by blast
      with 2 have "e2 \<in> set openSet' \<and> fst e2 = n \<and> snd e2 \<le> snd cur + 1"
        by simp
      then show ?thesis by blast
    qed
  qed
  have c: "\<forall>d' \<in> set (d # ds).
      open_move maze W H (fst (fst cur)) (snd (fst cur)) d' = Inr True \<longrightarrow>
        target (fst (fst cur)) (snd (fst cur)) d' \<in> inClosed \<or>
        (\<exists>e \<in> set openSet'. fst e = target (fst (fst cur)) (snd (fst cur)) d' \<and>
           snd e \<le> snd cur + 1)"
  proof
    fix d' assume "d' \<in> set (d # ds)"
    then have "d' = d \<or> d' \<in> set ds" by simp
    then show "open_move maze W H (fst (fst cur)) (snd (fst cur)) d' = Inr True \<longrightarrow>
        target (fst (fst cur)) (snd (fst cur)) d' \<in> inClosed \<or>
        (\<exists>e \<in> set openSet'. fst e = target (fst (fst cur)) (snd (fst cur)) d' \<and>
           snd e \<le> snd cur + 1)"
    proof
      assume "d' = d"
      with cd show ?thesis by (simp only: n_def)
    next
      assume "d' \<in> set ds"
      with c1 show ?thesis by blast
    qed
  qed
  from inv' p c show ?case by (intro conjI)
qed

lemma explore_inv_pop:
  assumes inv: "explore_inv maze W H start goal [] openSet inClosed expl gScore cameFrom"
    and ne: "openSet \<noteq> []"
    and cur: "cur = hd (sort_key (fExplore goal) openSet)"
    and rest: "rest = tl (sort_key (fExplore goal) openSet)"
    and ng: "fst cur \<noteq> goal"
  shows "explore_inv maze W H start goal [cur] rest (insert (fst cur) inClosed)
           (if fst cur \<noteq> start then expl @ [fst cur] else expl) gScore cameFrom"
proof -
  note a = explore_invD [OF inv]
  have st: "set (cur # rest) = set openSet"
    unfolding cur rest by (rule pop_sorted(1) [OF ne])
  from a(2) have d0: "distinct (map fst openSet)" by simp
  have di: "distinct (map fst (cur # rest))"
    unfolding cur rest using d0 by (rule pop_sorted(2) [OF ne])
  from st have cin: "cur \<in> set openSet" and rsub: "set rest \<subseteq> set openSet" by auto
  from a(3) cin have cnc: "fst cur \<notin> inClosed" by blast
  have b1: "\<forall>e \<in> set ([cur] @ rest). gScore (fst e) = Some (snd e) \<and>
        (\<exists>q. route maze W H start q (fst e) \<and> length q = snd e)"
  proof
    fix e assume "e \<in> set ([cur] @ rest)"
    with st have "e \<in> set ([] @ openSet)" by auto
    with a(1) show "gScore (fst e) = Some (snd e) \<and>
        (\<exists>q. route maze W H start q (fst e) \<and> length q = snd e)" by blast
  qed
  from di have b2: "distinct (map fst ([cur] @ rest))" by simp
  have b3: "fst ` set rest \<inter> insert (fst cur) inClosed = {}"
    using di a(3) rsub by auto
  have b4: "fst ` set [cur] \<subseteq> insert (fst cur) inClosed" by simp
  have b5: "\<forall>c \<in> insert (fst cur) inClosed. \<exists>k. gScore c = Some k \<and>
        (\<exists>q. route maze W H start q c \<and> length q = k) \<and>
        (\<forall>q. route maze W H start q c \<longrightarrow> k \<le> length q)"
  proof
    fix c assume "c \<in> insert (fst cur) inClosed"
    then consider "c = fst cur" | "c \<in> inClosed" by auto
    then show "\<exists>k. gScore c = Some k \<and>
        (\<exists>q. route maze W H start q c \<and> length q = k) \<and>
        (\<forall>q. route maze W H start q c \<longrightarrow> k \<le> length q)"
    proof cases
      case 1
      from a(1) cin have "gScore (fst cur) = Some (snd cur)"
        and "\<exists>q. route maze W H start q (fst cur) \<and> length q = snd cur" by simp_all
      moreover have "\<forall>q. route maze W H start q (fst cur) \<longrightarrow> snd cur \<le> length q"
        using explore_pop_optimal [OF inv ne cur] by blast
      ultimately show ?thesis using 1 by blast
    next
      case 2
      with a(5) show ?thesis by blast
    qed
  qed
  have b6: "\<forall>c \<in> insert (fst cur) inClosed - fst ` set [cur]. \<forall>k u.
        gScore c = Some k \<longrightarrow> legal_move maze W H c u \<longrightarrow>
        u \<in> insert (fst cur) inClosed \<or> (\<exists>e \<in> set rest. fst e = u \<and> snd e \<le> k + 1)"
  proof (intro ballI allI impI)
    fix c k u assume c: "c \<in> insert (fst cur) inClosed - fst ` set [cur]"
      and k: "gScore c = Some k" and m: "legal_move maze W H c u"
    from c have "c \<in> inClosed - fst ` set ([] :: AStarExploreSearchNode list)" by auto
    with a(6) k m consider "u \<in> inClosed"
      | e where "e \<in> set openSet" "fst e = u" "snd e \<le> k + 1" by blast
    then show "u \<in> insert (fst cur) inClosed \<or>
        (\<exists>e \<in> set rest. fst e = u \<and> snd e \<le> k + 1)"
    proof cases
      case 1
      then show ?thesis by simp
    next
      case 2
      from 2(1) st have "e = cur \<or> e \<in> set rest" by auto
      with 2 show ?thesis by auto
    qed
  qed
  from st have co: "fst ` set openSet = insert (fst cur) (fst ` set rest)" by auto
  have b7: "start \<in> insert (fst cur) inClosed \<union> fst ` set rest"
    using a(7) co by auto
  from a(9) ng have b9: "goal \<notin> insert (fst cur) inClosed" by auto
  have b10: "dom gScore \<subseteq> insert (fst cur) inClosed \<union> fst ` set rest"
    using a(10) co by auto
  have b11: "\<forall>n k. n \<noteq> start \<longrightarrow> gScore n = Some k \<longrightarrow>
        (\<exists>c kc. cameFrom n = Some c \<and> c \<in> insert (fst cur) inClosed \<and>
           gScore c = Some kc \<and> k = kc + 1)"
  proof (intro allI impI)
    fix n k assume "n \<noteq> start" "gScore n = Some k"
    with a(11) obtain c kc where "cameFrom n = Some c" "c \<in> inClosed"
      "gScore c = Some kc" "k = kc + 1" by blast
    then have "cameFrom n = Some c \<and> c \<in> insert (fst cur) inClosed \<and>
           gScore c = Some kc \<and> k = kc + 1" by simp
    then show "\<exists>c kc. cameFrom n = Some c \<and> c \<in> insert (fst cur) inClosed \<and>
           gScore c = Some kc \<and> k = kc + 1" by blast
  qed
  have b12: "distinct (if fst cur \<noteq> start then expl @ [fst cur] else expl)"
    using a(12) a(13) cnc by auto
  have b13: "set (if fst cur \<noteq> start then expl @ [fst cur] else expl)
      = insert (fst cur) inClosed - {start}"
  proof (cases "fst cur = start")
    case True
    then show ?thesis by (simp add: a(13))
  next
    case False
    then show ?thesis by (simp add: a(13) insert_Diff_if)
  qed
  show ?thesis unfolding explore_inv_def
    using b1 b2 b3 b4 b5 b6 b7 a(8) b9 b10 b11 b12 b13 by (intro conjI)
qed

lemma explore_inv_next:
  assumes inv: "explore_inv maze W H start goal [cur] openSet inClosed expl gScore cameFrom"
    and all: "\<forall>u. legal_move maze W H (fst cur) u \<longrightarrow> u \<in> inClosed \<or>
        (\<exists>e \<in> set openSet. fst e = u \<and> snd e \<le> snd cur + 1)"
  shows "explore_inv maze W H start goal [] openSet inClosed expl gScore cameFrom"
proof -
  note a = explore_invD [OF inv]
  from a(1) have sc: "gScore (fst cur) = Some (snd cur)" by simp
  from a(1) have b1: "\<forall>e \<in> set ([] @ openSet). gScore (fst e) = Some (snd e) \<and>
        (\<exists>q. route maze W H start q (fst e) \<and> length q = snd e)" by simp
  from a(2) have b2: "distinct (map fst ([] @ openSet))" by simp
  have b4: "fst ` set ([] :: AStarExploreSearchNode list) \<subseteq> inClosed" by simp
  have b6: "\<forall>c \<in> inClosed - fst ` set ([] :: AStarExploreSearchNode list). \<forall>k u.
        gScore c = Some k \<longrightarrow> legal_move maze W H c u \<longrightarrow>
        u \<in> inClosed \<or> (\<exists>e \<in> set openSet. fst e = u \<and> snd e \<le> k + 1)"
  proof (intro ballI allI impI)
    fix c k u assume c: "c \<in> inClosed - fst ` set ([] :: AStarExploreSearchNode list)"
      and k: "gScore c = Some k" and m: "legal_move maze W H c u"
    show "u \<in> inClosed \<or> (\<exists>e \<in> set openSet. fst e = u \<and> snd e \<le> k + 1)"
    proof (cases "c = fst cur")
      case True
      with k sc have "k = snd cur" by simp
      with all m True show ?thesis by blast
    next
      case False
      with c have "c \<in> inClosed - fst ` set [cur]" by simp
      with a(6) k m show ?thesis by blast
    qed
  qed
  show ?thesis unfolding explore_inv_def
    using b1 b2 a(3) b4 a(5) b6 a(7) a(8) a(9) a(10) a(11) a(12) a(13) by (intro conjI)
qed

text \<open>What the loop of \<open>astarExplore\<close> leaves behind for the reconstruction.\<close>

definition explore_post :: "maze \<Rightarrow> int \<Rightarrow> int \<Rightarrow> coord \<Rightarrow> coord
    \<Rightarrow> coord list \<times> (coord \<rightharpoonup> nat) \<times> (coord \<rightharpoonup> coord) \<Rightarrow> bool" where
  "explore_post maze W H start goal res \<longleftrightarrow>
     explore_result maze W H start goal (fst res) \<and>
     fst (snd res) start = Some 0 \<and>
     (\<forall>n k. n \<noteq> start \<longrightarrow> fst (snd res) n = Some k \<longrightarrow>
        (\<exists>c kc. snd (snd res) n = Some c \<and> fst (snd res) c = Some kc \<and> k = kc + 1)) \<and>
     (\<forall>k. fst (snd res) goal = Some k \<longrightarrow>
        (\<exists>q. route maze W H start q goal \<and> length q = k) \<and>
        (\<forall>q. route maze W H start q goal \<longrightarrow> k \<le> length q)) \<and>
     (reachable maze W H start goal \<longrightarrow> fst (snd res) goal \<noteq> None)"

lemma astarExplore_loop_post:
  assumes "explore_inv maze W H start goal [] openSet inClosed expl gScore cameFrom"
    and "astarExplore_loop maze W H start goal openSet inClosed expl gScore cameFrom = Inr res"
  shows "explore_post maze W H start goal res"
  using assms
proof (induction maze W H start goal openSet inClosed expl gScore cameFrom
    rule: astarExplore_loop.induct)
  case (1 maze W H start goal openSet inClosed expl gScore cameFrom)
  note inv = "1.prems"(1) and res = "1.prems"(2)
  note a = explore_invD [OF inv]
  have chain: "\<forall>n k. n \<noteq> start \<longrightarrow> gScore n = Some k \<longrightarrow>
        (\<exists>c kc. cameFrom n = Some c \<and> gScore c = Some kc \<and> k = kc + 1)"
    using a(11) by blast
  show ?case
  proof (cases "openSet = []")
    case True
    with res have r: "res = (expl, gScore, cameFrom)"
      by (subst (asm) astarExplore_loop.simps) simp
    have clos: "\<forall>c \<in> inClosed. \<forall>u. legal_move maze W H c u \<longrightarrow> u \<in> inClosed"
    proof (intro ballI allI impI)
      fix c u assume c: "c \<in> inClosed" and m: "legal_move maze W H c u"
      from a(5) c obtain k where "gScore c = Some k" by blast
      with a(6) c m True show "u \<in> inClosed" by fastforce
    qed
    from a(7) True have st: "start \<in> inClosed" by simp
    have all: "inClosed = {c. reachable maze W H start c}"
    proof (intro equalityI subsetI)
      fix c assume "c \<in> inClosed"
      with a(5) show "c \<in> {c. reachable maze W H start c}"
        unfolding reachable_def by blast
    next
      fix c assume "c \<in> {c. reachable maze W H start c}"
      then obtain p where "route maze W H start p c" by (auto simp: reachable_def)
      from closed_set_reach [OF clos this st] show "c \<in> inClosed" .
    qed
    with a(9) have nr: "\<not> reachable maze W H start goal" by auto
    from a(13) have "start \<notin> set expl" by simp
    with a(12) a(13) all have er: "explore_result maze W H start goal expl"
      by (simp add: explore_result_def)
    from a(10) True a(9) have "gScore goal = None" by auto
    with er a(8) chain nr show ?thesis unfolding r explore_post_def by simp
  next
    case ne: False
    define sorted where "sorted = sort_key (fExplore goal) openSet"
    define cur where "cur = hd sorted"
    define rest where "rest = tl sorted"
    define expl' where "expl' = (if fst cur \<noteq> start then expl @ [fst cur] else expl)"
    have cur': "cur = hd (sort_key (fExplore goal) openSet)"
      and rest': "rest = tl (sort_key (fExplore goal) openSet)"
      by (simp_all add: cur_def rest_def sorted_def)
    from hd_sort_key_in(1) [OF ne] have cur_in: "cur \<in> set openSet"
      by (simp add: cur')
    from a(3) cur_in have cnc: "fst cur \<notin> inClosed" by blast
    note res' = res [unfolded astarExplore_loop.simps [of maze W H start goal openSet],
        unfolded Let_def, folded sorted_def, folded cur_def rest_def, folded expl'_def]
    show ?thesis
    proof (cases "fst cur = goal")
      case True
      with ne cnc res' have r: "res = (expl', gScore, cameFrom)" by simp
      from a(1) cur_in have sc: "gScore (fst cur) = Some (snd cur)"
        and rc: "\<exists>q. route maze W H start q (fst cur) \<and> length q = snd cur" by simp_all
      from rc True have reach: "reachable maze W H start goal"
        unfolding reachable_def by auto
      have opt: "\<forall>q. route maze W H start q goal \<longrightarrow> snd cur \<le> length q"
        using explore_pop_optimal [OF inv ne cur'] True by simp
      have "distinct expl'" using a(12) a(13) cnc by (auto simp: expl'_def)
      moreover have "start \<notin> set expl'" using a(13) by (auto simp: expl'_def)
      ultimately have er: "explore_result maze W H start goal expl'"
        using reach by (simp add: explore_result_def)
      from sc rc opt True
      have "\<forall>k. gScore goal = Some k \<longrightarrow>
        (\<exists>q. route maze W H start q goal \<and> length q = k) \<and>
        (\<forall>q. route maze W H start q goal \<longrightarrow> k \<le> length q)" by simp
      moreover from sc True have "gScore goal \<noteq> None" by simp
      ultimately show ?thesis unfolding r explore_post_def using er a(8) chain by simp
    next
      case ng: False
      from ne cnc ng res' obtain st where
        push: "astarExplore_neighbors maze W H cur (insert (fst cur) inClosed) directions
                 (rest, gScore, cameFrom) = Inr st"
        and run: "astarExplore_loop maze W H start goal (fst st) (insert (fst cur) inClosed)
                    expl' (fst (snd st)) (snd (snd st)) = Inr res"
        by (auto split: sum.splits)
      from push have push': "astarExplore_neighbors maze W H cur (insert (fst cur) inClosed)
          directions (rest, gScore, cameFrom) = Inr (fst st, fst (snd st), snd (snd st))"
        by simp
      from explore_inv_pop [OF inv ne cur' rest' ng]
      have inv1: "explore_inv maze W H start goal [cur] rest (insert (fst cur) inClosed)
          expl' gScore cameFrom" by (simp only: expl'_def)
      have "set directions \<subseteq> set directions" by simp
      from astarExplore_neighbors_inv [OF this inv1 push']
      have inv2: "explore_inv maze W H start goal [cur] (fst st) (insert (fst cur) inClosed)
          expl' (fst (snd st)) (snd (snd st))"
        and t: "\<forall>d \<in> set directions.
          open_move maze W H (fst (fst cur)) (snd (fst cur)) d = Inr True \<longrightarrow>
          target (fst (fst cur)) (snd (fst cur)) d \<in> insert (fst cur) inClosed \<or>
          (\<exists>e \<in> set (fst st). fst e = target (fst (fst cur)) (snd (fst cur)) d \<and>
             snd e \<le> snd cur + 1)"
        by simp_all
      have "\<forall>u. legal_move maze W H (fst cur) u \<longrightarrow> u \<in> insert (fst cur) inClosed \<or>
          (\<exists>e \<in> set (fst st). fst e = u \<and> snd e \<le> snd cur + 1)"
      proof (intro allI impI)
        fix u assume "legal_move maze W H (fst cur) u"
        then have "legal_move maze W H (fst (fst cur), snd (fst cur)) u" by simp
        from legal_move_open [OF this] obtain d where "d \<in> set directions"
          "target (fst (fst cur)) (snd (fst cur)) d = u"
          "open_move maze W H (fst (fst cur)) (snd (fst cur)) d = Inr True" by blast
        with t show "u \<in> insert (fst cur) inClosed \<or>
          (\<exists>e \<in> set (fst st). fst e = u \<and> snd e \<le> snd cur + 1)"
          by blast
      qed
      from explore_inv_next [OF inv2 this]
      have "explore_inv maze W H start goal [] (fst st) (insert (fst cur) inClosed) expl'
          (fst (snd st)) (snd (snd st))" .
      from "1.IH"(2) [OF ne sorted_def cur_def rest_def cnc expl'_def ng push this run]
      show ?thesis .
    qed
  qed
qed

lemma reconstruct_length:
  assumes "g start = Some 0"
    and "\<forall>n k. n \<noteq> start \<longrightarrow> g n = Some k \<longrightarrow>
        (\<exists>c kc. cf n = Some c \<and> g c = Some kc \<and> k = kc + 1)"
    and "g n = Some k"
  shows "\<exists>xs. reconstruct cf start (Some n) acc = Some (acc @ xs) \<and> length xs = k"
  using assms(3)
proof (induction k arbitrary: n acc)
  case 0
  have "n = start"
  proof (rule ccontr)
    assume "n \<noteq> start"
    with assms(2) 0 show False by fastforce
  qed
  then have "reconstruct cf start (Some n) acc = Some acc"
    by (subst reconstruct.simps) simp
  then show ?case by simp
next
  case (Suc k)
  from Suc.prems assms(1) have ns: "n \<noteq> start" by auto
  with assms(2) Suc.prems obtain c where c: "cf n = Some c" "g c = Some k" by fastforce
  from Suc.IH [OF c(2), of "acc @ [n]"] obtain xs where
    xs: "reconstruct cf start (Some c) (acc @ [n]) = Some ((acc @ [n]) @ xs)" "length xs = k"
    by blast
  from ns c(1) have "reconstruct cf start (Some n) acc
      = reconstruct cf start (Some c) (acc @ [n])"
    by (subst reconstruct.simps) simp
  with xs have "reconstruct cf start (Some n) acc = Some (acc @ (n # xs)) \<and>
      length (n # xs) = Suc k" by simp
  then show ?case by blast
qed

lemma route_inb:
  assumes "route maze W H a p t" and "a \<in> inb W H"
  shows "t \<in> inb W H"
  using assms
proof (induction p arbitrary: a)
  case Nil
  then show ?case by (simp add: route_Nil)
next
  case (Cons b p)
  from Cons.prems(1) have mv: "legal_move maze W H a b" and r: "route maze W H b p t"
    by (simp_all add: route_Cons)
  from mv have "b \<in> inb W H" by (simp add: legal_move_def)
  with r show ?case by (rule Cons.IH)
qed

lemma astarExplore_neighbors_no_error:
  assumes "cell_at maze (fst (fst cur)) (snd (fst cur)) \<noteq> None"
  shows "\<exists>st'. astarExplore_neighbors maze W H cur C ds st = Inr st'"
proof (induction ds arbitrary: st)
  case Nil
  show ?case by (rule exI) (rule astarExplore_neighbors.simps(1))
next
  case (Cons d ds)
  from open_move_no_error [OF assms] obtain ok where
    "open_move maze W H (fst (fst cur)) (snd (fst cur)) d = Inr ok" by blast
  moreover obtain o1 g1 c1 where "st = (o1, g1, c1)" by (rule prod_cases3)
  ultimately show ?case using Cons.IH
    by (simp add: astarExplore_neighbors.simps Let_def)
qed

lemma astarExplore_loop_no_error:
  assumes "rectangular maze" and "W = maze_width maze" and "H = maze_height maze"
    and "start \<in> inb W H"
    and "explore_inv maze W H start goal [] openSet inClosed expl gScore cameFrom"
  shows "\<exists>res. astarExplore_loop maze W H start goal openSet inClosed expl gScore cameFrom
           = Inr res"
  using assms
proof (induction maze W H start goal openSet inClosed expl gScore cameFrom
    rule: astarExplore_loop.induct)
  case (1 maze W H start goal openSet inClosed expl gScore cameFrom)
  note rect = "1.prems"(1) and W = "1.prems"(2) and H = "1.prems"(3)
    and st = "1.prems"(4) and inv = "1.prems"(5)
  note a = explore_invD [OF inv]
  show ?case
  proof (cases "openSet = []")
    case True
    then show ?thesis by (subst astarExplore_loop.simps) simp
  next
    case ne: False
    define sorted where "sorted = sort_key (fExplore goal) openSet"
    define cur where "cur = hd sorted"
    define rest where "rest = tl sorted"
    define expl' where "expl' = (if fst cur \<noteq> start then expl @ [fst cur] else expl)"
    have cur': "cur = hd (sort_key (fExplore goal) openSet)"
      and rest': "rest = tl (sort_key (fExplore goal) openSet)"
      by (simp_all add: cur_def rest_def sorted_def)
    from hd_sort_key_in(1) [OF ne] have cur_in: "cur \<in> set openSet"
      by (simp add: cur')
    from a(3) cur_in have cnc: "fst cur \<notin> inClosed" by blast
    note unf = astarExplore_loop.simps [of maze W H start goal openSet inClosed expl gScore
        cameFrom, unfolded Let_def, folded sorted_def, folded cur_def rest_def,
        folded expl'_def]
    show ?thesis
    proof (cases "fst cur = goal")
      case True
      with ne cnc show ?thesis by (simp add: unf)
    next
      case ng: False
      from a(1) cur_in obtain q where "route maze W H start q (fst cur)" by auto
      from route_inb [OF this st]
      have "fst cur \<in> inb (maze_width maze) (maze_height maze)" by (simp add: W H)
      with rect have "cell_at maze (fst (fst cur)) (snd (fst cur)) \<noteq> None"
        by (rule cell_at_inb)
      from astarExplore_neighbors_no_error [OF this] obtain st' where
        push: "astarExplore_neighbors maze W H cur (insert (fst cur) inClosed) directions
                 (rest, gScore, cameFrom) = Inr st'"
        by blast
      then have push': "astarExplore_neighbors maze W H cur (insert (fst cur) inClosed)
          directions (rest, gScore, cameFrom) = Inr (fst st', fst (snd st'), snd (snd st'))"
        by simp
      from explore_inv_pop [OF inv ne cur' rest' ng]
      have inv1: "explore_inv maze W H start goal [cur] rest (insert (fst cur) inClosed)
          expl' gScore cameFrom" by (simp only: expl'_def)
      have "set directions \<subseteq> set directions" by simp
      from astarExplore_neighbors_inv [OF this inv1 push']
      have inv2: "explore_inv maze W H start goal [cur] (fst st') (insert (fst cur) inClosed)
          expl' (fst (snd st')) (snd (snd st'))"
        and t: "\<forall>d \<in> set directions.
          open_move maze W H (fst (fst cur)) (snd (fst cur)) d = Inr True \<longrightarrow>
          target (fst (fst cur)) (snd (fst cur)) d \<in> insert (fst cur) inClosed \<or>
          (\<exists>e \<in> set (fst st'). fst e = target (fst (fst cur)) (snd (fst cur)) d \<and>
             snd e \<le> snd cur + 1)"
        by simp_all
      have "\<forall>u. legal_move maze W H (fst cur) u \<longrightarrow> u \<in> insert (fst cur) inClosed \<or>
          (\<exists>e \<in> set (fst st'). fst e = u \<and> snd e \<le> snd cur + 1)"
      proof (intro allI impI)
        fix u assume "legal_move maze W H (fst cur) u"
        then have "legal_move maze W H (fst (fst cur), snd (fst cur)) u" by simp
        from legal_move_open [OF this] obtain d where "d \<in> set directions"
          "target (fst (fst cur)) (snd (fst cur)) d = u"
          "open_move maze W H (fst (fst cur)) (snd (fst cur)) d = Inr True" by blast
        with t show "u \<in> insert (fst cur) inClosed \<or>
          (\<exists>e \<in> set (fst st'). fst e = u \<and> snd e \<le> snd cur + 1)"
          by blast
      qed
      from explore_inv_next [OF inv2 this]
      have "explore_inv maze W H start goal [] (fst st') (insert (fst cur) inClosed) expl'
          (fst (snd st')) (snd (snd st'))" .
      from "1.IH"(2) [OF ne sorted_def cur_def rest_def cnc expl'_def ng push rect W H st this]
      obtain res where "astarExplore_loop maze W H start goal (fst st')
          (insert (fst cur) inClosed) expl' (fst (snd st')) (snd (snd st')) = Inr res"
        by blast
      with ne cnc ng push
      have "astarExplore_loop maze W H start goal openSet inClosed expl gScore cameFrom
          = Inr res" by (simp add: unf)
      then show ?thesis ..
    qed
  qed
qed

section \<open>The six searches from their initial states\<close>

lemma in_grid_Cons:
  assumes "in_grid maze c"
  obtains row0 rows where "maze = row0 # rows"
    and "int (length row0) = maze_width maze" and "c \<in> inb (maze_width maze) (maze_height maze)"
proof -
  from assms have c: "c \<in> inb (maze_width maze) (maze_height maze)"
    by (simp add: in_grid_def)
  then have "0 < maze_height maze" by (auto simp: inb_def)
  then obtain row0 rows where m: "maze = row0 # rows"
    by (cases maze) (auto simp: maze_height_def)
  then have w: "int (length row0) = maze_width maze" by (simp add: maze_width_def)
  from m w c show ?thesis by (rule that)
qed

lemma dfs_path_result:
  assumes "dfs sx sy ex ey maze = Inr r"
  shows "path_result maze (maze_width maze) (maze_height maze) (sx, sy) (ex, ey) r"
proof (cases maze)
  case Nil
  with assms show ?thesis by (simp add: dfs_def)
next
  case (Cons row0 rows)
  with assms have run: "dfs_loop maze (maze_width maze) (maze_height maze) (ex, ey)
      [((sx, sy), [(sx, sy)])] {} = Inr r"
    by (simp add: dfs_def maze_width_def maze_height_def)
  have "\<forall>e \<in> set [((sx, sy), [(sx, sy)])].
      good_path maze (maze_width maze) (maze_height maze) (sx, sy) {} e"
    by (simp add: good_path_start)
  from dfs_loop_good [OF this run] show ?thesis .
qed

lemma dfs_returns:
  assumes "rectangular maze" and "in_grid maze (sx, sy)"
  shows "\<exists>r. dfs sx sy ex ey maze = Inr r"
proof -
  from assms(2) obtain row0 rows where m: "maze = row0 # rows"
    and w: "int (length row0) = maze_width maze"
    and s: "(sx, sy) \<in> inb (maze_width maze) (maze_height maze)"
    by (rule in_grid_Cons)
  from s have "fst ` set [((sx, sy), [(sx, sy)])] \<subseteq> inb (maze_width maze) (maze_height maze)"
    by simp
  from dfs_loop_no_error [OF assms(1) refl refl this]
  obtain r where "dfs_loop maze (maze_width maze) (maze_height maze) (ex, ey)
      [((sx, sy), [(sx, sy)])] {} = Inr r" by blast
  with m show ?thesis by (simp add: dfs_def maze_width_def maze_height_def)
qed

lemma bfs_path_result:
  assumes "bfs sx sy ex ey maze = Inr r"
  shows "path_result maze (maze_width maze) (maze_height maze) (sx, sy) (ex, ey) r"
proof (cases maze)
  case Nil
  with assms show ?thesis by (simp add: bfs_def)
next
  case (Cons row0 rows)
  with assms have run: "bfs_loop maze (maze_width maze) (maze_height maze) (ex, ey)
      [((sx, sy), [(sx, sy)])] {(sx, sy)} = Inr r"
    by (simp add: bfs_def maze_width_def maze_height_def)
  have "\<forall>e \<in> set [((sx, sy), [(sx, sy)])].
      good_path maze (maze_width maze) (maze_height maze) (sx, sy) {(sx, sy)} e
      \<and> fst e \<in> {(sx, sy)}"
    by (simp add: good_path_start)
  from bfs_loop_good [OF this run] show ?thesis .
qed

lemma bfs_returns:
  assumes "rectangular maze" and "in_grid maze (sx, sy)"
  shows "\<exists>r. bfs sx sy ex ey maze = Inr r"
proof -
  from assms(2) obtain row0 rows where m: "maze = row0 # rows"
    and w: "int (length row0) = maze_width maze"
    and s: "(sx, sy) \<in> inb (maze_width maze) (maze_height maze)"
    by (rule in_grid_Cons)
  have "\<forall>e \<in> set [((sx, sy), [(sx, sy)])].
      good_path maze (maze_width maze) (maze_height maze) (sx, sy) {(sx, sy)} e
      \<and> fst e \<in> {(sx, sy)}"
    by (simp add: good_path_start)
  from bfs_loop_no_error [OF assms(1) refl refl s this]
  obtain r where "bfs_loop maze (maze_width maze) (maze_height maze) (ex, ey)
      [((sx, sy), [(sx, sy)])] {(sx, sy)} = Inr r" by blast
  with m show ?thesis by (simp add: bfs_def maze_width_def maze_height_def)
qed

lemma bfs_inv_init: "bfs_inv maze W H start goal [] [(start, [start])] {start}"
  unfolding bfs_inv_def by (simp add: good_path_start)

lemma bfs_optimal:
  assumes "reachable maze (maze_width maze) (maze_height maze) (sx, sy) (ex, ey)"
    and "bfs sx sy ex ey maze = Inr r"
  shows "route maze (maze_width maze) (maze_height maze) (sx, sy) r (ex, ey) \<and>
    (\<forall>q. route maze (maze_width maze) (maze_height maze) (sx, sy) q (ex, ey)
       \<longrightarrow> length r \<le> length q)"
proof (cases maze)
  case Nil
  with assms(2) show ?thesis by (simp add: bfs_def)
next
  case (Cons row0 rows)
  with assms(2) have run: "bfs_loop maze (maze_width maze) (maze_height maze) (ex, ey)
      [((sx, sy), [(sx, sy)])] {(sx, sy)} = Inr r"
    by (simp add: bfs_def maze_width_def maze_height_def)
  from bfs_loop_optimal [OF bfs_inv_init assms(1) run] show ?thesis .
qed

lemma astar_path_result:
  assumes "astar sx sy ex ey maze = Inr r"
  shows "path_result maze (maze_width maze) (maze_height maze) (sx, sy) (ex, ey) r"
proof (cases maze)
  case Nil
  with assms show ?thesis by (simp add: astar_def)
next
  case (Cons row0 rows)
  with assms have run: "astar_loop maze (maze_width maze) (maze_height maze) (ex, ey)
      [((sx, sy), [(sx, sy)])] {} [(sx, sy) \<mapsto> 0] = Inr r"
    by (simp add: astar_def maze_width_def maze_height_def)
  have "\<forall>e \<in> set [((sx, sy), [(sx, sy)])].
      good_path maze (maze_width maze) (maze_height maze) (sx, sy) {} e"
    by (simp add: good_path_start)
  from astar_loop_good [OF this run] show ?thesis .
qed

lemma astar_returns:
  assumes "rectangular maze" and "in_grid maze (sx, sy)"
  shows "\<exists>r. astar sx sy ex ey maze = Inr r"
proof -
  from assms(2) obtain row0 rows where m: "maze = row0 # rows"
    and w: "int (length row0) = maze_width maze"
    and s: "(sx, sy) \<in> inb (maze_width maze) (maze_height maze)"
    by (rule in_grid_Cons)
  have "\<forall>e \<in> set [((sx, sy), [(sx, sy)])].
      good_path maze (maze_width maze) (maze_height maze) (sx, sy) {} e"
    by (simp add: good_path_start)
  from astar_loop_no_error [OF assms(1) refl refl s this]
  obtain r where "astar_loop maze (maze_width maze) (maze_height maze) (ex, ey)
      [((sx, sy), [(sx, sy)])] {} [(sx, sy) \<mapsto> 0] = Inr r" by blast
  with m show ?thesis by (simp add: astar_def maze_width_def maze_height_def)
qed

lemma astar_inv_init:
  "astar_inv maze W H start goal [] [(start, [start])] {} [start \<mapsto> 0]"
  unfolding astar_inv_def by (simp add: good_path_start zero_enat_def)

lemma astar_optimal:
  assumes "reachable maze (maze_width maze) (maze_height maze) (sx, sy) (ex, ey)"
    and "astar sx sy ex ey maze = Inr r"
  shows "route maze (maze_width maze) (maze_height maze) (sx, sy) r (ex, ey) \<and>
    (\<forall>q. route maze (maze_width maze) (maze_height maze) (sx, sy) q (ex, ey)
       \<longrightarrow> length r \<le> length q)"
proof (cases maze)
  case Nil
  with assms(2) show ?thesis by (simp add: astar_def)
next
  case (Cons row0 rows)
  with assms(2) have run: "astar_loop maze (maze_width maze) (maze_height maze) (ex, ey)
      [((sx, sy), [(sx, sy)])] {} [(sx, sy) \<mapsto> 0] = Inr r"
    by (simp add: astar_def maze_width_def maze_height_def)
  from astar_loop_optimal [OF astar_inv_init assms(1) run] show ?thesis .
qed

lemma dfsExplore_result:
  assumes "dfsExplore sx sy ex ey maze = Inr r"
  shows "explore_result maze (maze_width maze) (maze_height maze) (sx, sy) (ex, ey) r"
proof (cases maze)
  case Nil
  with assms show ?thesis by (simp add: dfsExplore_def)
next
  case (Cons row0 rows)
  with assms have run: "dfsExplore_loop maze (maze_width maze) (maze_height maze) (ex, ey)
      [(sx, sy)] {} [] = Inr r"
    by (simp add: dfsExplore_def maze_width_def maze_height_def)
  have "dfsExplore_inv maze (maze_width maze) (maze_height maze) (sx, sy) [(sx, sy)] {} []"
    unfolding dfsExplore_inv_def by (simp add: reachable_refl)
  from dfsExplore_loop_inv [OF this run] show ?thesis .
qed

lemma dfsExplore_returns:
  assumes "rectangular maze" and "in_grid maze (sx, sy)"
  shows "\<exists>r. dfsExplore sx sy ex ey maze = Inr r"
proof -
  from assms(2) obtain row0 rows where m: "maze = row0 # rows"
    and w: "int (length row0) = maze_width maze"
    and s: "(sx, sy) \<in> inb (maze_width maze) (maze_height maze)"
    by (rule in_grid_Cons)
  from s have "set [(sx, sy)] \<subseteq> inb (maze_width maze) (maze_height maze)" by simp
  from dfsExplore_loop_no_error [OF assms(1) refl refl this]
  obtain r where "dfsExplore_loop maze (maze_width maze) (maze_height maze) (ex, ey)
      [(sx, sy)] {} [] = Inr r" by blast
  with m show ?thesis by (simp add: dfsExplore_def maze_width_def maze_height_def)
qed

lemma bfsExplore_result:
  assumes "bfsExplore sx sy ex ey maze = Inr r"
  shows "explore_result maze (maze_width maze) (maze_height maze) (sx, sy) (ex, ey) r"
proof (cases maze)
  case Nil
  with assms show ?thesis by (simp add: bfsExplore_def)
next
  case (Cons row0 rows)
  with assms have run: "bfsExplore_loop maze (maze_width maze) (maze_height maze) (ex, ey)
      [(sx, sy)] {(sx, sy)} [] = Inr r"
    by (simp add: bfsExplore_def maze_width_def maze_height_def)
  have "bfsExplore_inv maze (maze_width maze) (maze_height maze) (sx, sy) [(sx, sy)]
      {(sx, sy)} []"
    unfolding bfsExplore_inv_def by (simp add: reachable_refl)
  from bfsExplore_loop_inv [OF this run] show ?thesis .
qed

lemma bfsExplore_returns:
  assumes "rectangular maze" and "in_grid maze (sx, sy)"
  shows "\<exists>r. bfsExplore sx sy ex ey maze = Inr r"
proof -
  from assms(2) obtain row0 rows where m: "maze = row0 # rows"
    and w: "int (length row0) = maze_width maze"
    and s: "(sx, sy) \<in> inb (maze_width maze) (maze_height maze)"
    by (rule in_grid_Cons)
  from s have "set [(sx, sy)] \<subseteq> inb (maze_width maze) (maze_height maze)" by simp
  from bfsExplore_loop_no_error [OF assms(1) refl refl this]
  obtain r where "bfsExplore_loop maze (maze_width maze) (maze_height maze) (ex, ey)
      [(sx, sy)] {(sx, sy)} [] = Inr r" by blast
  with m show ?thesis by (simp add: bfsExplore_def maze_width_def maze_height_def)
qed

lemma explore_inv_init:
  "explore_inv maze W H start goal [] [(start, 0)] {} [] [start \<mapsto> 0] Map.empty"
  unfolding explore_inv_def by (simp add: route_Nil)

text \<open>
  \<open>astarExplore\<close> in terms of the state its loop leaves: the explored cells, and a path
  whose length is the cost recorded for the goal (empty when no cost is recorded).
\<close>

lemma astarExplore_cases:
  assumes m: "maze = row0 # rows"
  obtains (error) e where
      "astarExplore_loop maze (maze_width maze) (maze_height maze) (sx, sy) (ex, ey)
         [((sx, sy), 0)] {} [] [(sx, sy) \<mapsto> 0] Map.empty = Inl e"
      "astarExplore sx sy ex ey maze = Some (Inl e)"
  | (ok) res r where
      "astarExplore_loop maze (maze_width maze) (maze_height maze) (sx, sy) (ex, ey)
         [((sx, sy), 0)] {} [] [(sx, sy) \<mapsto> 0] Map.empty = Inr res"
      "explore_post maze (maze_width maze) (maze_height maze) (sx, sy) (ex, ey) res"
      "astarExplore sx sy ex ey maze = Some (Inr r)"
      "explored r = fst res"
      "length (path r) = (case fst (snd res) (ex, ey) of None \<Rightarrow> 0 | Some k \<Rightarrow> k)"
proof (cases "astarExplore_loop maze (maze_width maze) (maze_height maze) (sx, sy) (ex, ey)
         [((sx, sy), 0)] {} [] [(sx, sy) \<mapsto> 0] Map.empty")
  case (Inl e)
  with m have "astarExplore sx sy ex ey maze = Some (Inl e)"
    by (simp add: astarExplore_def maze_width_def maze_height_def)
  with Inl show ?thesis by (rule error)
next
  case (Inr res)
  from astarExplore_loop_post [OF explore_inv_init Inr]
  have post: "explore_post maze (maze_width maze) (maze_height maze) (sx, sy) (ex, ey) res" .
  show ?thesis
  proof (cases "fst (snd res) (ex, ey)")
    case None
    define r where "r = \<lparr>explored = fst res, path = []\<rparr>"
    from None m Inr have a: "astarExplore sx sy ex ey maze = Some (Inr r)"
      by (simp add: astarExplore_def maze_width_def maze_height_def r_def)
    have b: "explored r = fst res" by (simp add: r_def)
    have c: "length (path r) = (case fst (snd res) (ex, ey) of None \<Rightarrow> 0 | Some k \<Rightarrow> k)"
      by (simp add: r_def None)
    from Inr post a b c show ?thesis by (rule ok)
  next
    case (Some k)
    from post have g0: "fst (snd res) (sx, sy) = Some 0"
      and chain: "\<forall>n k. n \<noteq> (sx, sy) \<longrightarrow> fst (snd res) n = Some k \<longrightarrow>
        (\<exists>c kc. snd (snd res) n = Some c \<and> fst (snd res) c = Some kc \<and> k = kc + 1)"
      unfolding explore_post_def by simp_all
    from reconstruct_length [OF g0 chain Some, of "[]"] obtain xs where
      xs: "reconstruct (snd (snd res)) (sx, sy) (Some (ex, ey)) [] = Some xs" "length xs = k"
      by auto
    define r where "r = \<lparr>explored = fst res, path = rev xs\<rparr>"
    from xs(1) m Inr Some have a: "astarExplore sx sy ex ey maze = Some (Inr r)"
      by (simp add: astarExplore_def maze_width_def maze_height_def r_def)
    have b: "explored r = fst res" by (simp add: r_def)
    have c: "length (path r) = (case fst (snd res) (ex, ey) of None \<Rightarrow> 0 | Some k \<Rightarrow> k)"
      by (simp add: r_def Some xs(2))
    from Inr post a b c show ?thesis by (rule ok)
  qed
qed

lemma astarExplore_returns:
  assumes "rectangular maze" and "in_grid maze (sx, sy)"
  shows "\<exists>res. astarExplore_loop maze (maze_width maze) (maze_height maze) (sx, sy) (ex, ey)
         [((sx, sy), 0)] {} [] [(sx, sy) \<mapsto> 0] Map.empty = Inr res"
proof -
  from assms(2) have s: "(sx, sy) \<in> inb (maze_width maze) (maze_height maze)"
    by (simp add: in_grid_def)
  from astarExplore_loop_no_error [OF assms(1) refl refl s explore_inv_init]
  show ?thesis .
qed

section \<open>Example grids\<close>

text \<open>A corridor of two cells, open between them, and one of three cells whose last cell is
  walled off.\<close>

definition corridor2 :: maze where
  "corridor2 = [[\<lparr>north = True, east = False, south = True, west = True\<rparr>,
                 \<lparr>north = True, east = True, south = True, west = False\<rparr>]]"

definition walled3 :: maze where
  "walled3 = [[\<lparr>north = True, east = False, south = True, west = True\<rparr>,
               \<lparr>north = True, east = True, south = True, west = False\<rparr>,
               \<lparr>north = True, east = True, south = True, west = True\<rparr>]]"

lemma corridor2_facts:
  "rectangular corridor2" "maze_width corridor2 = 2" "maze_height corridor2 = 1"
  "in_grid corridor2 (0, 0)" "in_grid corridor2 (1, 0)"
  by (simp_all add: corridor2_def rectangular_def maze_width_def maze_height_def in_grid_def
      inb_def)

lemma corridor2_reachable:
  "reachable corridor2 (maze_width corridor2) (maze_height corridor2) (0, 0) (1, 0)"
proof -
  have "legal_move corridor2 2 1 (0, 0) (1, 0)"
    by (simp add: legal_move_def cell_at_def corridor2_def inb_def)
  then have "route corridor2 2 1 (0, 0) [(1, 0)] (1, 0)"
    by (simp add: route_def)
  then show ?thesis unfolding reachable_def corridor2_facts by blast
qed

lemma walled3_facts:
  "rectangular walled3" "maze_width walled3 = 3" "maze_height walled3 = 1"
  "in_grid walled3 (0, 0)" "in_grid walled3 (2, 0)"
  by (simp_all add: walled3_def rectangular_def maze_width_def maze_height_def in_grid_def
      inb_def)

lemma walled3_moves:
  assumes "legal_move walled3 3 1 c u" and "c = (0, 0) \<or> c = (1, 0)"
  shows "u = (0, 0) \<or> u = (1, 0)"
  using assms(2)
proof
  assume "c = (0, 0)"
  with assms(1) show ?thesis
    by (simp add: legal_move_def cell_at_def walled3_def)
next
  assume "c = (1, 0)"
  with assms(1) show ?thesis
    by (simp add: legal_move_def cell_at_def walled3_def)
qed

lemma walled3_unreachable:
  "\<not> reachable walled3 (maze_width walled3) (maze_height walled3) (0, 0) (2, 0)"
proof
  assume "reachable walled3 (maze_width walled3) (maze_height walled3) (0, 0) (2, 0)"
  then obtain p where r: "route walled3 3 1 (0, 0) p (2, 0)"
    unfolding reachable_def walled3_facts by blast
  have "\<forall>c \<in> {(0, 0), (1, 0)}. \<forall>u. legal_move walled3 3 1 c u \<longrightarrow> u \<in> {(0, 0), (1, 0)}"
    using walled3_moves by blast
  from closed_set_reach [OF this r] show False by simp
qed

section \<open>Expansion order of the exploration variants\<close>

text \<open>
  \<open>expansion_order maze W H start r\<close>: every coordinate of \<open>r\<close> is entered by a legal move from
  the start or from a coordinate listed before it, as in a list of cells in the order in
  which a search from the start expanded them.
\<close>

definition expansion_order :: "maze \<Rightarrow> int \<Rightarrow> int \<Rightarrow> coord \<Rightarrow> coord list \<Rightarrow> bool" where
  "expansion_order maze W H start r \<longleftrightarrow>
     (\<forall>i < length r. \<exists>a \<in> insert start (set (take i r)). legal_move maze W H a (r ! i))"

text \<open>The same, with the start itself allowed in the list.\<close>

definition expansion_order_lax :: "maze \<Rightarrow> int \<Rightarrow> int \<Rightarrow> coord \<Rightarrow> coord list \<Rightarrow> bool" where
  "expansion_order_lax maze W H start r \<longleftrightarrow>
     (\<forall>i < length r. r ! i = start \<or>
        (\<exists>a \<in> insert start (set (take i r)). legal_move maze W H a (r ! i)))"

lemma expansion_order_lax_Nil: "expansion_order_lax maze W H start []"
  by (simp add: expansion_order_lax_def)

lemma expansion_order_lax_snoc:
  assumes "expansion_order_lax maze W H start xs"
    and "c = start \<or> (\<exists>a \<in> insert start (set xs). legal_move maze W H a c)"
  shows "expansion_order_lax maze W H start (xs @ [c])"
  unfolding expansion_order_lax_def
proof (intro allI impI)
  fix i assume "i < length (xs @ [c])"
  then consider "i < length xs" | "i = length xs" by fastforce
  then show "(xs @ [c]) ! i = start \<or>
      (\<exists>a \<in> insert start (set (take i (xs @ [c]))). legal_move maze W H a ((xs @ [c]) ! i))"
  proof cases
    case 1
    with assms(1) have "xs ! i = start \<or>
        (\<exists>a \<in> insert start (set (take i xs)). legal_move maze W H a (xs ! i))"
      by (simp add: expansion_order_lax_def)
    with 1 show ?thesis by (simp add: nth_append)
  next
    case 2
    with assms(2) show ?thesis by simp
  qed
qed

lemma expansion_order_strict:
  assumes "expansion_order_lax maze W H start r" and "start \<notin> set r"
  shows "expansion_order maze W H start r"
  unfolding expansion_order_def
proof (intro allI impI)
  fix i assume i: "i < length r"
  then have "r ! i \<in> set r" by simp
  with assms(2) have "r ! i \<noteq> start" by metis
  moreover from assms(1) i have "r ! i = start \<or>
      (\<exists>a \<in> insert start (set (take i r)). legal_move maze W H a (r ! i))"
    unfolding expansion_order_lax_def by blast
  ultimately show "\<exists>a \<in> insert start (set (take i r)). legal_move maze W H a (r ! i)"
    by blast
qed

subsection \<open>Depth-first exploration\<close>

lemma dfsExplore_push_parent:
  assumes "set ds \<subseteq> set directions"
    and "dfsExplore_push maze W H c S ds stack = Inr stack'"
  shows "\<forall>u \<in> set stack'. u \<in> set stack \<or> legal_move maze W H c u"
  using assms
proof (induction ds arbitrary: stack)
  case Nil
  then show ?case by simp
next
  case (Cons d ds)
  from Cons.prems(2) obtain ok where
    ok: "open_move maze W H (fst c) (snd c) d = Inr ok"
    by (auto split: sum.splits)
  define n where "n = target (fst c) (snd c) d"
  define st where "st = (if ok \<and> n \<notin> S then n # stack else stack)"
  from Cons.prems(2) ok have run: "dfsExplore_push maze W H c S ds st = Inr stack'"
    by (auto simp: st_def n_def split: if_splits)
  from Cons.prems(1) have ds: "set ds \<subseteq> set directions" and d: "d \<in> set directions"
    by simp_all
  have "legal_move maze W H c n" if "ok"
  proof -
    from that ok d have "legal_move maze W H (fst c, snd c) n"
      unfolding n_def by (intro open_move_legal) simp_all
    then show ?thesis by simp
  qed
  then have st: "\<forall>u \<in> set st. u \<in> set stack \<or> legal_move maze W H c u"
    by (auto simp: st_def)
  from Cons.IH [OF ds run] have "\<forall>u \<in> set stack'. u \<in> set st \<or> legal_move maze W H c u" .
  with st show ?case by blast
qed

definition dfsExplore_order :: "maze \<Rightarrow> int \<Rightarrow> int \<Rightarrow> coord \<Rightarrow> coord list \<Rightarrow> coord set
    \<Rightarrow> coord list \<Rightarrow> bool" where
  "dfsExplore_order maze W H start stack visited expl \<longleftrightarrow>
     set expl = visited \<and> (expl = [] \<longrightarrow> stack = [start]) \<and>
     expansion_order_lax maze W H start (tl expl) \<and>
     (\<forall>u \<in> set stack. u = start \<or>
        (\<exists>a \<in> insert start (set (tl expl)). legal_move maze W H a u))"

lemma dfsExplore_loop_order:
  assumes "dfsExplore_order maze W H start stack visited expl"
    and "dfsExplore_loop maze W H goal stack visited expl = Inr r"
  shows "expansion_order_lax maze W H start r"
  using assms
proof (induction maze W H goal stack visited expl rule: dfsExplore_loop.induct)
  case (1 maze W H goal visited expl)
  then show ?case by (simp add: dfsExplore_order_def)
next
  case (2 maze W H goal c stack visited expl)
  note inv = "2.prems"(1) and res = "2.prems"(2)
  from inv have vis: "set expl = visited"
    and first: "expl = [] \<longrightarrow> c # stack = [start]"
    and ord: "expansion_order_lax maze W H start (tl expl)"
    and par: "\<forall>u \<in> set (c # stack). u = start \<or>
        (\<exists>a \<in> insert start (set (tl expl)). legal_move maze W H a u)"
    unfolding dfsExplore_order_def by simp_all
  show ?case
  proof (cases "c \<in> visited")
    case True
    with res have run: "dfsExplore_loop maze W H goal stack visited expl = Inr r" by simp
    from True vis have "expl \<noteq> []" by auto
    with vis ord par have "dfsExplore_order maze W H start stack visited expl"
      unfolding dfsExplore_order_def by simp
    from "2.IH"(1) [OF True this run] show ?thesis .
  next
    case nv: False
    have ord': "expansion_order_lax maze W H start (tl (expl @ [c]))"
    proof (cases expl)
      case Nil
      then show ?thesis by (simp add: expansion_order_lax_Nil)
    next
      case (Cons x xs)
      from par have "c = start \<or>
          (\<exists>a \<in> insert start (set (tl expl)). legal_move maze W H a c)" by simp
      from expansion_order_lax_snoc [OF ord this] Cons show ?thesis by simp
    qed
    have mono: "insert start (set (tl expl)) \<subseteq> insert start (set (tl (expl @ [c])))"
      by (cases expl) auto
    have cin: "c \<in> insert start (set (tl (expl @ [c])))"
      using first by (cases expl) auto
    show ?thesis
    proof (cases "c = goal")
      case True
      with nv res have "r = tl (expl @ [c])" by simp
      with ord' show ?thesis by simp
    next
      case ng: False
      from nv ng res obtain stack' where
        push: "dfsExplore_push maze W H c (insert c visited) (rev directions) stack = Inr stack'"
        and run: "dfsExplore_loop maze W H goal stack' (insert c visited) (expl @ [c]) = Inr r"
        by (auto split: sum.splits)
      have "set (rev directions) \<subseteq> set directions" by simp
      from dfsExplore_push_parent [OF this push]
      have new: "\<forall>u \<in> set stack'. u \<in> set stack \<or> legal_move maze W H c u" .
      have par': "\<forall>u \<in> set stack'. u = start \<or>
          (\<exists>a \<in> insert start (set (tl (expl @ [c]))). legal_move maze W H a u)"
      proof
        fix u assume "u \<in> set stack'"
        with new consider "u \<in> set stack" | "legal_move maze W H c u" by blast
        then show "u = start \<or>
            (\<exists>a \<in> insert start (set (tl (expl @ [c]))). legal_move maze W H a u)"
        proof cases
          case 1
          with par have "u = start \<or>
              (\<exists>a \<in> insert start (set (tl expl)). legal_move maze W H a u)" by simp
          with mono show ?thesis by blast
        next
          case 2
          with cin show ?thesis by blast
        qed
      qed
      from vis have "set (expl @ [c]) = insert c visited" by simp
      with ord' par' have "dfsExplore_order maze W H start stack' (insert c visited) (expl @ [c])"
        unfolding dfsExplore_order_def by simp
      from "2.IH"(2) [OF nv ng push this run] show ?thesis .
    qed
  qed
qed

lemma dfsExplore_order_init: "dfsExplore_order maze W H start [start] {} []"
  by (simp add: dfsExplore_order_def expansion_order_lax_Nil)

subsection \<open>Breadth-first exploration\<close>

lemma bfsExplore_push_parent:
  assumes "set ds \<subseteq> set directions"
    and "bfsExplore_push maze W H c ds (queue, visited) = Inr (queue', visited')"
  shows "\<forall>u \<in> set queue'. u \<in> set queue \<or> legal_move maze W H c u"
  using assms
proof (induction ds arbitrary: queue visited)
  case Nil
  then show ?case by simp
next
  case (Cons d ds)
  from Cons.prems(2) obtain ok where
    ok: "open_move maze W H (fst c) (snd c) d = Inr ok"
    by (auto split: sum.splits)
  define n where "n = target (fst c) (snd c) d"
  from Cons.prems(1) have ds: "set ds \<subseteq> set directions" and d: "d \<in> set directions"
    by simp_all
  have lm: "legal_move maze W H c n" if "ok"
  proof -
    from that ok d have "legal_move maze W H (fst c, snd c) n"
      unfolding n_def by (intro open_move_legal) simp_all
    then show ?thesis by simp
  qed
  show ?case
  proof (cases "ok \<and> n \<notin> visited")
    case True
    with Cons.prems(2) ok
    have run: "bfsExplore_push maze W H c ds (queue @ [n], insert n visited)
               = Inr (queue', visited')"
      by (simp add: n_def)
    from Cons.IH [OF ds run]
    have "\<forall>u \<in> set queue'. u \<in> set (queue @ [n]) \<or> legal_move maze W H c u" .
    with True lm show ?thesis by auto
  next
    case False
    with Cons.prems(2) ok
    have run: "bfsExplore_push maze W H c ds (queue, visited) = Inr (queue', visited')"
      by (auto simp: n_def)
    from Cons.IH [OF ds run] show ?thesis .
  qed
qed

definition bfsExplore_order :: "maze \<Rightarrow> int \<Rightarrow> int \<Rightarrow> coord \<Rightarrow> coord list
    \<Rightarrow> coord list \<Rightarrow> bool" where
  "bfsExplore_order maze W H start queue expl \<longleftrightarrow>
     (expl = [] \<longrightarrow> queue = [start]) \<and>
     expansion_order_lax maze W H start (tl expl) \<and>
     (\<forall>u \<in> set queue. u = start \<or>
        (\<exists>a \<in> insert start (set (tl expl)). legal_move maze W H a u))"

lemma bfsExplore_loop_order:
  assumes "bfsExplore_order maze W H start queue expl"
    and "bfsExplore_loop maze W H goal queue visited expl = Inr r"
  shows "expansion_order_lax maze W H start r"
  using assms
proof (induction maze W H goal queue visited expl rule: bfsExplore_loop.induct)
  case (1 maze W H goal visited expl)
  then show ?case by (simp add: bfsExplore_order_def)
next
  case (2 maze W H goal c queue visited expl)
  note inv = "2.prems"(1) and res = "2.prems"(2)
  from inv have first: "expl = [] \<longrightarrow> c # queue = [start]"
    and ord: "expansion_order_lax maze W H start (tl expl)"
    and par: "\<forall>u \<in> set (c # queue). u = start \<or>
        (\<exists>a \<in> insert start (set (tl expl)). legal_move maze W H a u)"
    unfolding bfsExplore_order_def by simp_all
  have ord': "expansion_order_lax maze W H start (tl (expl @ [c]))"
  proof (cases expl)
    case Nil
    then show ?thesis by (simp add: expansion_order_lax_Nil)
  next
    case (Cons x xs)
    from par have "c = start \<or>
        (\<exists>a \<in> insert start (set (tl expl)). legal_move maze W H a c)" by simp
    from expansion_order_lax_snoc [OF ord this] Cons show ?thesis by simp
  qed
  have mono: "insert start (set (tl expl)) \<subseteq> insert start (set (tl (expl @ [c])))"
    by (cases expl) auto
  have cin: "c \<in> insert start (set (tl (expl @ [c])))"
    using first by (cases expl) auto
  show ?case
  proof (cases "c = goal")
    case True
    with res have "r = tl (expl @ [c])" by simp
    with ord' show ?thesis by simp
  next
    case ng: False
    from ng res obtain st where
      push: "bfsExplore_push maze W H c directions (queue, visited) = Inr st"
      and run: "bfsExplore_loop maze W H goal (fst st) (snd st) (expl @ [c]) = Inr r"
      by (auto split: sum.splits)
    from push have push': "bfsExplore_push maze W H c directions (queue, visited)
        = Inr (fst st, snd st)" by simp
    have "set directions \<subseteq> set directions" by simp
    from bfsExplore_push_parent [OF this push']
    have new: "\<forall>u \<in> set (fst st). u \<in> set queue \<or> legal_move maze W H c u" .
    have par': "\<forall>u \<in> set (fst st). u = start \<or>
        (\<exists>a \<in> insert start (set (tl (expl @ [c]))). legal_move maze W H a u)"
    proof
      fix u assume "u \<in> set (fst st)"
      with new consider "u \<in> set queue" | "legal_move maze W H c u" by blast
      then show "u = start \<or>
          (\<exists>a \<in> insert start (set (tl (expl @ [c]))). legal_move maze W H a u)"
      proof cases
        case 1
        with par have "u = start \<or>
            (\<exists>a \<in> insert start (set (tl expl)). legal_move maze W H a u)" by simp
        with mono show ?thesis by blast
      next
        case 2
        with cin show ?thesis by blast
      qed
    qed
    from ord' par' have "bfsExplore_order maze W H start (fst st) (expl @ [c])"
      unfolding bfsExplore_order_def by simp
    from "2.IH" [OF ng push this run] show ?thesis .
  qed
qed

lemma bfsExplore_order_init: "bfsExplore_order maze W H start [start] []"
  by (simp add: bfsExplore_order_def expansion_order_lax_Nil)

subsection \<open>A* exploration\<close>

lemma astarExplore_neighbors_parent:
  assumes "set ds \<subseteq> set directions"
    and "astarExplore_neighbors maze W H current inClosed ds (openSet, gScore, cameFrom)
       = Inr (openSet', gScore', cameFrom')"
  shows "\<forall>u \<in> fst ` set openSet'.
           u \<in> fst ` set openSet \<or> legal_move maze W H (fst current) u"
  using assms
proof (induction ds arbitrary: openSet gScore cameFrom)
  case Nil
  then show ?case by (simp add: astarExplore_neighbors.simps)
next
  case (Cons d ds)
  from Cons.prems(2) obtain ok where
    ok: "open_move maze W H (fst (fst current)) (snd (fst current)) d = Inr ok"
    by (cases "open_move maze W H (fst (fst current)) (snd (fst current)) d")
       (simp_all add: astarExplore_neighbors.simps)
  define n where "n = target (fst (fst current)) (snd (fst current)) d"
  define t where "t = snd current + 1"
  define better where "better = (case gScore n of None \<Rightarrow> True | Some v \<Rightarrow> t < v)"
  note step = Cons.prems(2) [unfolded astarExplore_neighbors.simps ok sum.case Let_def,
      folded n_def t_def, folded better_def]
  from Cons.prems(1) have ds: "set ds \<subseteq> set directions" and d: "d \<in> set directions"
    by simp_all
  have lm: "legal_move maze W H (fst current) n" if "ok"
  proof -
    from that ok d have "legal_move maze W H (fst (fst current), snd (fst current)) n"
      unfolding n_def by (intro open_move_legal) simp_all
    then show ?thesis by simp
  qed
  consider (skip) "\<not> ok \<or> n \<in> inClosed \<or> \<not> better"
    | (new) "ok" "n \<notin> inClosed" "better" "n \<notin> fst ` set openSet"
    | (update) "ok" "n \<notin> inClosed" "better" "n \<in> fst ` set openSet"
    by blast
  then show ?case
  proof cases
    case skip
    with step
    have "astarExplore_neighbors maze W H current inClosed ds (openSet, gScore, cameFrom)
        = Inr (openSet', gScore', cameFrom')"
      by (simp split: if_splits)
    from Cons.IH [OF ds this] show ?thesis .
  next
    case new
    with step
    have run: "astarExplore_neighbors maze W H current inClosed ds
        (openSet @ [(n, t)], gScore(n \<mapsto> t), cameFrom(n \<mapsto> fst current))
        = Inr (openSet', gScore', cameFrom')"
      by (simp add: find_None_coords)
    from Cons.IH [OF ds run]
    have ih: "\<forall>u \<in> fst ` set openSet'.
        u \<in> fst ` set (openSet @ [(n, t)]) \<or> legal_move maze W H (fst current) u" .
    have eq: "fst ` set (openSet @ [(n, t)]) = insert n (fst ` set openSet)" by simp
    show ?thesis
    proof
      fix u assume "u \<in> fst ` set openSet'"
      with ih have "u \<in> insert n (fst ` set openSet) \<or> legal_move maze W H (fst current) u"
        unfolding eq by (rule bspec)
      then consider "u = n" | "u \<in> fst ` set openSet" | "legal_move maze W H (fst current) u"
        by blast
      then show "u \<in> fst ` set openSet \<or> legal_move maze W H (fst current) u"
      proof cases
        case 1
        with lm [OF new(1)] show ?thesis by simp
      qed simp_all
    qed
  next
    case update
    with step
    have run: "astarExplore_neighbors maze W H current inClosed ds
        (set_first openSet n t, gScore(n \<mapsto> t), cameFrom(n \<mapsto> fst current))
        = Inr (openSet', gScore', cameFrom')"
      by (simp add: find_None_coords)
    have "map fst (set_first openSet n t) = map fst openSet"
      using update by (simp add: map_fst_set_first)
    then have "fst ` set (set_first openSet n t) = fst ` set openSet"
      by (metis set_map)
    with Cons.IH [OF ds run] show ?thesis by simp
  qed
qed

definition astarExplore_order :: "maze \<Rightarrow> int \<Rightarrow> int \<Rightarrow> coord
    \<Rightarrow> AStarExploreSearchNode list \<Rightarrow> coord list \<Rightarrow> bool" where
  "astarExplore_order maze W H start openSet expl \<longleftrightarrow>
     expansion_order_lax maze W H start expl \<and>
     (\<forall>u \<in> fst ` set openSet. u = start \<or>
        (\<exists>a \<in> insert start (set expl). legal_move maze W H a u))"

lemma astarExplore_loop_order:
  assumes "astarExplore_order maze W H start openSet expl"
    and "astarExplore_loop maze W H start goal openSet inClosed expl gScore cameFrom = Inr res"
  shows "expansion_order_lax maze W H start (fst res)"
  using assms
proof (induction maze W H start goal openSet inClosed expl gScore cameFrom
    rule: astarExplore_loop.induct)
  case (1 maze W H start goal openSet inClosed expl gScore cameFrom)
  note inv = "1.prems"(1) and res = "1.prems"(2)
  from inv have ord: "expansion_order_lax maze W H start expl"
    and par: "\<forall>u \<in> fst ` set openSet. u = start \<or>
        (\<exists>a \<in> insert start (set expl). legal_move maze W H a u)"
    unfolding astarExplore_order_def by simp_all
  show ?case
  proof (cases "openSet = []")
    case True
    with res have "res = (expl, gScore, cameFrom)"
      by (subst (asm) astarExplore_loop.simps) simp
    with ord show ?thesis by simp
  next
    case ne: False
    define sorted where "sorted = sort_key (fExplore goal) openSet"
    define cur where "cur = hd sorted"
    define rest where "rest = tl sorted"
    have un: "insert (fst cur) (fst ` set rest) = fst ` set openSet"
      unfolding cur_def rest_def sorted_def by (rule pop_sorted_coords(1) [OF ne])
    then have curin: "fst cur \<in> fst ` set openSet" and restsub: "fst ` set rest \<subseteq> fst ` set openSet"
      by blast+
    note step = res [unfolded astarExplore_loop.simps [of maze W H start goal openSet],
        unfolded Let_def, folded sorted_def, folded cur_def rest_def]
    show ?thesis
    proof (cases "fst cur \<in> inClosed")
      case True
      with step ne
      have run: "astarExplore_loop maze W H start goal rest inClosed expl gScore cameFrom
          = Inr res" by simp
      from ord par restsub have "astarExplore_order maze W H start rest expl"
        unfolding astarExplore_order_def by blast
      from "1.IH"(1) [OF ne sorted_def cur_def rest_def True this run] show ?thesis .
    next
      case nc: False
      define expl' where "expl' = (if fst cur \<noteq> start then expl @ [fst cur] else expl)"
      from par curin have cp: "fst cur = start \<or>
          (\<exists>a \<in> insert start (set expl). legal_move maze W H a (fst cur))" by blast
      have ord': "expansion_order_lax maze W H start expl'"
        unfolding expl'_def using ord expansion_order_lax_snoc [OF ord cp] by simp
      have mono: "insert start (set expl) \<subseteq> insert start (set expl')"
        by (auto simp: expl'_def)
      have cin: "fst cur \<in> insert start (set expl')"
        by (simp add: expl'_def)
      show ?thesis
      proof (cases "fst cur = goal")
        case True
        with step ne nc have "res = (expl', gScore, cameFrom)"
          by (simp add: expl'_def)
        with ord' show ?thesis by simp
      next
        case ng: False
        from step ne nc ng obtain st where
          push: "astarExplore_neighbors maze W H cur (insert (fst cur) inClosed) directions
                   (rest, gScore, cameFrom) = Inr st"
          and run: "astarExplore_loop maze W H start goal (fst st)
                   (insert (fst cur) inClosed) expl' (fst (snd st)) (snd (snd st)) = Inr res"
          by (auto simp: expl'_def split: sum.splits)
        from push have push': "astarExplore_neighbors maze W H cur (insert (fst cur) inClosed)
            directions (rest, gScore, cameFrom) = Inr (fst st, fst (snd st), snd (snd st))"
          by simp
        have "set directions \<subseteq> set directions" by simp
        from astarExplore_neighbors_parent [OF this push']
        have new: "\<forall>u \<in> fst ` set (fst st).
            u \<in> fst ` set rest \<or> legal_move maze W H (fst cur) u" .
        have par': "\<forall>u \<in> fst ` set (fst st). u = start \<or>
            (\<exists>a \<in> insert start (set expl'). legal_move maze W H a u)"
        proof
          fix u assume "u \<in> fst ` set (fst st)"
          with new consider "u \<in> fst ` set rest" | "legal_move maze W H (fst cur) u" by blast
          then show "u = start \<or>
              (\<exists>a \<in> insert start (set expl'). legal_move maze W H a u)"
          proof cases
            case 1
            with restsub par have "u = start \<or>
                (\<exists>a \<in> insert start (set expl). legal_move maze W H a u)" by blast
            with mono show ?thesis by blast
          next
            case 2
            with cin show ?thesis by blast
          qed
        qed
        from ord' par' have inv': "astarExplore_order maze W H start (fst st) expl'"
          unfolding astarExplore_order_def by simp
        from "1.IH"(2) [OF ne sorted_def cur_def rest_def nc expl'_def ng push inv' run]
        show ?thesis .
      qed
    qed
  qed
qed

lemma astarExplore_order_init: "astarExplore_order maze W H start [(start, 0)] []"
  by (simp add: astarExplore_order_def expansion_order_lax_Nil)

section \<open>Results of the dispatcher\<close>

lemma findPath_unfold:
  assumes "maze \<noteq> []"
  shows "findPath sx sy ex ey DFS maze = Some (dfs sx sy ex ey maze)"
    and "findPath sx sy ex ey BFS maze = Some (bfs sx sy ex ey maze)"
    and "findPath sx sy ex ey ASTAR maze = Some (astar sx sy ex ey maze)"
    and "findPath sx sy ex ey DFS_EXPLORE maze = Some (dfsExplore sx sy ex ey maze)"
    and "findPath sx sy ex ey BFS_EXPLORE maze = Some (bfsExplore sx sy ex ey maze)"
  using assms by (simp_all add: findPath_def)

lemma in_grid_nonempty: "in_grid maze c \<Longrightarrow> maze \<noteq> []"
  by (auto simp: in_grid_def inb_def maze_height_def)

lemma path_result_unreachable:
  assumes "path_result maze W H start goal r" and "\<not> reachable maze W H start goal"
  shows "r = []"
  using assms unfolding path_result_def reachable_def by blast

lemma reachable_no_rows:
  assumes "reachable maze W 0 a c"
  shows "c = a"
proof -
  from assms obtain p where r: "route maze W 0 a p c" unfolding reachable_def by blast
  show ?thesis
  proof (cases p)
    case Nil
    with r show ?thesis by (simp add: route_Nil)
  next
    case (Cons b q)
    with r have "legal_move maze W 0 a b" by (simp add: route_Cons)
    then show ?thesis by (simp add: legal_move_def inb_def)
  qed
qed

lemma path_mode_result:
  assumes "m \<in> {DFS, BFS, ASTAR}" and "findPath sx sy ex ey m maze = Some (Inr p)"
  shows "path_result maze (maze_width maze) (maze_height maze) (sx, sy) (ex, ey) p"
proof (cases "maze = []")
  case True
  with assms(2) show ?thesis by (simp add: findPath_def path_result_def)
next
  case ne: False
  from assms(1) consider "m = DFS" | "m = BFS" | "m = ASTAR" by auto
  then show ?thesis
  proof cases
    case 1
    with assms(2) ne have "dfs sx sy ex ey maze = Inr p" by (simp add: findPath_unfold)
    then show ?thesis by (rule dfs_path_result)
  next
    case 2
    with assms(2) ne have "bfs sx sy ex ey maze = Inr p" by (simp add: findPath_unfold)
    then show ?thesis by (rule bfs_path_result)
  next
    case 3
    with assms(2) ne have "astar sx sy ex ey maze = Inr p" by (simp add: findPath_unfold)
    then show ?thesis by (rule astar_path_result)
  qed
qed

lemma explore_mode_result:
  assumes "m \<in> {DFS_EXPLORE, BFS_EXPLORE, ASTAR_EXPLORE}"
    and "findPath sx sy ex ey m maze = Some (Inr p)"
  shows "explore_result maze (maze_width maze) (maze_height maze) (sx, sy) (ex, ey) p"
proof (cases maze)
  case Nil
  have "{c. reachable maze (maze_width maze) (maze_height maze) (sx, sy) c} = {(sx, sy)}"
    using reachable_no_rows [of maze "maze_width maze" "(sx, sy)"] reachable_refl
    by (auto simp: Nil maze_height_def)
  with Nil assms(2) show ?thesis by (simp add: findPath_def explore_result_def)
next
  case (Cons row0 rows)
  then have ne: "maze \<noteq> []" by simp
  from assms(1) consider "m = DFS_EXPLORE" | "m = BFS_EXPLORE" | "m = ASTAR_EXPLORE" by auto
  then show ?thesis
  proof cases
    case 1
    with assms(2) ne have "dfsExplore sx sy ex ey maze = Inr p" by (simp add: findPath_unfold)
    then show ?thesis by (rule dfsExplore_result)
  next
    case 2
    with assms(2) ne have "bfsExplore sx sy ex ey maze = Inr p" by (simp add: findPath_unfold)
    then show ?thesis by (rule bfsExplore_result)
  next
    case 3
    from Cons show ?thesis
    proof (cases rule: astarExplore_cases [of maze row0 rows sx sy ex ey])
      case (error e)
      with assms(2) ne 3 show ?thesis by (simp add: findPath_def)
    next
      case (ok res r)
      with assms(2) ne 3 have "p = fst res" by (simp add: findPath_def)
      with ok(2) show ?thesis unfolding explore_post_def by simp
    qed
  qed
qed

lemma explore_mode_order:
  assumes "m \<in> {DFS_EXPLORE, BFS_EXPLORE, ASTAR_EXPLORE}"
    and "findPath sx sy ex ey m maze = Some (Inr p)"
  shows "expansion_order maze (maze_width maze) (maze_height maze) (sx, sy) p"
proof (cases maze)
  case Nil
  with assms(2) show ?thesis by (simp add: findPath_def expansion_order_def)
next
  case (Cons row0 rows)
  then have ne: "maze \<noteq> []" by simp
  let ?W = "maze_width maze" and ?H = "maze_height maze"
  from explore_mode_result [OF assms] have ns: "(sx, sy) \<notin> set p"
    unfolding explore_result_def by simp
  have "expansion_order_lax maze ?W ?H (sx, sy) p"
  proof -
    from assms(1) consider "m = DFS_EXPLORE" | "m = BFS_EXPLORE" | "m = ASTAR_EXPLORE" by auto
    then show ?thesis
    proof cases
      case 1
      with assms(2) ne have "dfsExplore sx sy ex ey maze = Inr p" by (simp add: findPath_unfold)
      with Cons have "dfsExplore_loop maze ?W ?H (ex, ey) [(sx, sy)] {} [] = Inr p"
        by (simp add: dfsExplore_def maze_width_def maze_height_def)
      with dfsExplore_order_init show ?thesis by (rule dfsExplore_loop_order)
    next
      case 2
      with assms(2) ne have "bfsExplore sx sy ex ey maze = Inr p" by (simp add: findPath_unfold)
      with Cons have "bfsExplore_loop maze ?W ?H (ex, ey) [(sx, sy)] {(sx, sy)} [] = Inr p"
        by (simp add: bfsExplore_def maze_width_def maze_height_def)
      with bfsExplore_order_init show ?thesis by (rule bfsExplore_loop_order)
    next
      case 3
      from Cons show ?thesis
      proof (cases rule: astarExplore_cases [of maze row0 rows sx sy ex ey])
        case (error e)
        with assms(2) ne 3 show ?thesis by (simp add: findPath_def)
      next
        case (ok res r)
        with assms(2) ne 3 have "p = fst res" by (simp add: findPath_def)
        with astarExplore_loop_order [OF astarExplore_order_init ok(1)] show ?thesis by simp
      qed
    qed
  qed
  then show ?thesis using ns by (rule expansion_order_strict)
qed

lemma path_mode_same_cell:
  assumes "m \<in> {DFS, BFS, ASTAR}"
  shows "findPath sx sy sx sy m maze = Some (Inr [])"
proof (cases maze)
  case Nil
  then show ?thesis by (simp add: findPath_def)
next
  case (Cons row0 rows)
  from assms consider "m = DFS" | "m = BFS" | "m = ASTAR" by auto
  then show ?thesis
  proof cases
    case 1
    then show ?thesis by (simp add: findPath_def dfs_def Cons)
  next
    case 2
    then show ?thesis by (simp add: findPath_def bfs_def Cons)
  next
    case 3
    then show ?thesis by (simp add: findPath_def astar_def Cons astar_loop_at_goal)
  qed
qed

lemma findPath_returns:
  assumes "rectangular maze" and "in_grid maze (sx, sy)"
  shows "\<exists>p. findPath sx sy ex ey m maze = Some (Inr p)"
proof -
  note ne = in_grid_nonempty [OF assms(2)]
  show ?thesis
  proof (cases m)
    case DFS
    with dfs_returns [OF assms] ne show ?thesis by (simp add: findPath_unfold)
  next
    case BFS
    with bfs_returns [OF assms] ne show ?thesis by (simp add: findPath_unfold)
  next
    case ASTAR
    with astar_returns [OF assms] ne show ?thesis by (simp add: findPath_unfold)
  next
    case DFS_EXPLORE
    with dfsExplore_returns [OF assms] ne show ?thesis by (simp add: findPath_unfold)
  next
    case BFS_EXPLORE
    with bfsExplore_returns [OF assms] ne show ?thesis by (simp add: findPath_unfold)
  next
    case ASTAR_EXPLORE
    from assms(2) obtain row0 rows where mz: "maze = row0 # rows" by (rule in_grid_Cons)
    from astarExplore_returns [OF assms] obtain res0 where
      loop: "astarExplore_loop maze (maze_width maze) (maze_height maze) (sx, sy) (ex, ey)
         [((sx, sy), 0)] {} [] [(sx, sy) \<mapsto> 0] Map.empty = Inr res0" by blast
    from mz show ?thesis
    proof (cases rule: astarExplore_cases [of maze row0 rows sx sy ex ey])
      case (error e)
      with loop show ?thesis by simp
    next
      case (ok res r)
      with ne ASTAR_EXPLORE show ?thesis by (simp add: findPath_def)
    qed
  qed
qed

section \<open>Starts with no neighbour inside the grid\<close>

lemma open_move_blocked:
  assumes "target x y d \<notin> inb W H"
  shows "open_move maze W H x y d = Inr False"
  using assms unfolding open_move_def target_def inb_def by (cases d) auto

lemma dfs_push_blocked:
  assumes "\<forall>d \<in> set ds. target (fst (fst node)) (snd (fst node)) d \<notin> inb W H"
  shows "dfs_push maze W H node visited ds stack = Inr stack"
  using assms by (induction ds) (simp_all add: open_move_blocked)

lemma bfs_push_blocked:
  assumes "\<forall>d \<in> set ds. target (fst (fst node)) (snd (fst node)) d \<notin> inb W H"
  shows "bfs_push maze W H node ds (queue, visited) = Inr (queue, visited)"
  using assms by (induction ds) (simp_all add: open_move_blocked)

lemma astar_neighbors_blocked:
  assumes "\<forall>d \<in> set ds. target (fst (fst node)) (snd (fst node)) d \<notin> inb W H"
  shows "astar_neighbors maze W H node C ds (openSet, gScore) = Inr (openSet, gScore)"
  using assms by (induction ds) (simp_all add: astar_neighbors.simps open_move_blocked)

lemma isolated_start_no_path:
  assumes m: "m \<in> {DFS, BFS, ASTAR}"
    and blocked: "\<forall>d \<in> set directions. target sx sy d \<notin> inb (maze_width maze) (maze_height maze)"
  shows "findPath sx sy ex ey m maze = Some (Inr [])"
proof (cases maze)
  case Nil
  then show ?thesis by (simp add: findPath_def)
next
  case (Cons row0 rows)
  define W where "W = maze_width maze"
  define H where "H = maze_height maze"
  define node :: SearchNode where "node = ((sx, sy), [(sx, sy)])"
  have ne: "maze \<noteq> []" using Cons by simp
  have nd: "fst node = (sx, sy)" "snd node = [(sx, sy)]" by (simp_all add: node_def)
  from blocked have b: "\<forall>d \<in> set directions.
      target (fst (fst node)) (snd (fst node)) d \<notin> inb W H"
    by (simp add: node_def W_def H_def)
  then have b': "\<forall>d \<in> set (rev directions).
      target (fst (fst node)) (snd (fst node)) d \<notin> inb W H"
    by simp
  from m consider "m = DFS" | "m = BFS" | "m = ASTAR" by auto
  then show ?thesis
  proof cases
    case 1
    have "dfs sx sy ex ey maze = dfs_loop maze W H (ex, ey) [node] {}"
      using Cons by (simp add: dfs_def W_def H_def node_def maze_width_def maze_height_def)
    also have "\<dots> = Inr []"
      by (simp add: dfs_push_blocked [OF b'] nd)
    finally show ?thesis using 1 ne by (simp add: findPath_unfold)
  next
    case 2
    have "bfs sx sy ex ey maze = bfs_loop maze W H (ex, ey) [node] {(sx, sy)}"
      using Cons by (simp add: bfs_def W_def H_def node_def maze_width_def maze_height_def)
    also have "\<dots> = Inr []"
      by (simp add: bfs_push_blocked [OF b] nd)
    finally show ?thesis using 2 ne by (simp add: findPath_unfold)
  next
    case 3
    have "astar sx sy ex ey maze
        = astar_loop maze W H (ex, ey) [node] {} [(sx, sy) \<mapsto> 0]"
      using Cons by (simp add: astar_def W_def H_def node_def maze_width_def maze_height_def)
    also have "\<dots> = Inr []"
      by (subst astar_loop.simps)
         (simp add: Let_def astar_neighbors_blocked [OF b] astar_loop_Nil nd)
    finally show ?thesis using 3 ne by (simp add: findPath_unfold)
  qed
qed

section \<open>Shortest paths\<close>

text \<open>
  Claim C1. For every rectangular grid and every start inside the grid, \<open>findPath\<close> with
  strategy ASTAR returns a sequence. If the goal is reachable from the start, the sequence is
  a route of legal moves from the start to the goal, and no route from the start to the goal
  has fewer moves; if the goal is unreachable, the sequence is empty.
\<close>

theorem astar_shortest_path:
  assumes "rectangular maze" and "in_grid maze (sx, sy)"
  shows "\<exists>p. findPath sx sy ex ey ASTAR maze = Some (Inr p) \<and>
    (if reachable maze (maze_width maze) (maze_height maze) (sx, sy) (ex, ey)
     then route maze (maze_width maze) (maze_height maze) (sx, sy) p (ex, ey) \<and>
          (\<forall>q. route maze (maze_width maze) (maze_height maze) (sx, sy) q (ex, ey)
             \<longrightarrow> length p \<le> length q)
     else p = [])"
proof -
  from astar_returns [OF assms] obtain p where p: "astar sx sy ex ey maze = Inr p" by blast
  from in_grid_nonempty [OF assms(2)]
  have f: "findPath sx sy ex ey ASTAR maze = Some (Inr p)"
    by (simp add: findPath_unfold p)
  show ?thesis
  proof (cases "reachable maze (maze_width maze) (maze_height maze) (sx, sy) (ex, ey)")
    case True
    from astar_optimal [OF True p] True f show ?thesis by simp
  next
    case False
    from path_result_unreachable [OF astar_path_result [OF p] False] False f
    show ?thesis by simp
  qed
qed

theorem astar_shortest_path_witness:
  "rectangular corridor2 \<and> in_grid corridor2 (0, 0) \<and>
   (\<exists>p. findPath 0 0 1 0 ASTAR corridor2 = Some (Inr p) \<and>
    (if reachable corridor2 (maze_width corridor2) (maze_height corridor2) (0, 0) (1, 0)
     then route corridor2 (maze_width corridor2) (maze_height corridor2) (0, 0) p (1, 0) \<and>
          (\<forall>q. route corridor2 (maze_width corridor2) (maze_height corridor2) (0, 0) q (1, 0)
             \<longrightarrow> length p \<le> length q)
     else p = []))"
proof -
  have h1: "rectangular corridor2" and h2: "in_grid corridor2 (0, 0)"
    by (simp_all add: corridor2_facts)
  from h1 h2 astar_shortest_path [OF h1 h2, of 1 0] show ?thesis by (intro conjI)
qed

text \<open>
  Claim C2. For every rectangular grid and every start inside the grid with the goal
  reachable from the start, \<open>findPath\<close> with strategy BFS returns a route of legal moves from
  the start to the goal, and no route from the start to the goal has fewer moves.
\<close>

theorem bfs_shortest_path:
  assumes "rectangular maze" and "in_grid maze (sx, sy)"
    and "reachable maze (maze_width maze) (maze_height maze) (sx, sy) (ex, ey)"
  shows "\<exists>p. findPath sx sy ex ey BFS maze = Some (Inr p) \<and>
    route maze (maze_width maze) (maze_height maze) (sx, sy) p (ex, ey) \<and>
    (\<forall>q. route maze (maze_width maze) (maze_height maze) (sx, sy) q (ex, ey)
       \<longrightarrow> length p \<le> length q)"
proof -
  from bfs_returns [OF assms(1,2)] obtain p where p: "bfs sx sy ex ey maze = Inr p" by blast
  from in_grid_nonempty [OF assms(2)]
  have "findPath sx sy ex ey BFS maze = Some (Inr p)"
    by (simp add: findPath_unfold p)
  with bfs_optimal [OF assms(3) p] show ?thesis by blast
qed

theorem bfs_shortest_path_witness:
  "rectangular corridor2 \<and> in_grid corridor2 (0, 0) \<and>
   reachable corridor2 (maze_width corridor2) (maze_height corridor2) (0, 0) (1, 0) \<and>
   (\<exists>p. findPath 0 0 1 0 BFS corridor2 = Some (Inr p) \<and>
    route corridor2 (maze_width corridor2) (maze_height corridor2) (0, 0) p (1, 0) \<and>
    (\<forall>q. route corridor2 (maze_width corridor2) (maze_height corridor2) (0, 0) q (1, 0)
       \<longrightarrow> length p \<le> length q))"
proof -
  have h1: "rectangular corridor2" and h2: "in_grid corridor2 (0, 0)"
    by (simp_all add: corridor2_facts)
  note h3 = corridor2_reachable
  from h1 h2 h3 bfs_shortest_path [OF h1 h2 h3] show ?thesis by (intro conjI)
qed

text \<open>
  Claim C3. For every grid, start and goal: whenever \<open>astar\<close> returns a path and
  \<open>astarExplore\<close> returns a result, the path and the \<open>path\<close> field of the result have equal
  length; when the goal is reachable that length is the number of moves of some route to
  the goal and no route to the goal has fewer moves, and when the goal is unreachable both
  are empty. On a rectangular grid with the start inside it, both do return.
\<close>

theorem astar_variants_agree:
  "(\<forall>p r. astar sx sy ex ey maze = Inr p \<and> astarExplore sx sy ex ey maze = Some (Inr r) \<longrightarrow>
      length (path r) = length p \<and>
      (if reachable maze (maze_width maze) (maze_height maze) (sx, sy) (ex, ey)
       then (\<exists>q. route maze (maze_width maze) (maze_height maze) (sx, sy) q (ex, ey) \<and>
               length q = length p) \<and>
            (\<forall>q. route maze (maze_width maze) (maze_height maze) (sx, sy) q (ex, ey)
               \<longrightarrow> length p \<le> length q)
       else p = [] \<and> path r = [])) \<and>
   (rectangular maze \<and> in_grid maze (sx, sy) \<longrightarrow>
      (\<exists>p r. astar sx sy ex ey maze = Inr p \<and> astarExplore sx sy ex ey maze = Some (Inr r)))"
proof (rule conjI; intro allI impI)
  fix p r
  let ?W = "maze_width maze" and ?H = "maze_height maze"
  assume pr: "astar sx sy ex ey maze = Inr p \<and> astarExplore sx sy ex ey maze = Some (Inr r)"
  then have p: "astar sx sy ex ey maze = Inr p"
    and r: "astarExplore sx sy ex ey maze = Some (Inr r)" by simp_all
  from p obtain row0 rows where m: "maze = row0 # rows"
    by (cases maze) (simp_all add: astar_def)
  from m obtain res where
    post: "explore_post maze ?W ?H (sx, sy) (ex, ey) res"
    and len: "length (path r) = (case fst (snd res) (ex, ey) of None \<Rightarrow> 0 | Some k \<Rightarrow> k)"
  proof (cases rule: astarExplore_cases [of maze row0 rows sx sy ex ey])
    case (error e)
    with r show ?thesis by simp
  next
    case (ok res r')
    from ok(3) r have "r' = r" by simp
    with ok show ?thesis by (intro that) simp_all
  qed
  from post have opt: "\<forall>k. fst (snd res) (ex, ey) = Some k \<longrightarrow>
        (\<exists>q. route maze ?W ?H (sx, sy) q (ex, ey) \<and> length q = k) \<and>
        (\<forall>q. route maze ?W ?H (sx, sy) q (ex, ey) \<longrightarrow> k \<le> length q)"
    and def: "reachable maze ?W ?H (sx, sy) (ex, ey) \<longrightarrow> fst (snd res) (ex, ey) \<noteq> None"
    unfolding explore_post_def by simp_all
  show "length (path r) = length p \<and>
      (if reachable maze ?W ?H (sx, sy) (ex, ey)
       then (\<exists>q. route maze ?W ?H (sx, sy) q (ex, ey) \<and> length q = length p) \<and>
            (\<forall>q. route maze ?W ?H (sx, sy) q (ex, ey) \<longrightarrow> length p \<le> length q)
       else p = [] \<and> path r = [])"
  proof (cases "reachable maze ?W ?H (sx, sy) (ex, ey)")
    case True
    from astar_optimal [OF True p]
    have rp: "route maze ?W ?H (sx, sy) p (ex, ey)"
      and mp: "\<forall>q. route maze ?W ?H (sx, sy) q (ex, ey) \<longrightarrow> length p \<le> length q"
      by simp_all
    from def True obtain k where k: "fst (snd res) (ex, ey) = Some k" by auto
    with opt obtain q where q: "route maze ?W ?H (sx, sy) q (ex, ey)" "length q = k"
      and mk: "\<forall>q. route maze ?W ?H (sx, sy) q (ex, ey) \<longrightarrow> k \<le> length q"
      by blast
    from mp q have "length p \<le> k" by blast
    moreover from mk rp have "k \<le> length p" by blast
    ultimately have "k = length p" by simp
    with len k have "length (path r) = length p" by simp
    moreover from rp have "\<exists>q. route maze ?W ?H (sx, sy) q (ex, ey) \<and> length q = length p"
      by blast
    ultimately show ?thesis using mp True by simp
  next
    case False
    from path_result_unreachable [OF astar_path_result [OF p] False] have pe: "p = []" .
    have "fst (snd res) (ex, ey) = None"
    proof (rule ccontr)
      assume "fst (snd res) (ex, ey) \<noteq> None"
      then obtain k where "fst (snd res) (ex, ey) = Some k" by auto
      with opt have "\<exists>q. route maze ?W ?H (sx, sy) q (ex, ey)" by blast
      with False show False by (simp add: reachable_def)
    qed
    with len have "path r = []" by simp
    with pe False show ?thesis by simp
  qed
next
  assume a: "rectangular maze \<and> in_grid maze (sx, sy)"
  then have rect: "rectangular maze" and st: "in_grid maze (sx, sy)" by simp_all
  from astar_returns [OF rect st] obtain p where p: "astar sx sy ex ey maze = Inr p" by blast
  from findPath_returns [OF rect st, of ex ey ASTAR_EXPLORE] obtain xs where
    "findPath sx sy ex ey ASTAR_EXPLORE maze = Some (Inr xs)" by blast
  with in_grid_nonempty [OF st] obtain r where "astarExplore sx sy ex ey maze = Some (Inr r)"
    by (auto simp: findPath_def split: option.splits sum.splits)
  with p show "\<exists>p r. astar sx sy ex ey maze = Inr p \<and>
      astarExplore sx sy ex ey maze = Some (Inr r)" by blast
qed

theorem astar_variants_agree_witness:
  "astar 0 0 1 0 corridor2 = Inr [(1, 0)] \<and>
   astarExplore 0 0 1 0 corridor2 = Some (Inr \<lparr>explored = [(1, 0)], path = [(1, 0)]\<rparr>) \<and>
   length (path \<lparr>explored = [(1, 0) :: coord], path = [(1, 0) :: coord]\<rparr>)
     = length [(1, 0) :: coord] \<and>
   reachable corridor2 (maze_width corridor2) (maze_height corridor2) (0, 0) (1, 0) \<and>
   (\<exists>q. route corridor2 (maze_width corridor2) (maze_height corridor2) (0, 0) q (1, 0) \<and>
      length q = 1) \<and>
   rectangular corridor2 \<and> in_grid corridor2 (0, 0) \<and>
   (\<exists>p r. astar 0 0 1 0 corridor2 = Inr p \<and> astarExplore 0 0 1 0 corridor2 = Some (Inr r))"
proof -
  have h1: "astar 0 0 1 0 corridor2 = Inr [(1, 0)]" by code_simp
  have h2: "astarExplore 0 0 1 0 corridor2
      = Some (Inr \<lparr>explored = [(1, 0)], path = [(1, 0)]\<rparr>)" by code_simp
  have h3: "rectangular corridor2" and h4: "in_grid corridor2 (0, 0)"
    by (simp_all add: corridor2_facts)
  note h5 = corridor2_reachable
  from astar_variants_agree [of 0 0 1 0 corridor2] h1 h2 h3 h4 h5
  show ?thesis by simp
qed

section \<open>Shape of the returned sequence\<close>

text \<open>
  Claim C4. For every grid, every start and goal and each of the six strategies, a sequence
  returned by \<open>findPath\<close> does not contain the start coordinate.
\<close>

theorem result_excludes_start:
  assumes "findPath sx sy ex ey m maze = Some (Inr p)"
  shows "(sx, sy) \<notin> set p"
proof (cases "maze = []")
  case True
  with assms show ?thesis by (simp add: findPath_def)
next
  case ne: False
  then obtain row0 rows where mz: "maze = row0 # rows" by (cases maze) auto
  let ?W = "maze_width maze" and ?H = "maze_height maze"
  have pr: "(sx, sy) \<notin> set r" if "path_result maze ?W ?H (sx, sy) (ex, ey) r" for r
    using that unfolding path_result_def by auto
  have er: "(sx, sy) \<notin> set r" if "explore_result maze ?W ?H (sx, sy) (ex, ey) r" for r
    using that unfolding explore_result_def by simp
  show ?thesis
  proof (cases m)
    case DFS
    with assms ne have "dfs sx sy ex ey maze = Inr p" by (simp add: findPath_unfold)
    from pr [OF dfs_path_result [OF this]] show ?thesis .
  next
    case BFS
    with assms ne have "bfs sx sy ex ey maze = Inr p" by (simp add: findPath_unfold)
    from pr [OF bfs_path_result [OF this]] show ?thesis .
  next
    case ASTAR
    with assms ne have "astar sx sy ex ey maze = Inr p" by (simp add: findPath_unfold)
    from pr [OF astar_path_result [OF this]] show ?thesis .
  next
    case DFS_EXPLORE
    with assms ne have "dfsExplore sx sy ex ey maze = Inr p" by (simp add: findPath_unfold)
    from er [OF dfsExplore_result [OF this]] show ?thesis .
  next
    case BFS_EXPLORE
    with assms ne have "bfsExplore sx sy ex ey maze = Inr p" by (simp add: findPath_unfold)
    from er [OF bfsExplore_result [OF this]] show ?thesis .
  next
    case ASTAR_EXPLORE
    from mz show ?thesis
    proof (cases rule: astarExplore_cases [of maze row0 rows sx sy ex ey])
      case (error e)
      with assms ne ASTAR_EXPLORE show ?thesis by (simp add: findPath_def)
    next
      case (ok res r)
      with assms ne ASTAR_EXPLORE have "p = fst res" by (simp add: findPath_def)
      with ok(2) show ?thesis unfolding explore_post_def by (simp add: er)
    qed
  qed
qed

theorem result_excludes_start_witness:
  "findPath 0 0 2 0 DFS_EXPLORE walled3 = Some (Inr [(1, 0)]) \<and> (0, 0) \<notin> set [(1, 0) :: coord]"
proof -
  have h: "findPath 0 0 2 0 DFS_EXPLORE walled3 = Some (Inr [(1, 0)])"
    by code_simp
  from h result_excludes_start [OF h] show ?thesis by (rule conjI)
qed

text \<open>
  Claim C5. For every grid, every start inside the grid, every goal and each path-mode
  strategy (DFS, BFS, ASTAR): a sequence returned by \<open>findPath\<close> is either empty or, prefixed
  with the start, a chain of legal moves (each a unit step along one axis, into the grid,
  with the wall flag of the cell being left false for that direction) whose coordinates all
  lie inside the grid and whose last coordinate is the goal. On a rectangular grid a
  sequence is returned.
\<close>

theorem path_is_legal_chain:
  assumes "in_grid maze (sx, sy)" and "m \<in> {DFS, BFS, ASTAR}"
  shows "(\<forall>p. findPath sx sy ex ey m maze = Some (Inr p) \<longrightarrow>
            p = [] \<or>
            route maze (maze_width maze) (maze_height maze) (sx, sy) p (ex, ey) \<and>
            (\<forall>c \<in> set ((sx, sy) # p). in_grid maze c)) \<and>
         (rectangular maze \<longrightarrow> (\<exists>p. findPath sx sy ex ey m maze = Some (Inr p)))"
proof (rule conjI; intro allI impI)
  fix p
  assume "findPath sx sy ex ey m maze = Some (Inr p)"
  from path_mode_result [OF assms(2) this] assms(1)
  show "p = [] \<or>
      route maze (maze_width maze) (maze_height maze) (sx, sy) p (ex, ey) \<and>
      (\<forall>c \<in> set ((sx, sy) # p). in_grid maze c)"
    unfolding path_result_def in_grid_def by auto
next
  assume "rectangular maze"
  from findPath_returns [OF this assms(1)]
  show "\<exists>p. findPath sx sy ex ey m maze = Some (Inr p)" .
qed

theorem path_is_legal_chain_witness:
  "in_grid corridor2 (0, 0) \<and> DFS \<in> {DFS, BFS, ASTAR} \<and>
   findPath 0 0 1 0 DFS corridor2 = Some (Inr [(1, 0)]) \<and>
   route corridor2 (maze_width corridor2) (maze_height corridor2) (0, 0) [(1, 0)] (1, 0) \<and>
   in_grid corridor2 (1, 0) \<and> rectangular corridor2 \<and>
   (\<exists>p. findPath 0 0 1 0 DFS corridor2 = Some (Inr p))"
proof -
  have h1: "in_grid corridor2 (0, 0)" and h2: "rectangular corridor2"
    by (simp_all add: corridor2_facts)
  have h3: "DFS \<in> {DFS, BFS, ASTAR}" by simp
  have h4: "findPath 0 0 1 0 DFS corridor2 = Some (Inr [(1, 0)])" by code_simp
  from path_is_legal_chain [OF h1 h3, of 1 0] h1 h2 h3 h4 show ?thesis by simp
qed

text \<open>
  Claim C10. For every grid, start and goal, a sequence returned by a path-mode strategy
  (DFS, BFS, ASTAR) contains no coordinate twice, nor does it when prefixed with the start.
  On a rectangular grid with the start inside it a sequence is returned.
\<close>

theorem path_is_simple:
  assumes "m \<in> {DFS, BFS, ASTAR}"
  shows "(\<forall>p. findPath sx sy ex ey m maze = Some (Inr p) \<longrightarrow>
            distinct p \<and> distinct ((sx, sy) # p)) \<and>
         (rectangular maze \<and> in_grid maze (sx, sy) \<longrightarrow>
            (\<exists>p. findPath sx sy ex ey m maze = Some (Inr p)))"
proof (rule conjI; intro allI impI)
  fix p
  assume "findPath sx sy ex ey m maze = Some (Inr p)"
  from path_mode_result [OF assms this]
  show "distinct p \<and> distinct ((sx, sy) # p)"
    unfolding path_result_def by auto
next
  assume "rectangular maze \<and> in_grid maze (sx, sy)"
  then have "rectangular maze" and "in_grid maze (sx, sy)" by simp_all
  then show "\<exists>p. findPath sx sy ex ey m maze = Some (Inr p)" by (rule findPath_returns)
qed

theorem path_is_simple_witness:
  "ASTAR \<in> {DFS, BFS, ASTAR} \<and>
   findPath 0 0 1 0 ASTAR corridor2 = Some (Inr [(1, 0)]) \<and>
   distinct [(1, 0) :: coord] \<and> distinct [(0, 0), (1, 0) :: coord] \<and>
   rectangular corridor2 \<and> in_grid corridor2 (0, 0) \<and>
   (\<exists>p. findPath 0 0 1 0 ASTAR corridor2 = Some (Inr p))"
proof -
  have h1: "in_grid corridor2 (0, 0)" and h2: "rectangular corridor2"
    by (simp_all add: corridor2_facts)
  have h3: "ASTAR \<in> {DFS, BFS, ASTAR}" by simp
  have h4: "findPath 0 0 1 0 ASTAR corridor2 = Some (Inr [(1, 0)])" by code_simp
  from path_is_simple [OF h3, of 0 0 1 0 corridor2] h1 h2 h3 h4 show ?thesis by simp
qed

section \<open>Start or goal outside the grid\<close>

text \<open>
  Claim C6, as stated, fails: on a grid of one cell, with the start one step to the left of
  the grid, the neighbour to the right passes the bounds test and the search then reads
  \<open>maze[0][-1]\<close>, which is \<open>undefined\<close>; calling \<open>wall\<close> on it throws a TypeError.
\<close>

theorem outside_start_raises:
  "findPath (-1) 0 0 0 DFS [[\<lparr>north = True, east = True, south = True, west = True\<rparr>]]
     = Some (Inl TypeError)"
  by code_simp

text \<open>
  Claim C6, amended. For every grid and every path-mode strategy (DFS, BFS, ASTAR),
  \<open>findPath\<close> returns the empty sequence and raises no error in each of these cases: the
  grid is rectangular, the start lies inside it and the goal outside it; or the start lies
  outside the grid and either equals the goal or has none of its four neighbours inside
  the grid.
\<close>

theorem outside_grid_no_path:
  assumes "m \<in> {DFS, BFS, ASTAR}"
    and "rectangular maze \<and> in_grid maze (sx, sy) \<and> \<not> in_grid maze (ex, ey) \<or>
         \<not> in_grid maze (sx, sy) \<and>
           ((sx, sy) = (ex, ey) \<or>
            \<not> in_grid maze (sx, sy - 1) \<and> \<not> in_grid maze (sx + 1, sy) \<and>
            \<not> in_grid maze (sx, sy + 1) \<and> \<not> in_grid maze (sx - 1, sy))"
  shows "findPath sx sy ex ey m maze = Some (Inr [])"
proof -
  let ?W = "maze_width maze" and ?H = "maze_height maze"
  from assms(2) consider
    (goal_out) "rectangular maze" "in_grid maze (sx, sy)" "\<not> in_grid maze (ex, ey)"
    | (same) "(sx, sy) = (ex, ey)"
    | (isolated) "\<not> in_grid maze (sx, sy - 1)" "\<not> in_grid maze (sx + 1, sy)"
        "\<not> in_grid maze (sx, sy + 1)" "\<not> in_grid maze (sx - 1, sy)"
    by blast
  then show ?thesis
  proof cases
    case goal_out
    from findPath_returns [OF goal_out(1,2)] obtain p where
      f: "findPath sx sy ex ey m maze = Some (Inr p)" by blast
    from path_mode_result [OF assms(1) f]
    have pr: "path_result maze ?W ?H (sx, sy) (ex, ey) p" .
    have "p = []"
    proof (rule ccontr)
      assume pne: "p \<noteq> []"
      with pr have r: "route maze ?W ?H (sx, sy) p (ex, ey)" and i: "set p \<subseteq> inb ?W ?H"
        unfolding path_result_def by simp_all
      from r pne have "last p = (ex, ey)" by (simp add: route_def)
      with pne have "(ex, ey) \<in> set p" by (metis last_in_set)
      with i goal_out(3) show False by (auto simp: in_grid_def)
    qed
    with f show ?thesis by simp
  next
    case same
    then have "ex = sx" "ey = sy" by simp_all
    with path_mode_same_cell [OF assms(1), of sx sy maze] show ?thesis by simp
  next
    case isolated
    then have "\<forall>d \<in> set directions. target sx sy d \<notin> inb ?W ?H"
      by (simp add: directions_def target_def in_grid_def)
    from isolated_start_no_path [OF assms(1) this] show ?thesis .
  qed
qed

theorem outside_grid_no_path_witness:
  "BFS \<in> {DFS, BFS, ASTAR} \<and> rectangular corridor2 \<and>
   in_grid corridor2 (0, 0) \<and> \<not> in_grid corridor2 (2, 0) \<and>
   findPath 0 0 2 0 BFS corridor2 = Some (Inr [])"
proof -
  have h1: "rectangular corridor2" by (simp add: corridor2_facts)
  have h2: "BFS \<in> {DFS, BFS, ASTAR}" by simp
  have h3: "in_grid corridor2 (0, 0)" by (simp add: corridor2_facts)
  have h4: "\<not> in_grid corridor2 (2, 0)"
    by (simp add: in_grid_def corridor2_facts inb_def)
  from h1 h3 h4 have "rectangular corridor2 \<and> in_grid corridor2 (0, 0) \<and>
           \<not> in_grid corridor2 (2, 0) \<or>
         \<not> in_grid corridor2 (0, 0) \<and>
           ((0, 0) = (2 :: int, 0 :: int) \<or>
            \<not> in_grid corridor2 (0, 0 - 1) \<and> \<not> in_grid corridor2 (0 + 1, 0) \<and>
            \<not> in_grid corridor2 (0, 0 + 1) \<and> \<not> in_grid corridor2 (0 - 1, 0))"
    by blast
  from h2 h1 h3 h4 outside_grid_no_path [OF h2 this] show ?thesis by (intro conjI)
qed

section \<open>Unreachable goals\<close>

text \<open>
  Claim C7. For every grid, start and goal with the goal unreachable from the start: a
  sequence returned by a path-mode strategy (DFS, BFS, ASTAR) is empty, and a sequence
  returned by an explore-mode strategy (DFS_EXPLORE, BFS_EXPLORE, ASTAR_EXPLORE) lists,
  without repetition, exactly the cells reachable from the start other than the start
  itself, each one after the start or a listed cell from which a legal move enters it, so
  it is not empty when another cell is reachable. On a rectangular grid with the start
  inside it a sequence is returned.
\<close>

theorem unreachable_goal_results:
  assumes "\<not> reachable maze (maze_width maze) (maze_height maze) (sx, sy) (ex, ey)"
  shows "(\<forall>p. findPath sx sy ex ey m maze = Some (Inr p) \<longrightarrow>
            (if m \<in> {DFS, BFS, ASTAR} then p = []
             else distinct p \<and>
                  set p = {c. reachable maze (maze_width maze) (maze_height maze) (sx, sy) c}
                          - {(sx, sy)} \<and>
                  expansion_order maze (maze_width maze) (maze_height maze) (sx, sy) p \<and>
                  ((\<exists>c. c \<noteq> (sx, sy) \<and>
                       reachable maze (maze_width maze) (maze_height maze) (sx, sy) c)
                   \<longrightarrow> p \<noteq> []))) \<and>
         (rectangular maze \<and> in_grid maze (sx, sy) \<longrightarrow>
            (\<exists>p. findPath sx sy ex ey m maze = Some (Inr p)))"
proof (rule conjI; intro allI impI)
  fix p
  let ?W = "maze_width maze" and ?H = "maze_height maze"
  assume f: "findPath sx sy ex ey m maze = Some (Inr p)"
  show "if m \<in> {DFS, BFS, ASTAR} then p = []
        else distinct p \<and> set p = {c. reachable maze ?W ?H (sx, sy) c} - {(sx, sy)} \<and>
             expansion_order maze ?W ?H (sx, sy) p \<and>
             ((\<exists>c. c \<noteq> (sx, sy) \<and> reachable maze ?W ?H (sx, sy) c) \<longrightarrow> p \<noteq> [])"
  proof (cases "m \<in> {DFS, BFS, ASTAR}")
    case True
    from path_result_unreachable [OF path_mode_result [OF True f] assms] True
    show ?thesis by simp
  next
    case False
    then have em: "m \<in> {DFS_EXPLORE, BFS_EXPLORE, ASTAR_EXPLORE}" by (cases m) simp_all
    from explore_mode_result [OF em f] assms
    have d: "distinct p" and s: "set p = {c. reachable maze ?W ?H (sx, sy) c} - {(sx, sy)}"
      unfolding explore_result_def by simp_all
    from explore_mode_order [OF em f] have e: "expansion_order maze ?W ?H (sx, sy) p" .
    have "p \<noteq> []" if "\<exists>c. c \<noteq> (sx, sy) \<and> reachable maze ?W ?H (sx, sy) c"
    proof
      assume "p = []"
      with s have "{c. reachable maze ?W ?H (sx, sy) c} - {(sx, sy)} = {}" by simp
      with that show False by blast
    qed
    with d s e False show ?thesis by simp
  qed
next
  assume "rectangular maze \<and> in_grid maze (sx, sy)"
  then have "rectangular maze" and "in_grid maze (sx, sy)" by simp_all
  then show "\<exists>p. findPath sx sy ex ey m maze = Some (Inr p)" by (rule findPath_returns)
qed

theorem unreachable_goal_results_witness:
  "\<not> reachable walled3 (maze_width walled3) (maze_height walled3) (0, 0) (2, 0) \<and>
   findPath 0 0 2 0 BFS_EXPLORE walled3 = Some (Inr [(1, 0)]) \<and>
   set [(1, 0)] = {c. reachable walled3 (maze_width walled3) (maze_height walled3) (0, 0) c}
                  - {(0, 0)} \<and>
   expansion_order walled3 (maze_width walled3) (maze_height walled3) (0, 0) [(1, 0)] \<and>
   findPath 0 0 2 0 BFS walled3 = Some (Inr []) \<and>
   rectangular walled3 \<and> in_grid walled3 (0, 0)"
proof -
  have h1: "rectangular walled3" and h2: "in_grid walled3 (0, 0)"
    by (simp_all add: walled3_facts)
  note h3 = walled3_unreachable
  have h4: "findPath 0 0 2 0 BFS_EXPLORE walled3 = Some (Inr [(1, 0)])" by code_simp
  have h5: "findPath 0 0 2 0 BFS walled3 = Some (Inr [])" by code_simp
  from unreachable_goal_results [OF h3, of BFS_EXPLORE] h4
  have "set [(1, 0)] = {c. reachable walled3 (maze_width walled3) (maze_height walled3) (0, 0) c}
                  - {(0, 0)}"
    and "expansion_order walled3 (maze_width walled3) (maze_height walled3) (0, 0) [(1, 0)]"
    by simp_all
  with h1 h2 h3 h4 h5 show ?thesis by (intro conjI)
qed

section \<open>Start equal to goal, and empty grids\<close>

text \<open>
  Claim C8. For every grid and every strategy, if the start coordinate equals the goal
  coordinate then \<open>findPath\<close> returns the empty sequence. This holds with no condition on
  the grid or on the position of the start: the first node taken from the frontier is the
  goal, before any cell is read.
\<close>

theorem start_equals_goal_empty:
  "findPath startX startY startX startY m maze = Some (Inr [])"
proof (cases maze)
  case Nil
  then show ?thesis by (simp add: findPath_def)
next
  case (Cons row0 rows)
  show ?thesis
  proof (cases m)
    case DFS
    then show ?thesis by (simp add: findPath_def dfs_def Cons)
  next
    case DFS_EXPLORE
    then show ?thesis by (simp add: findPath_def dfsExplore_def Cons)
  next
    case BFS
    then show ?thesis by (simp add: findPath_def bfs_def Cons)
  next
    case BFS_EXPLORE
    then show ?thesis by (simp add: findPath_def bfsExplore_def Cons)
  next
    case ASTAR
    then show ?thesis by (simp add: findPath_def astar_def Cons astar_loop_at_goal)
  next
    case ASTAR_EXPLORE
    then show ?thesis
      by (simp add: findPath_def astarExplore_def Cons astarExplore_loop_at_start_goal
          reconstruct_at_start)
  qed
qed

text \<open>
  Claim C9. For every start, goal and strategy, if the grid is empty (it has zero rows, or
  its first row has zero length) then \<open>findPath\<close> returns the empty sequence and no error
  occurs. With zero rows the dispatcher returns at once; with an empty first row the width
  is 0, no neighbour passes the bounds test, and each loop ends after one iteration.
\<close>

theorem empty_grid_empty_result:
  assumes "maze = [] \<or> hd maze = []"
  shows "findPath startX startY endX endY m maze = Some (Inr [])"
proof (cases maze)
  case Nil
  then show ?thesis by (simp add: findPath_def)
next
  case (Cons row0 rows)
  with assms have row0: "row0 = []" by simp
  show ?thesis
  proof (cases m)
    case DFS
    then show ?thesis
      by (simp add: findPath_def dfs_def Cons row0 dfs_push_zero_width)
  next
    case DFS_EXPLORE
    then show ?thesis
      by (simp add: findPath_def dfsExplore_def Cons row0 dfsExplore_push_zero_width)
  next
    case BFS
    then show ?thesis
      by (simp add: findPath_def bfs_def Cons row0 bfs_push_zero_width)
  next
    case BFS_EXPLORE
    then show ?thesis
      by (simp add: findPath_def bfsExplore_def Cons row0 bfsExplore_push_zero_width)
  next
    case ASTAR
    then show ?thesis
      by (simp add: findPath_def astar_def Cons row0 astar_loop_zero_width)
  next
    case ASTAR_EXPLORE
    then show ?thesis
      by (simp add: findPath_def astarExplore_def Cons row0 astarExplore_loop_zero_width
          reconstruct_at_start)
  qed
qed

theorem empty_grid_empty_result_witness:
  "([[]] = ([] :: maze) \<or> hd ([[]] :: maze) = [])
   \<and> findPath 0 0 3 2 ASTAR_EXPLORE [[]] = Some (Inr [])"
proof -
  have h: "[[]] = ([] :: maze) \<or> hd ([[]] :: maze) = []" by simp
  from h empty_grid_empty_result [OF h] show ?thesis by (rule conjI)
qed

end
